(* ===== verification/Prelude.thy ===== *)
theory Prelude
  imports Main "HOL-Library.Word" "HOL-Library.Signed_Division"
begin

text \<open>
  Shared vocabulary of the development: the C integer types as words, the constants of
  \<^verbatim>\<open>param.h\<close>, the outcome type of kernel code (a function may return, panic, give up the
  CPU inside \<^verbatim>\<open>sched\<close>, or spin on a lock that nobody will release), the sequencing of such
  code, and the generic lemmas on table scans that the components use.
\<close>

unbundle bit_operations_syntax

section \<open>C integer types\<close>

text \<open>\<^verbatim>\<open>uchar\<close>, \<^verbatim>\<open>ushort\<close>, \<^verbatim>\<open>uint\<close> of \<^verbatim>\<open>types.h\<close>, and the 64-bit type of wide literals.\<close>

type_synonym uchar = "8 word"
type_synonym ushort = "16 word"
type_synonym uint32 = "32 word"
type_synonym longlong = "64 word"

section \<open>Compile-time constants (param.h)\<close>

abbreviation (input) NPROC :: nat where "NPROC \<equiv> 64"
abbreviation (input) KSTACKSIZE :: uint32 where "KSTACKSIZE \<equiv> 4096"
abbreviation (input) NCPU :: nat where "NCPU \<equiv> 8"
abbreviation (input) NOFILE :: nat where "NOFILE \<equiv> 16"
abbreviation (input) MAX_MUTEXES :: nat where "MAX_MUTEXES \<equiv> 5"

section \<open>Outcomes of kernel code\<close>

text \<open>
  \<^item> \<open>Ret x s\<close>: the function returned \<open>x\<close> in state \<open>s\<close>;
  \<^item> \<open>Panic msg\<close>: \<^verbatim>\<open>panic(msg)\<close> was called, the machine is frozen;
  \<^item> \<open>Block s\<close>: the calling process switched to the scheduler (\<^verbatim>\<open>swtch\<close> inside \<^verbatim>\<open>sched\<close>) in
    state \<open>s\<close>; what it does once it is switched back is a definition of its own;
  \<^item> \<open>Spin\<close>: the CPU loops in \<^verbatim>\<open>acquire\<close> on a lock that some other CPU holds;
  \<^item> \<open>Fault\<close>: a memory access outside what is mapped, which traps in the kernel.
\<close>

datatype ('a, 's) outcome =
    Ret 'a 's
  | Panic string
  | Block 's
  | Spin
  | Fault

type_synonym ('a, 's) kern = "'s \<Rightarrow> ('a, 's) outcome"

definition retK :: "'a \<Rightarrow> ('a, 's) kern" where
  "retK x s = Ret x s"

definition panicK :: "string \<Rightarrow> ('a, 's) kern" where
  "panicK m s = Panic m"

definition bindK :: "('a, 's) kern \<Rightarrow> ('a \<Rightarrow> ('b, 's) kern) \<Rightarrow> ('b, 's) kern" where
  "bindK f g s =
     (case f s of
        Ret x s' \<Rightarrow> g x s'
      | Panic m \<Rightarrow> Panic m
      | Block s' \<Rightarrow> Block s'
      | Spin \<Rightarrow> Spin
      | Fault \<Rightarrow> Fault)"

definition thenK :: "('a, 's) kern \<Rightarrow> ('b, 's) kern \<Rightarrow> ('b, 's) kern" where
  "thenK f g = bindK f (\<lambda>_. g)"

definition modifyK :: "('s \<Rightarrow> 's) \<Rightarrow> (unit, 's) kern" where
  "modifyK f s = Ret () (f s)"

definition getsK :: "('s \<Rightarrow> 'a) \<Rightarrow> ('a, 's) kern" where
  "getsK f s = Ret (f s) s"

definition whenK :: "bool \<Rightarrow> (unit, 's) kern \<Rightarrow> (unit, 's) kern" where
  "whenK b f = (if b then f else retK ())"

definition condK :: "('s \<Rightarrow> bool) \<Rightarrow> (unit, 's) kern \<Rightarrow> (unit, 's) kern" where
  "condK P f s = (if P s then f s else Ret () s)"

named_theorems kern_simps \<open>unfolding the sequencing of kernel code\<close>

lemma retK_app [kern_simps, simp]: "retK x s = Ret x s"
  by (simp add: retK_def)

lemma panicK_app [kern_simps, simp]: "panicK m s = Panic m"
  by (simp add: panicK_def)

lemma modifyK_app [kern_simps, simp]: "modifyK f s = Ret () (f s)"
  by (simp add: modifyK_def)

lemma getsK_app [kern_simps, simp]: "getsK f s = Ret (f s) s"
  by (simp add: getsK_def)

lemma whenK_app [kern_simps, simp]:
  "whenK True f = f" "whenK False f = retK ()"
  by (simp_all add: whenK_def)

lemma bindK_Ret [kern_simps]: "f s = Ret x s' \<Longrightarrow> bindK f g s = g x s'"
  by (simp add: bindK_def)

lemma bindK_Panic [kern_simps]: "f s = Panic m \<Longrightarrow> bindK f g s = Panic m"
  by (simp add: bindK_def)

lemma bindK_Block [kern_simps]: "f s = Block s' \<Longrightarrow> bindK f g s = Block s'"
  by (simp add: bindK_def)

lemma bindK_Spin [kern_simps]: "f s = Spin \<Longrightarrow> bindK f g s = Spin"
  by (simp add: bindK_def)

lemma bindK_pure [simp]:
  "bindK (retK x) g1 s = g1 x s"
  "bindK (modifyK h) g2 s = g2 () (h s)"
  "bindK (getsK k) g3 s = g3 (k s) s"
  "bindK (panicK m) g4 s = Panic m"
  by (simp_all add: bindK_def)

lemma thenK_Ret [kern_simps]: "f s = Ret x s' \<Longrightarrow> thenK f g s = g s'"
  by (simp add: thenK_def bindK_def)

lemma thenK_pure [simp]:
  "thenK (retK x) g1 s = g1 s"
  "thenK (modifyK h) g2 s = g2 (h s)"
  "thenK (panicK m) g3 s = Panic m"
  by (simp_all add: thenK_def)

lemma thenK_Panic [kern_simps]: "f s = Panic m \<Longrightarrow> thenK f g s = Panic m"
  by (simp add: thenK_def bindK_def)

lemma bindK_assoc: "bindK (bindK f g) h = bindK f (\<lambda>x. bindK (g x) h)"
  by (rule ext) (simp add: bindK_def split: outcome.split)

lemma thenK_assoc: "thenK (thenK f g) h = thenK f (thenK g h)"
  by (simp add: thenK_def bindK_assoc)

lemma bindK_eq_Ret_iff:
  "bindK f g s = Ret y t \<longleftrightarrow> (\<exists>x s'. f s = Ret x s' \<and> g x s' = Ret y t)"
  by (auto simp: bindK_def split: outcome.splits)

lemma thenK_eq_Ret_iff:
  "thenK f g s = Ret y t \<longleftrightarrow> (\<exists>x s'. f s = Ret x s' \<and> g s' = Ret y t)"
  by (simp add: thenK_def bindK_eq_Ret_iff)

fun repeatK :: "nat \<Rightarrow> ('a, 's) kern \<Rightarrow> ('a list, 's) kern" where
  "repeatK 0 f = retK []"
| "repeatK (Suc n) f = bindK f (\<lambda>x. bindK (repeatK n f) (\<lambda>xs. retK (x # xs)))"

fun forK :: "'a list \<Rightarrow> ('a \<Rightarrow> (unit, 's) kern) \<Rightarrow> (unit, 's) kern" where
  "forK [] f = retK ()"
| "forK (x # xs) f = thenK (f x) (forK xs f)"

section \<open>What kernel code preserves\<close>

text \<open>
  \<open>preservesK I f\<close>: whenever \<open>f\<close> returns or blocks, a state that satisfied \<open>I\<close> still does. With
  \<open>I\<close> of the form \<open>\<lambda>s. \<pi> s = v\<close> it says that \<open>f\<close> leaves the part \<open>\<pi>\<close> of the state alone. The rules
  below follow the structure of the code.
\<close>

definition okK :: "('s \<Rightarrow> bool) \<Rightarrow> ('a, 's) outcome \<Rightarrow> bool" where
  "okK I r = (case r of Ret x t \<Rightarrow> I t | Block t \<Rightarrow> I t | _ \<Rightarrow> True)"

definition preservesK :: "('s \<Rightarrow> bool) \<Rightarrow> ('a, 's) kern \<Rightarrow> bool" where
  "preservesK I f \<longleftrightarrow> (\<forall>s. I s \<longrightarrow> okK I (f s))"

named_theorems keep_intros \<open>introduction rules for what code preserves\<close>

lemma okK_simps [simp]:
  "okK I (Ret x t) = I t" "okK I (Block t) = I t" "okK I (Panic m)" "okK I Spin" "okK I Fault"
  by (simp_all add: okK_def)

lemma preservesK_Ret: "preservesK I f \<Longrightarrow> f s = Ret x t \<Longrightarrow> I s \<Longrightarrow> I t"
  by (force simp: preservesK_def)

lemma preservesK_Block: "preservesK I f \<Longrightarrow> f s = Block t \<Longrightarrow> I s \<Longrightarrow> I t"
  by (force simp: preservesK_def)

lemma preservesK_bindK [keep_intros]:
  assumes "preservesK I f" and "\<And>x. preservesK I (g x)"
  shows "preservesK I (bindK f g)"
  unfolding preservesK_def
proof (intro allI impI)
  fix s assume "I s"
  then have "okK I (f s)" using assms(1) by (simp add: preservesK_def)
  then show "okK I (bindK f g s)"
    using assms(2) by (cases "f s") (simp_all add: bindK_def preservesK_def)
qed

lemma preservesK_thenK [keep_intros]: "preservesK I f \<Longrightarrow> preservesK I g \<Longrightarrow> preservesK I (thenK f g)"
  unfolding thenK_def by (rule preservesK_bindK)

lemma preservesK_pure [keep_intros]:
  "preservesK I (retK x)" "preservesK I (panicK m)" "preservesK I (getsK h)"
  "preservesK I (\<lambda>s. Panic m)" "preservesK I (\<lambda>s. Spin)" "preservesK I (\<lambda>s. Fault)"
  by (simp_all add: preservesK_def)

lemma preservesK_modifyK [keep_intros]: "(\<And>s. I s \<Longrightarrow> I (h s)) \<Longrightarrow> preservesK I (modifyK h)"
  by (simp add: preservesK_def)

lemma preservesK_BlockI [keep_intros]: "(\<And>s. I s \<Longrightarrow> I (h s)) \<Longrightarrow> preservesK I (\<lambda>s. Block (h s))"
  by (simp add: preservesK_def)

lemma preservesK_if [keep_intros]:
  "preservesK I f \<Longrightarrow> preservesK I g \<Longrightarrow> preservesK I (if b then f else g)"
  by simp

lemma preservesK_if_state [keep_intros]:
  "preservesK I f \<Longrightarrow> preservesK I g \<Longrightarrow> preservesK I (\<lambda>s. if P s then f s else g s)"
  by (simp add: preservesK_def)

lemma preservesK_whenK [keep_intros]: "preservesK I f \<Longrightarrow> preservesK I (whenK b f)"
  by (cases b) (simp_all add: preservesK_pure)

lemma preservesK_condK [keep_intros]: "preservesK I f \<Longrightarrow> preservesK I (condK P f)"
  by (simp add: preservesK_def condK_def)

lemma preservesK_option [keep_intros]:
  "preservesK I f \<Longrightarrow> (\<And>x. preservesK I (g x)) \<Longrightarrow> preservesK I (case v of None \<Rightarrow> f | Some x \<Rightarrow> g x)"
  by (cases v) simp_all

lemma preservesK_Let [keep_intros]: "(\<And>x. preservesK I (f x)) \<Longrightarrow> preservesK I (Let v f)"
  by simp

lemma preservesK_forK [keep_intros]: "(\<And>x. preservesK I (f x)) \<Longrightarrow> preservesK I (forK xs f)"
proof (induction xs)
  case (Cons x xs)
  then show ?case by (simp add: preservesK_thenK)
qed (simp add: preservesK_pure)

section \<open>What kernel code establishes\<close>

text \<open>
  \<open>wpK f Q R s\<close>: run in \<open>s\<close>, if \<open>f\<close> returns then \<open>Q\<close> holds of the result and the state, and if it
  gives up the CPU then \<open>R\<close> holds of the state.
\<close>

definition wpK :: "('a, 's) kern \<Rightarrow> ('a \<Rightarrow> 's \<Rightarrow> bool) \<Rightarrow> ('s \<Rightarrow> bool) \<Rightarrow> 's \<Rightarrow> bool" where
  "wpK f Q R s = (case f s of Ret x t \<Rightarrow> Q x t | Block t \<Rightarrow> R t | _ \<Rightarrow> True)"

lemma wpK_bindK [simp]: "wpK (bindK f g) Q R = wpK f (\<lambda>x. wpK (g x) Q R) R"
  by (rule ext) (simp add: wpK_def bindK_def split: outcome.split)

lemma wpK_thenK [simp]: "wpK (thenK f g) Q R = wpK f (\<lambda>x. wpK g Q R) R"
  by (simp add: thenK_def)

lemma wpK_pure [simp]:
  "wpK (retK x) Q R = Q x" "wpK (panicK m) Q1 R1 = (\<lambda>s. True)" "wpK (modifyK h) Q2 R2 = (\<lambda>s. Q2 () (h s))"
  "wpK (getsK k) Q3 R3 = (\<lambda>s. Q3 (k s) s)" "wpK (\<lambda>s. Fault) Q4 R4 = (\<lambda>s. True)"
  "wpK (\<lambda>s. Panic m) Q5 R5 = (\<lambda>s. True)" "wpK (\<lambda>s. Spin) Q6 R6 = (\<lambda>s. True)"
  by (rule ext, simp add: wpK_def)+

lemma wpK_condK [simp]: "wpK (condK P f) Q R = (\<lambda>s. if P s then wpK f Q R s else Q () s)"
  by (rule ext) (simp add: wpK_def condK_def)

lemma wpK_whenK [simp]: "wpK (whenK b f) Q R = (if b then wpK f Q R else Q ())"
  by (rule ext) (simp add: wpK_def)

lemma wpK_mono:
  "wpK f Q R s \<Longrightarrow> (\<And>x t. Q x t \<Longrightarrow> Q' x t) \<Longrightarrow> (\<And>t. R t \<Longrightarrow> R' t) \<Longrightarrow> wpK f Q' R' s"
  by (auto simp: wpK_def split: outcome.splits)

lemma wpK_Ret: "wpK f Q R s \<Longrightarrow> f s = Ret x t \<Longrightarrow> Q x t"
  by (simp add: wpK_def)

lemma wpK_Block: "wpK f Q R s \<Longrightarrow> f s = Block t \<Longrightarrow> R t"
  by (simp add: wpK_def)

lemma wpK_keep: "preservesK I f \<Longrightarrow> I s \<Longrightarrow> wpK f (\<lambda>x. I) I s"
  by (auto simp: wpK_def preservesK_def okK_def split: outcome.splits dest: spec [of _ s])

text \<open>Code that never gives up the CPU.\<close>

named_theorems nonblock_intros \<open>code that never gives up the CPU\<close>

definition nonblockK :: "('a, 's) kern \<Rightarrow> bool" where
  "nonblockK f \<longleftrightarrow> (\<forall>s t. f s \<noteq> Block t)"

lemma nonblockK_bindK [nonblock_intros]: "nonblockK f \<Longrightarrow> (\<And>x. nonblockK (g x)) \<Longrightarrow> nonblockK (bindK f g)"
  by (simp add: nonblockK_def bindK_def split: outcome.split)

lemma nonblockK_thenK [nonblock_intros]: "nonblockK f \<Longrightarrow> nonblockK g \<Longrightarrow> nonblockK (thenK f g)"
  unfolding thenK_def by (rule nonblockK_bindK)

lemma nonblockK_pure [nonblock_intros]:
  "nonblockK (retK x)" "nonblockK (panicK m)" "nonblockK (modifyK h)" "nonblockK (getsK k)"
  "nonblockK (\<lambda>s. Fault)" "nonblockK (\<lambda>s. Panic l)" "nonblockK (\<lambda>s. Spin)"
  by (simp_all add: nonblockK_def)

lemma nonblockK_control [nonblock_intros]:
  "nonblockK f \<Longrightarrow> nonblockK g \<Longrightarrow> nonblockK (if b then f else g)"
  "nonblockK h \<Longrightarrow> nonblockK (whenK b h)" "nonblockK h' \<Longrightarrow> nonblockK (condK P h')"
  "nonblockK f \<Longrightarrow> (\<And>x. nonblockK (k x)) \<Longrightarrow> nonblockK (case v of None \<Rightarrow> f | Some x \<Rightarrow> k x)"
  "(\<And>x. nonblockK (k' x)) \<Longrightarrow> nonblockK (Let v' k')"
  by (cases b; cases v; simp add: nonblockK_def condK_def)+

lemma nonblockK_forK [nonblock_intros]: "(\<And>x. nonblockK (f x)) \<Longrightarrow> nonblockK (forK xs f)"
  by (induction xs) (simp_all add: nonblock_intros)

text \<open>
  A call that does not block and leaves \<open>\<pi>\<close> of the state alone, or one that blocks and never returns
  in place.
\<close>

lemma wpK_frame:
  assumes "preservesK (\<lambda>t. \<pi> t = \<pi> s) f" and "nonblockK f" and "\<And>x t. \<pi> t = \<pi> s \<Longrightarrow> Q x t"
  shows "wpK f Q R s"
  using wpK_keep [OF assms(1) refl] assms(2,3) by (auto simp: wpK_def nonblockK_def split: outcome.splits)

lemma wpK_frame_block:
  assumes "preservesK (\<lambda>t. \<pi> t = \<pi> s) f" and "\<And>x t. f s \<noteq> Ret x t" and "\<And>t. \<pi> t = \<pi> s \<Longrightarrow> R t"
  shows "wpK f Q R s"
  using wpK_keep [OF assms(1) refl] assms(2,3) by (auto simp: wpK_def split: outcome.splits)

lemma preservesK_wp: "(\<And>s. I s \<Longrightarrow> wpK f (\<lambda>x. I) I s) \<Longrightarrow> preservesK I f"
  by (simp add: wpK_def preservesK_def okK_def split: outcome.splits)

section \<open>Scanning a table\<close>

text \<open>
  The kernel scans its fixed tables with \<^verbatim>\<open>for(p = table; p < &table[N]; p++)\<close> and stops at the
  first entry that satisfies a condition; \<open>first_index\<close> is that scan.
\<close>

fun first_index :: "('a \<Rightarrow> bool) \<Rightarrow> 'a list \<Rightarrow> nat option" where
  "first_index P [] = None"
| "first_index P (x # xs) = (if P x then Some 0 else map_option Suc (first_index P xs))"

lemma first_index_None_iff: "first_index P xs = None \<longleftrightarrow> (\<forall>x\<in>set xs. \<not> P x)"
  by (induction xs) auto

lemma first_index_SomeD:
  "first_index P xs = Some i \<Longrightarrow> i < length xs \<and> P (xs ! i) \<and> (\<forall>j<i. \<not> P (xs ! j))"
proof (induction xs arbitrary: i)
  case Nil
  then show ?case by simp
next
  case (Cons x xs)
  show ?case
  proof (cases "P x")
    case True
    with Cons.prems show ?thesis by simp
  next
    case False
    with Cons.prems obtain k where k: "first_index P xs = Some k" "i = Suc k" by auto
    from Cons.IH [OF k(1)] False k(2) show ?thesis
      by (auto simp: nth_Cons split: nat.splits)
  qed
qed

lemma first_index_SomeI:
  "i < length xs \<Longrightarrow> P (xs ! i) \<Longrightarrow> (\<And>j. j < i \<Longrightarrow> \<not> P (xs ! j)) \<Longrightarrow> first_index P xs = Some i"
proof -
  assume i: "i < length xs" "P (xs ! i)" and least: "\<And>j. j < i \<Longrightarrow> \<not> P (xs ! j)"
  have "first_index P xs \<noteq> None"
    using i by (auto simp: first_index_None_iff)
  then obtain k where k: "first_index P xs = Some k" by auto
  from first_index_SomeD [OF k] i least have "k = i"
    by (metis linorder_neqE_nat)
  with k show ?thesis by simp
qed

lemma first_index_Some_iff:
  "first_index P xs = Some i \<longleftrightarrow> i < length xs \<and> P (xs ! i) \<and> (\<forall>j<i. \<not> P (xs ! j))"
  using first_index_SomeD first_index_SomeI by metis

lemma first_index_exists: "\<exists>x\<in>set xs. P x \<Longrightarrow> \<exists>i. first_index P xs = Some i"
  by (metis first_index_None_iff not_None_eq)

lemma first_index_cong:
  "(\<And>x. x \<in> set xs \<Longrightarrow> P x = Q x) \<Longrightarrow> first_index P xs = first_index Q xs"
  by (induction xs) auto

lemma first_index_map: "first_index P (map f xs) = first_index (P \<circ> f) xs"
  by (induction xs) auto

end
