(* ===== verification/C_Memory.thy ===== *)
theory C_Memory
  imports Prelude
begin

text \<open>
  Byte-addressed memory as the kernel sees it: a function from 32-bit (kernel virtual)
  addresses to bytes, with the little-endian 32-bit accesses of x86 and the string
  instructions \<^verbatim>\<open>rep stosb\<close> and \<^verbatim>\<open>rep stosl\<close> of \<^verbatim>\<open>x86.h\<close>. \<open>fill\<close> and \<open>copy\<close> are the
  reference meanings of a memory fill and a memory copy that the routines of
  \<^verbatim>\<open>string.c\<close> are compared with.
\<close>

type_synonym memory = "uint32 \<Rightarrow> uchar"

section \<open>32-bit accesses\<close>

definition load32 :: "memory \<Rightarrow> uint32 \<Rightarrow> uint32" where
  "load32 m a =
     ucast (m a) OR push_bit 8 (ucast (m (a + 1)))
     OR push_bit 16 (ucast (m (a + 2))) OR push_bit 24 (ucast (m (a + 3)))"

definition store32 :: "memory \<Rightarrow> uint32 \<Rightarrow> uint32 \<Rightarrow> memory" where
  "store32 m a v =
     m(a := ucast v, a + 1 := ucast (drop_bit 8 v),
       a + 2 := ucast (drop_bit 16 v), a + 3 := ucast (drop_bit 24 v))"

section \<open>Ranges of addresses\<close>

text \<open>\<open>in_range a d n\<close>: \<open>a\<close> is one of the \<open>n\<close> addresses from \<open>d\<close> on (addresses wrap around).\<close>

definition in_range :: "uint32 \<Rightarrow> uint32 \<Rightarrow> nat \<Rightarrow> bool" where
  "in_range a d n \<longleftrightarrow> unat (a - d) < n"

definition fill :: "memory \<Rightarrow> uint32 \<Rightarrow> uchar \<Rightarrow> nat \<Rightarrow> memory" where
  "fill m d c n = (\<lambda>a. if in_range a d n then c else m a)"

definition copy :: "memory \<Rightarrow> uint32 \<Rightarrow> uint32 \<Rightarrow> nat \<Rightarrow> memory" where
  "copy m d s n = (\<lambda>a. if in_range a d n then m (s + (a - d)) else m a)"

section \<open>String instructions (x86.h)\<close>

text \<open>\<^verbatim>\<open>stosb(addr, data, cnt)\<close>: \<open>cnt\<close> byte stores, the destination advancing by one.\<close>

fun stosb :: "memory \<Rightarrow> uint32 \<Rightarrow> uchar \<Rightarrow> nat \<Rightarrow> memory" where
  "stosb m d c 0 = m"
| "stosb m d c (Suc n) = stosb (m(d := c)) (d + 1) c n"

text \<open>\<^verbatim>\<open>stosl(addr, data, cnt)\<close>: \<open>cnt\<close> 32-bit stores, the destination advancing by four.\<close>

fun stosl :: "memory \<Rightarrow> uint32 \<Rightarrow> uint32 \<Rightarrow> nat \<Rightarrow> memory" where
  "stosl m d c 0 = m"
| "stosl m d c (Suc n) = stosl (store32 m d c) (d + 4) c n"

section \<open>Lemmas on addresses and ranges\<close>

named_theorems mem_simps \<open>reading memory after an update\<close>

lemma unat_diff_Suc:
  fixes a d :: uint32
  assumes "a \<noteq> d"
  shows "unat (a - d) = Suc (unat (a - (d + 1)))"
proof -
  have "a - d \<noteq> 0" using assms by simp
  then have "unat (a - d - 1) = unat (a - d) - 1" and "unat (a - d) > 0"
    by (simp_all add: unat_minus_one unat_gt_0)
  then show ?thesis by (simp add: algebra_simps)
qed

lemma unat_diff_self_Suc: "unat ((d::uint32) - (d + 1)) = 4294967295"
proof -
  have "(d::uint32) - (d + 1) = 4294967295" by simp
  then show ?thesis by (simp only:) simp
qed

lemma in_range_0 [simp]: "\<not> in_range a d 0"
  by (simp add: in_range_def)

lemma in_range_Suc:
  "n < 4294967296 \<Longrightarrow> in_range a d (Suc n) \<longleftrightarrow> a = d \<or> in_range a (d + 1) n"
  by (cases "a = d") (auto simp: in_range_def unat_diff_Suc)

lemma in_range_self [simp]: "in_range d d (Suc n)"
  by (simp add: in_range_def)

lemma not_in_range_next: "n < 4294967296 \<Longrightarrow> \<not> in_range d (d + 1) n"
  using unat_diff_self_Suc [of d] by (simp only: in_range_def)

lemma in_range_mono: "in_range a d n \<Longrightarrow> n \<le> k \<Longrightarrow> in_range a d k"
  by (simp add: in_range_def)

text \<open>Without wrap-around a range is an interval of unsigned values.\<close>

lemma in_range_unat:
  assumes "unat d + n \<le> 4294967296"
  shows "in_range a d n \<longleftrightarrow> unat d \<le> unat a \<and> unat a < unat d + n"
proof (cases "d \<le> a")
  case True
  then have "unat (a - d) = unat a - unat d" by (rule unat_sub)
  with True show ?thesis by (auto simp: in_range_def word_le_nat_alt)
next
  case False
  then have lt: "unat a < unat d" by (simp add: word_le_nat_alt)
  have "unat (a - d) = unat a + 4294967296 - unat d"
    using lt by (simp add: unat_sub_if_size word_size)
  with lt assms show ?thesis by (auto simp: in_range_def)
qed

lemma fill_0 [simp]: "fill m d c 0 = m"
  by (simp add: fill_def)

lemma copy_0 [simp]: "copy m d s 0 = m"
  by (simp add: copy_def)

lemma fill_Suc: "n < 4294967296 \<Longrightarrow> fill (m(d := c)) (d + 1) c n = fill m d c (Suc n)"
  by (rule ext) (auto simp: fill_def in_range_Suc)

lemma stosb_fill: "n \<le> 4294967296 \<Longrightarrow> stosb m d c n = fill m d c n"
proof (induction n arbitrary: m d)
  case 0
  then show ?case by simp
next
  case (Suc n)
  then have "stosb m d c (Suc n) = fill (m(d := c)) (d + 1) c n" by simp
  also have "\<dots> = fill m d c (Suc n)" using Suc.prems by (intro fill_Suc) simp
  finally show ?case .
qed

section \<open>Loads after stores\<close>

lemma add_neq_self_word: "unat k \<noteq> 0 \<Longrightarrow> (a::uint32) + k \<noteq> a"
  by auto

lemma byte_offsets_distinct [simp]:
  fixes a :: uint32
  shows "a + 1 \<noteq> a" "a + 2 \<noteq> a" "a + 3 \<noteq> a" "a + 2 \<noteq> a + 1" "a + 3 \<noteq> a + 1" "a + 3 \<noteq> a + 2"
    "a \<noteq> a + 1" "a \<noteq> a + 2" "a \<noteq> a + 3" "a + 1 \<noteq> a + 2" "a + 1 \<noteq> a + 3" "a + 2 \<noteq> a + 3"
  by simp_all

lemma load32_store32 [simp]: "load32 (store32 m a v) a = v"
proof (rule bit_word_eqI)
  fix n assume "n < LENGTH(32)"
  then consider "n < 8" | "8 \<le> n" "n < 16" | "16 \<le> n" "n < 24" | "24 \<le> n" "n < 32"
    by fastforce
  then show "bit (load32 (store32 m a v) a) n = bit v n"
    by cases (auto simp: load32_def store32_def bit_or_iff bit_push_bit_iff bit_unsigned_iff
        bit_drop_bit_eq)
qed

lemma store32_other: "\<not> in_range b a 4 \<Longrightarrow> store32 m a v b = m b"
proof -
  assume nr: "\<not> in_range b a 4"
  have "b \<noteq> a" "b \<noteq> a + 1" "b \<noteq> a + 2" "b \<noteq> a + 3"
    using nr by (auto simp: in_range_def)
  then show ?thesis by (simp add: store32_def)
qed

lemma load32_cong:
  "(\<And>b. in_range b a 4 \<Longrightarrow> m b = m' b) \<Longrightarrow> load32 m a = load32 m' a"
  by (simp add: load32_def in_range_def)

lemma load32_store32_disjoint:
  assumes "\<And>b. in_range b a 4 \<Longrightarrow> \<not> in_range b c 4"
  shows "load32 (store32 m c v) a = load32 m a"
  by (rule load32_cong) (simp add: store32_other assms)

end
