(* ===== verification/CString.thy ===== *)
theory CString
  imports C_Memory
begin

text \<open>
  The kernel's \<^verbatim>\<open>string.c\<close>: \<^verbatim>\<open>memset\<close> (with its word-fill fast path), \<^verbatim>\<open>memcmp\<close>,
  \<^verbatim>\<open>memmove\<close> (with its choice of direction for overlapping blocks), \<^verbatim>\<open>memcpy\<close>,
  \<^verbatim>\<open>strncmp\<close>, \<^verbatim>\<open>strncpy\<close>, \<^verbatim>\<open>safestrcpy\<close> and \<^verbatim>\<open>strlen\<close>, over byte memory. The lemmas
  compare each routine with its reference meaning.
\<close>

section \<open>Definitions\<close>

text \<open>
  \<^verbatim>\<open>(int)dst%4 == 0 && n%4 == 0\<close> selects \<^verbatim>\<open>stosl\<close> with the byte repeated four times;
  otherwise \<^verbatim>\<open>stosb\<close>. The remainder of a signed division is compared with 0 only.
\<close>

definition rep4 :: "uint32 \<Rightarrow> uint32" where
  "rep4 c = push_bit 24 c OR push_bit 16 c OR push_bit 8 c OR c"

definition memset :: "memory \<Rightarrow> uint32 \<Rightarrow> uint32 \<Rightarrow> uint32 \<Rightarrow> memory" where
  "memset m dst c n =
     (if sint dst smod 4 = 0 \<and> n mod 4 = 0
      then (let c' = c AND 0xFF in stosl m dst (rep4 c') (unat (n div 4)))
      else stosb m dst (ucast c) (unat n))"

fun memcmp :: "memory \<Rightarrow> uint32 \<Rightarrow> uint32 \<Rightarrow> nat \<Rightarrow> int" where
  "memcmp m s1 s2 0 = 0"
| "memcmp m s1 s2 (Suc n) =
     (if m s1 \<noteq> m s2 then uint (m s1) - uint (m s2) else memcmp m (s1 + 1) (s2 + 1) n)"

text \<open>The two loops of \<^verbatim>\<open>memmove\<close>: \<^verbatim>\<open>*--d = *--s\<close> downwards and \<^verbatim>\<open>*d++ = *s++\<close> upwards.\<close>

fun memmove_down :: "memory \<Rightarrow> uint32 \<Rightarrow> uint32 \<Rightarrow> nat \<Rightarrow> memory" where
  "memmove_down m d s 0 = m"
| "memmove_down m d s (Suc n) = memmove_down (m(d - 1 := m (s - 1))) (d - 1) (s - 1) n"

fun memmove_up :: "memory \<Rightarrow> uint32 \<Rightarrow> uint32 \<Rightarrow> nat \<Rightarrow> memory" where
  "memmove_up m d s 0 = m"
| "memmove_up m d s (Suc n) = memmove_up (m(d := m s)) (d + 1) (s + 1) n"

definition memmove :: "memory \<Rightarrow> uint32 \<Rightarrow> uint32 \<Rightarrow> uint32 \<Rightarrow> memory" where
  "memmove m dst src n =
     (if src < dst \<and> src + n > dst
      then memmove_down m (dst + n) (src + n) (unat n)
      else memmove_up m dst src (unat n))"

definition memcpy :: "memory \<Rightarrow> uint32 \<Rightarrow> uint32 \<Rightarrow> uint32 \<Rightarrow> memory" where
  "memcpy m dst src n = memmove m dst src n"

fun strncmp :: "memory \<Rightarrow> uint32 \<Rightarrow> uint32 \<Rightarrow> nat \<Rightarrow> int" where
  "strncmp m p q 0 = 0"
| "strncmp m p q (Suc n) =
     (if m p \<noteq> 0 \<and> m p = m q then strncmp m (p + 1) (q + 1) n
      else uint (m p) - uint (m q))"

text \<open>
  \<^verbatim>\<open>strncpy\<close>: the first loop copies up to and including a NUL, the second stores zeros in
  the rest of the \<open>n\<close> bytes. A negative count copies nothing.
\<close>

fun strncpy_loop :: "memory \<Rightarrow> uint32 \<Rightarrow> uint32 \<Rightarrow> nat \<Rightarrow> memory" where
  "strncpy_loop m s t 0 = m"
| "strncpy_loop m s t (Suc n) =
     (if m t \<noteq> 0 then strncpy_loop (m(s := m t)) (s + 1) (t + 1) n
      else stosb (m(s := m t)) (s + 1) 0 n)"

definition strncpy :: "memory \<Rightarrow> uint32 \<Rightarrow> uint32 \<Rightarrow> int \<Rightarrow> memory" where
  "strncpy m s t n = strncpy_loop m s t (nat n)"

text \<open>
  \<^verbatim>\<open>safestrcpy\<close>: \<^verbatim>\<open>while(--n > 0 && (*s++ = *t++) != 0); *s = 0;\<close>. The loop argument is the
  number of bytes that may still be copied. After a NUL has been copied \<^verbatim>\<open>s\<close> is already
  past it, so the final store writes one more zero.
\<close>

fun safestrcpy_loop :: "memory \<Rightarrow> uint32 \<Rightarrow> uint32 \<Rightarrow> nat \<Rightarrow> memory" where
  "safestrcpy_loop m s t 0 = m(s := 0)"
| "safestrcpy_loop m s t (Suc n) =
     (if m t \<noteq> 0 then safestrcpy_loop (m(s := m t)) (s + 1) (t + 1) n
      else m(s := m t, s + 1 := 0))"

definition safestrcpy :: "memory \<Rightarrow> uint32 \<Rightarrow> uint32 \<Rightarrow> int \<Rightarrow> memory" where
  "safestrcpy m s t n = (if n \<le> 0 then m else safestrcpy_loop m s t (nat (n - 1)))"

text \<open>\<^verbatim>\<open>for(n = 0; s[n]; n++)\<close>: no result if no byte is ever zero.\<close>

partial_function (option) strlen_from :: "memory \<Rightarrow> uint32 \<Rightarrow> nat \<Rightarrow> nat option" where
  "strlen_from m s n = (if m (s + of_nat n) = 0 then Some n else strlen_from m s (Suc n))"

definition strlen :: "memory \<Rightarrow> uint32 \<Rightarrow> nat option" where
  "strlen m s = strlen_from m s 0"

text \<open>\<open>cstring m a bs\<close>: the NUL-terminated string at \<open>a\<close> has the (non-zero) bytes \<open>bs\<close>.\<close>

definition cstring :: "memory \<Rightarrow> uint32 \<Rightarrow> uchar list \<Rightarrow> bool" where
  "cstring m a bs \<longleftrightarrow>
     (\<forall>i<length bs. m (a + of_nat i) = bs ! i) \<and> 0 \<notin> set bs \<and> m (a + of_nat (length bs)) = 0"

section \<open>Offsets\<close>

lemma of_nat_inject_exp_32:
  "i < 4294967296 \<Longrightarrow> j < 4294967296 \<Longrightarrow> (of_nat i :: uint32) = of_nat j \<longleftrightarrow> i = j"
  by (simp add: word_of_nat_eq_iff take_bit_nat_eq_self)

lemma offset_inj:
  "i < 4294967296 \<Longrightarrow> j < 4294967296 \<Longrightarrow> (d::uint32) + of_nat i = d + of_nat j \<longleftrightarrow> i = j"
  by (auto simp: of_nat_inject_exp_32)

lemma unat_offset:
  "unat (d::uint32) + k < 4294967296 \<Longrightarrow> unat (d + of_nat k) = unat d + k"
  by (simp add: unat_word_ariths unat_of_nat take_bit_nat_eq_self)

lemma in_range_offset:
  "n \<le> 4294967296 \<Longrightarrow> in_range a d n \<longleftrightarrow> (\<exists>k<n. a = d + of_nat k)"
proof
  assume n: "n \<le> 4294967296" and "in_range a d n"
  then have "unat (a - d) < n" and "a = d + of_nat (unat (a - d))"
    by (simp_all add: in_range_def)
  then show "\<exists>k<n. a = d + of_nat k" by blast
next
  assume n: "n \<le> 4294967296" and "\<exists>k<n. a = d + of_nat k"
  then show "in_range a d n" by (auto simp: in_range_def unat_of_nat take_bit_nat_eq_self)
qed

lemma in_range_add:
  "k + n \<le> 4294967296 \<Longrightarrow> in_range a d (k + n) \<longleftrightarrow> in_range a d k \<or> in_range a (d + of_nat k) n"
proof (induction k arbitrary: d)
  case 0
  then show ?case by simp
next
  case (Suc k)
  have "in_range a d (Suc (k + n)) \<longleftrightarrow> a = d \<or> in_range a (d + 1) (k + n)"
    using Suc.prems by (intro in_range_Suc) simp
  also have "\<dots> \<longleftrightarrow> a = d \<or> in_range a (d + 1) k \<or> in_range a (d + 1 + of_nat k) n"
    using Suc.prems by (subst Suc.IH) simp_all
  also have "\<dots> \<longleftrightarrow> in_range a d (Suc k) \<or> in_range a (d + of_nat (Suc k)) n"
    using Suc.prems by (simp add: in_range_Suc algebra_simps)
  finally show ?case by simp
qed

lemma fill_add:
  "k + n \<le> 4294967296 \<Longrightarrow> fill (fill m d c k) (d + of_nat k) c n = fill m d c (k + n)"
  by (rule ext) (simp add: fill_def in_range_add)

section \<open>memset\<close>

lemma rep4_bytes:
  assumes "\<And>n. bit c n \<Longrightarrow> n < 8"
  shows "ucast (rep4 c) = (ucast c :: uchar)" "ucast (drop_bit 8 (rep4 c)) = (ucast c :: uchar)"
    "ucast (drop_bit 16 (rep4 c)) = (ucast c :: uchar)"
    "ucast (drop_bit 24 (rep4 c)) = (ucast c :: uchar)"
proof -
  have no: "\<not> bit c (8 + n)" "\<not> bit c (16 + n)" "\<not> bit c (24 + n)" for n
    using assms [of "8 + n"] assms [of "16 + n"] assms [of "24 + n"] by auto
  show "ucast (rep4 c) = (ucast c :: uchar)" "ucast (drop_bit 8 (rep4 c)) = (ucast c :: uchar)"
    "ucast (drop_bit 16 (rep4 c)) = (ucast c :: uchar)"
    "ucast (drop_bit 24 (rep4 c)) = (ucast c :: uchar)"
    by (rule bit_word_eqI;
        auto simp: rep4_def bit_unsigned_iff bit_or_iff bit_push_bit_iff bit_drop_bit_eq no)+
qed

lemma in_range_4: "in_range a d 4 \<longleftrightarrow> a = d \<or> a = d + 1 \<or> a = d + 2 \<or> a = d + 3"
proof -
  have four: "(k::nat) < 4 \<longleftrightarrow> k = 0 \<or> k = 1 \<or> k = 2 \<or> k = 3" for k by arith
  have "in_range a d 4 \<longleftrightarrow> (\<exists>k<4. a = d + of_nat k)" by (rule in_range_offset) simp
  then show ?thesis by (simp only: four conj_disj_distribR ex_disj_distrib) simp
qed

lemma store32_rep4:
  assumes "\<And>n. bit c n \<Longrightarrow> n < 8"
  shows "store32 m d (rep4 c) = fill m d (ucast c) 4"
  by (intro ext) (auto simp: store32_def fill_def in_range_4 rep4_bytes [OF assms])

lemma stosl_fill:
  assumes c: "\<And>n. bit c n \<Longrightarrow> n < 8"
  shows "4 * n \<le> 4294967296 \<Longrightarrow> stosl m d (rep4 c) n = fill m d (ucast c) (4 * n)"
proof (induction n arbitrary: m d)
  case 0
  then show ?case by simp
next
  case (Suc n)
  from Suc.prems have "fill (fill m d (ucast c) 4) (d + of_nat 4) (ucast c) (4 * n)
      = fill m d (ucast c) (4 + 4 * n)" by (intro fill_add) simp
  with Suc show ?case by (simp add: store32_rep4 [OF c])
qed

lemma bit_low_byte: "bit (c AND 0xFF :: uint32) n \<longleftrightarrow> n < 8 \<and> bit c n"
proof -
  have "(0xFF :: uint32) = mask 8" by (simp add: mask_eq_exp_minus_1)
  then show ?thesis by (simp only: bit_and_iff bit_mask_iff) auto
qed

lemma memset_fill: "memset m dst c n = fill m dst (ucast c) (unat n)"
proof (cases "sint dst smod 4 = 0 \<and> n mod 4 = 0")
  case True
  have n: "4 * unat (n div 4) = unat n"
  proof -
    from True have "unat (n mod 4) = 0" by simp
    then have "unat n mod 4 = 0" by (simp only: unat_mod) simp
    then have "4 * (unat n div 4) = unat n" by presburger
    then show ?thesis by (simp add: unat_div)
  qed
  have "unat n \<le> 4294967296" using unsigned_less [of n, where 'a = nat] by simp
  with n have le: "4 * unat (n div 4) \<le> 4294967296" by simp
  have low: "ucast (c AND 0xFF) = (ucast c :: uchar)"
    by (rule bit_word_eqI) (simp add: bit_unsigned_iff bit_low_byte)
  have "stosl m dst (rep4 (c AND 0xFF)) (unat (n div 4))
      = fill m dst (ucast (c AND 0xFF)) (4 * unat (n div 4))"
    by (rule stosl_fill [OF _ le]) (simp add: bit_low_byte)
  then show ?thesis
    using True by (simp add: memset_def n low)
next
  case False
  have "unat n \<le> 4294967296" using unsigned_less [of n, where 'a = nat] by simp
  then have "stosb m dst (ucast c) (unat n) = fill m dst (ucast c) (unat n)"
    by (rule stosb_fill)
  with False show ?thesis by (auto simp: memset_def)
qed

section \<open>memmove\<close>

lemma memmove_up_copy:
  "unat s + n \<le> 4294967296 \<Longrightarrow> unat d + n \<le> 4294967296 \<Longrightarrow>
   unat d \<le> unat s \<or> unat s + n \<le> unat d \<Longrightarrow> memmove_up m d s n = copy m d s n"
proof (induction n arbitrary: m d s)
  case 0
  then show ?case by simp
next
  case (Suc n)
  show ?case
  proof (cases "n = 0")
    case True
    then show ?thesis using in_range_Suc [of 0] by (auto simp: copy_def intro!: ext)
  next
    case False
    with Suc.prems have s1: "unat (s + 1) = unat s + 1" and d1: "unat (d + 1) = unat d + 1"
      using unat_offset [of s 1] unat_offset [of d 1] by simp_all
    have "memmove_up (m(d := m s)) (d + 1) (s + 1) n = copy (m(d := m s)) (d + 1) (s + 1) n"
      by (rule Suc.IH) (use Suc.prems s1 d1 in auto)
    then have "memmove_up m d s (Suc n) = copy (m(d := m s)) (d + 1) (s + 1) n" by simp
    also have "\<dots> = copy m d s (Suc n)"
    proof (rule ext)
      fix a
      show "copy (m(d := m s)) (d + 1) (s + 1) n a = copy m d s (Suc n) a"
      proof (cases "in_range a (d + 1) n")
        case True
        with Suc.prems obtain k where k: "k < n" "a = d + 1 + of_nat k"
          using in_range_offset [of n a "d + 1"] by auto
        have src: "s + 1 + (a - (d + 1)) = s + of_nat (Suc k)" "s + (a - d) = s + of_nat (Suc k)"
          using k(2) by (simp_all add: algebra_simps)
        have "unat (s + of_nat (Suc k)) = unat s + Suc k"
          using k(1) Suc.prems by (intro unat_offset) simp
        then have "s + of_nat (Suc k) \<noteq> d"
          using Suc.prems k(1) by auto
        with True src show ?thesis
          using Suc.prems by (simp add: copy_def in_range_Suc)
      next
        case False
        with Suc.prems show ?thesis by (simp add: copy_def in_range_Suc)
      qed
    qed
    finally show ?thesis .
  qed
qed

lemma memmove_down_copy:
  "unat d + n \<le> 4294967296 \<Longrightarrow> unat s \<le> unat d \<Longrightarrow>
   memmove_down m (d + of_nat n) (s + of_nat n) n = copy m d s n"
proof (induction n arbitrary: m)
  case 0
  then show ?case by simp
next
  case (Suc n)
  let ?m = "m(d + of_nat n := m (s + of_nat n))"
  have "memmove_down m (d + of_nat (Suc n)) (s + of_nat (Suc n)) (Suc n) = copy ?m d s n"
    using Suc by (simp add: algebra_simps)
  also have "\<dots> = copy m d s (Suc n)"
  proof (rule ext)
    fix a
    have step: "in_range a d (Suc n) \<longleftrightarrow> in_range a d n \<or> a = d + of_nat n"
      using Suc.prems in_range_add [of n 1 a d] in_range_Suc [of 0 a "d + of_nat n"] by simp
    show "copy ?m d s n a = copy m d s (Suc n) a"
    proof (cases "in_range a d n")
      case True
      with Suc.prems obtain k where k: "k < n" "a = d + of_nat k"
        using in_range_offset [of n a d] by auto
      have "unat (s + of_nat k) = unat s + k" "unat (d + of_nat n) = unat d + n"
        using k(1) Suc.prems by (simp_all add: unat_offset)
      then have "s + of_nat k \<noteq> d + of_nat n" using Suc.prems k(1) by auto
      with True k(2) step show ?thesis by (simp add: copy_def)
    next
      case False
      with step show ?thesis by (auto simp: copy_def)
    qed
  qed
  finally show ?case .
qed

lemma memmove_copy:
  assumes "unat src + unat n < 4294967296" and "unat dst + unat n \<le> 4294967296"
  shows "memmove m dst src n = copy m dst src (unat n)"
proof (cases "src < dst \<and> src + n > dst")
  case True
  then show ?thesis
    using memmove_down_copy [of dst "unat n" src m] assms
    by (simp add: memmove_def word_less_nat_alt)
next
  case False
  have "unat (src + n) = unat src + unat n"
    using assms(1) unat_offset [of src "unat n"] by simp
  with False have "unat dst \<le> unat src \<or> unat src + unat n \<le> unat dst"
    by (auto simp: word_less_nat_alt)
  then show ?thesis
    using False assms by (auto simp: memmove_def memmove_up_copy)
qed

section \<open>NUL-terminated strings\<close>

lemma uint_pos_iff [simp]: "0 < uint (w :: 'a::len word) \<longleftrightarrow> w \<noteq> 0"
  using uint_ge_0 [of w] uint_0_iff [of w] by (simp add: order_less_le)

lemma cstring_Nil [simp]: "cstring m a [] \<longleftrightarrow> m a = 0"
  by (simp add: cstring_def)

lemma cstring_Cons:
  "cstring m a (b # bs) \<longleftrightarrow> m a = b \<and> b \<noteq> 0 \<and> cstring m (a + 1) bs"
proof -
  have "(\<forall>i<Suc (length bs). m (a + of_nat i) = (b # bs) ! i)
      \<longleftrightarrow> m a = b \<and> (\<forall>i<length bs. m (a + 1 + of_nat i) = bs ! i)"
    by (auto simp: All_less_Suc2 algebra_simps)
  then show ?thesis by (auto simp: cstring_def algebra_simps)
qed

lemma cstring_unique: "cstring m a bs \<Longrightarrow> cstring m a cs \<Longrightarrow> bs = cs"
proof (induction bs arbitrary: a cs)
  case Nil
  then show ?case by (cases cs) (auto simp: cstring_Cons)
next
  case (Cons b bs)
  then show ?case by (cases cs) (auto simp: cstring_Cons)
qed

lemma strlen_from_cstring:
  "k \<le> n \<Longrightarrow> m (s + of_nat n) = 0 \<Longrightarrow> (\<And>i. k \<le> i \<Longrightarrow> i < n \<Longrightarrow> m (s + of_nat i) \<noteq> 0) \<Longrightarrow>
   strlen_from m s k = Some n"
proof (induction "n - k" arbitrary: k)
  case 0
  then show ?case by (subst strlen_from.simps) simp
next
  case (Suc d)
  then have "k < n" by simp
  with Suc.prems have "m (s + of_nat k) \<noteq> 0" by simp
  moreover have "strlen_from m s (Suc k) = Some n"
    using Suc.hyps(2) Suc.prems \<open>k < n\<close> by (intro Suc.hyps(1)) auto
  ultimately show ?case by (subst strlen_from.simps) simp
qed

lemma strlen_cstring: "cstring m s bs \<Longrightarrow> strlen m s = Some (length bs)"
  unfolding strlen_def
  by (rule strlen_from_cstring) (auto simp: cstring_def in_set_conv_nth)

text \<open>Two strings compare equal in their first \<open>n\<close> bytes iff those prefixes are the same.\<close>

lemma strncmp_zero_iff:
  "cstring m p bs \<Longrightarrow> cstring m q cs \<Longrightarrow> strncmp m p q n = 0 \<longleftrightarrow> take n bs = take n cs"
proof (induction n arbitrary: p q bs cs)
  case 0
  then show ?case by simp
next
  case (Suc n)
  then show ?case by (cases bs; cases cs) (auto simp: cstring_Cons uint_0_iff simp flip: word_uint_eq_iff)
qed

text \<open>
  The sign of \<^verbatim>\<open>strncmp\<close> is the order of the first differing bytes, a shorter string coming
  first because its NUL is the smallest byte.
\<close>

lemma strncmp_neg_iff:
  "cstring m p bs \<Longrightarrow> cstring m q cs \<Longrightarrow>
   strncmp m p q n < 0 \<longleftrightarrow> ord_class.lexordp (take n bs) (take n cs)"
proof (induction n arbitrary: p q bs cs)
  case 0
  then show ?case by simp
next
  case (Suc n)
  then show ?case
    by (cases bs; cases cs) (auto simp: cstring_Cons word_less_def not_less_iff_gr_or_eq simp flip: word_uint_eq_iff)
qed

lemma cstring_cong:
  "(\<And>i. i \<le> length bs \<Longrightarrow> m (a + of_nat i) = m' (a + of_nat i)) \<Longrightarrow>
   cstring m a bs \<longleftrightarrow> cstring m' a bs"
  by (simp add: cstring_def)

lemma cstring_upd_other:
  "(\<And>i. i \<le> length bs \<Longrightarrow> a + of_nat i \<noteq> d) \<Longrightarrow> cstring (m(d := b)) a bs \<longleftrightarrow> cstring m a bs"
  by (rule cstring_cong) simp

section \<open>safestrcpy and strncpy\<close>

lemma safestrcpy_loop_spec:
  assumes "cstring m t bs" and "Suc k \<le> 4294967296"
    and "\<And>i. i \<le> length bs \<Longrightarrow> \<not> in_range (t + of_nat i) s (Suc k)"
  shows "cstring (safestrcpy_loop m s t k) s (take k bs) \<and>
    (\<forall>a. \<not> in_range a s (Suc k) \<longrightarrow> safestrcpy_loop m s t k a = m a)"
  using assms
proof (induction k arbitrary: m s t bs)
  case 0
  then show ?case using in_range_Suc [of 0] by simp
next
  case (Suc k)
  show ?case
  proof (cases bs)
    case Nil
    with Suc.prems(1,2) show ?thesis using in_range_Suc [of k] in_range_Suc [of "Suc k"] by simp
  next
    case (Cons b bs')
    have b: "m t = b" "b \<noteq> 0" "cstring m (t + 1) bs'"
      using Suc.prems(1) Cons by (simp_all add: cstring_Cons)
    have away: "\<not> in_range (t + 1 + of_nat i) s (Suc (Suc k))" if "i \<le> length bs'" for i
      using Suc.prems(3) [of "Suc i"] that Cons by (simp add: algebra_simps)
    have ne: "t + 1 + of_nat i \<noteq> s" if "i \<le> length bs'" for i
      using away [OF that] by auto
    let ?m = "m(s := b)"
    have "cstring (safestrcpy_loop ?m (s + 1) (t + 1) k) (s + 1) (take k bs') \<and>
      (\<forall>a. \<not> in_range a (s + 1) (Suc k) \<longrightarrow> safestrcpy_loop ?m (s + 1) (t + 1) k a = ?m a)"
    proof (rule Suc.IH)
      show "cstring ?m (t + 1) bs'" using b(3) ne by (simp add: cstring_upd_other)
      show "\<not> in_range (t + 1 + of_nat i) (s + 1) (Suc k)" if "i \<le> length bs'" for i
        using away [OF that] Suc.prems(2) in_range_Suc [of "Suc k"] by simp
    qed (use Suc.prems(2) in simp)
    then have IH: "cstring (safestrcpy_loop ?m (s + 1) (t + 1) k) (s + 1) (take k bs')"
      "\<And>a. \<not> in_range a (s + 1) (Suc k) \<Longrightarrow> safestrcpy_loop ?m (s + 1) (t + 1) k a = ?m a"
      by blast+
    have "safestrcpy_loop ?m (s + 1) (t + 1) k s = b"
      using IH(2) [of s] not_in_range_next [of "Suc k" s] Suc.prems(2) by simp
    with IH b Cons Suc.prems(2) show ?thesis
      using in_range_Suc [of "Suc k"] by (auto simp: cstring_Cons)
  qed
qed

lemma safestrcpy_spec:
  assumes "cstring m t bs" and "0 < n" and "n \<le> 4294967296"
    and "\<And>i. i \<le> length bs \<Longrightarrow> \<not> in_range (t + of_nat i) s (nat n)"
  shows "cstring (safestrcpy m s t n) s (take (nat (n - 1)) bs)"
    and "\<And>a. \<not> in_range a s (nat n) \<Longrightarrow> safestrcpy m s t n a = m a"
proof -
  have n: "Suc (nat (n - 1)) = nat n" using assms(2) by simp
  show "cstring (safestrcpy m s t n) s (take (nat (n - 1)) bs)"
    using safestrcpy_loop_spec [of m t bs "nat (n - 1)" s] assms n by (simp add: safestrcpy_def)
  show "safestrcpy m s t n a = m a" if "\<not> in_range a s (nat n)" for a
    using safestrcpy_loop_spec [of m t bs "nat (n - 1)" s] assms n that
    by (simp add: safestrcpy_def)
qed

text \<open>\<^verbatim>\<open>strncpy\<close> stores exactly \<open>n\<close> bytes: the string cut to \<open>n\<close> bytes, padded with zeros.\<close>

lemma strncpy_loop_spec:
  assumes "cstring m t bs" and "k \<le> 4294967296"
    and "\<And>i. i \<le> length bs \<Longrightarrow> \<not> in_range (t + of_nat i) s k"
  shows "(\<forall>i<k. strncpy_loop m s t k (s + of_nat i) = (if i < length bs then bs ! i else 0)) \<and>
    (\<forall>a. \<not> in_range a s k \<longrightarrow> strncpy_loop m s t k a = m a)"
  using assms
proof (induction k arbitrary: m s t bs)
  case 0
  then show ?case by simp
next
  case (Suc k)
  show ?case
  proof (cases bs)
    case Nil
    have eq: "strncpy_loop m s t (Suc k) = fill m s 0 (Suc k)"
      using Suc.prems(1,2) Nil fill_Suc [of k m s 0] stosb_fill [of k] by simp
    show ?thesis
      using Nil Suc.prems(2) in_range_offset [of "Suc k"] unfolding eq by (auto simp: fill_def)
  next
    case (Cons b bs')
    have b: "m t = b" "b \<noteq> 0" "cstring m (t + 1) bs'"
      using Suc.prems(1) Cons by (simp_all add: cstring_Cons)
    have away: "\<not> in_range (t + 1 + of_nat i) s (Suc k)" if "i \<le> length bs'" for i
      using Suc.prems(3) [of "Suc i"] that Cons by (simp add: algebra_simps)
    have ne: "t + 1 + of_nat i \<noteq> s" if "i \<le> length bs'" for i
      using away [OF that] by auto
    let ?m = "m(s := b)"
    have "(\<forall>i<k. strncpy_loop ?m (s + 1) (t + 1) k (s + 1 + of_nat i)
         = (if i < length bs' then bs' ! i else 0)) \<and>
      (\<forall>a. \<not> in_range a (s + 1) k \<longrightarrow> strncpy_loop ?m (s + 1) (t + 1) k a = ?m a)"
    proof (rule Suc.IH)
      show "cstring ?m (t + 1) bs'" using b(3) ne by (simp add: cstring_upd_other)
      show "\<not> in_range (t + 1 + of_nat i) (s + 1) k" if "i \<le> length bs'" for i
        using away [OF that] Suc.prems(2) in_range_Suc [of k] by simp
    qed (use Suc.prems(2) in simp)
    then have IH:
      "\<And>i. i < k \<Longrightarrow> strncpy_loop ?m (s + 1) (t + 1) k (s + 1 + of_nat i)
         = (if i < length bs' then bs' ! i else 0)"
      "\<And>a. \<not> in_range a (s + 1) k \<Longrightarrow> strncpy_loop ?m (s + 1) (t + 1) k a = ?m a"
      by blast+
    have loop: "strncpy_loop m s t (Suc k) = strncpy_loop ?m (s + 1) (t + 1) k"
      using b by simp
    have first: "strncpy_loop ?m (s + 1) (t + 1) k s = b"
      using IH(2) [of s] not_in_range_next [of k s] Suc.prems(2) by simp
    have "strncpy_loop m s t (Suc k) (s + of_nat i) = (if i < length bs then bs ! i else 0)"
      if "i < Suc k" for i
      using that first IH(1) [of "i - 1"] Cons unfolding loop by (cases i) (auto simp: algebra_simps)
    moreover have "strncpy_loop m s t (Suc k) a = m a" if "\<not> in_range a s (Suc k)" for a
      using that IH(2) [of a] in_range_Suc [of k a s] Suc.prems(2) unfolding loop by auto
    ultimately show ?thesis by blast
  qed
qed

section \<open>Main properties\<close>

text \<open>
  C30. \<^verbatim>\<open>memset\<close>, with its word-sized fast path for aligned blocks, sets exactly the \<^verbatim>\<open>n\<close> bytes from
  \<^verbatim>\<open>dst\<close> on to the low byte of \<^verbatim>\<open>c\<close>, for every destination, length and value.
\<close>

theorem memset_correct: "memset m dst c n = fill m dst (ucast c) (unat n)"
  by (rule memset_fill)

text \<open>
  C28. \<^verbatim>\<open>memmove\<close> copies the \<^verbatim>\<open>n\<close> bytes that were at \<^verbatim>\<open>src\<close> before the call, also when the two blocks
  overlap in either direction, and changes nothing else, as long as neither block runs
  past the end of the address space.
\<close>

theorem memmove_correct:
  assumes "unat src + unat n < 4294967296" and "unat dst + unat n \<le> 4294967296"
  shows "memmove m dst src n = copy m dst src (unat n)"
  using assms by (rule memmove_copy)

theorem memmove_correct_witness:
  "unat (10 :: uint32) + unat (4 :: uint32) < 4294967296 \<and>
   unat (12 :: uint32) + unat (4 :: uint32) \<le> 4294967296 \<and>
   memmove (\<lambda>a. ucast a) 12 10 4 = copy (\<lambda>a. ucast a) 12 10 4 \<and>
   memmove (\<lambda>a. ucast a) 12 10 4 15 = 13"
  using memmove_correct [of 10 4 12 "\<lambda>a. ucast a"] by (simp add: copy_def in_range_def)

text \<open>
  C29. \<^verbatim>\<open>safestrcpy\<close> always leaves a NUL-terminated string: the longest prefix of the source that
  fits into \<^verbatim>\<open>n - 1\<close> bytes; it writes no byte outside the \<^verbatim>\<open>n\<close> bytes of the destination.
\<close>

theorem safestrcpy_correct:
  assumes "cstring m t bs" and "0 < n" and "n \<le> 4294967296"
    and "\<forall>i\<le>length bs. \<not> in_range (t + of_nat i) s (nat n)"
  shows "cstring (safestrcpy m s t n) s (take (nat (n - 1)) bs) \<and>
    (\<forall>a. \<not> in_range a s (nat n) \<longrightarrow> safestrcpy m s t n a = m a)"
  using safestrcpy_spec [of m t bs n s] assms by blast

theorem safestrcpy_correct_witness:
  "cstring (safestrcpy ((\<lambda>a. 0)(100 := 65, 101 := 66)) 200 100 2) 200 [65]"
proof -
  let ?m = "(\<lambda>a. 0)(100 := 65, 101 := 66) :: memory"
  have "cstring ?m 100 [65, 66]" by (simp add: cstring_def All_less_Suc)
  moreover have "\<forall>i\<le>length [65, 66 :: uchar]. \<not> in_range (100 + of_nat i) 200 (nat 2)"
    by (simp add: in_range_def All_less_Suc2 flip: less_Suc_eq_le)
  ultimately show ?thesis
    using safestrcpy_correct [of ?m 100 "[65, 66]" 2 200] by simp
qed

end
