(* ===== verification/Exclusion.thy ===== *)
theory Exclusion
  imports Prelude
begin

text \<open>
  The interfaces that the concurrent components share. A component that runs on several
  CPUs or in several threads is a set of initial states and a step relation in which any
  thread may move next; \<open>reach\<close> are the states some interleaving leads to. The locale
  \<open>invariant_system\<close> is the contract of an inductive invariant, \<open>exclusion\<close> extends it with
  the contract of a lock: the invariant leaves room for one thread in the critical section.
  The spin lock, the user-level locks and the kernel mutexes are interpretations.
\<close>

inductive reach :: "('s \<Rightarrow> bool) \<Rightarrow> ('s \<Rightarrow> 's \<Rightarrow> bool) \<Rightarrow> 's \<Rightarrow> bool"
  for init step where
  reach_init: "init s \<Longrightarrow> reach init step s"
| reach_step: "reach init step s \<Longrightarrow> step s t \<Longrightarrow> reach init step t"

locale invariant_system =
  fixes init :: "'s \<Rightarrow> bool" and step :: "'s \<Rightarrow> 's \<Rightarrow> bool" and inv :: "'s \<Rightarrow> bool"
  assumes inv_init: "init s \<Longrightarrow> inv s"
    and inv_step: "inv s \<Longrightarrow> step s t \<Longrightarrow> inv t"
begin

lemma reach_inv: "reach init step s \<Longrightarrow> inv s"
  by (induction rule: reach.induct) (auto intro: inv_init inv_step)

lemma reach_pred: "(\<And>s. inv s \<Longrightarrow> P s) \<Longrightarrow> reach init step s \<Longrightarrow> P s"
  using reach_inv by blast

end

locale exclusion = invariant_system init step inv
  for init :: "'s \<Rightarrow> bool" and step :: "'s \<Rightarrow> 's \<Rightarrow> bool" and inv :: "'s \<Rightarrow> bool" +
  fixes critical :: "'s \<Rightarrow> 't \<Rightarrow> bool"
  assumes inv_exclusive: "inv s \<Longrightarrow> critical s i \<Longrightarrow> critical s j \<Longrightarrow> i = j"
begin

lemma mutual_exclusion: "reach init step s \<Longrightarrow> critical s i \<Longrightarrow> critical s j \<Longrightarrow> i = j"
  using reach_inv inv_exclusive by blast

lemma at_most_one: "reach init step s \<Longrightarrow> \<exists>\<^sub>\<le>\<^sub>1 i. critical s i"
  using mutual_exclusion by (auto simp: Uniq_def)

end

end
