(* ===== verification/Spinlock.thy ===== *)
theory Spinlock
  imports Mmu Exclusion
begin

text \<open>
  \<^verbatim>\<open>spinlock.c\<close> and what it uses of \<^verbatim>\<open>proc.c\<close> (\<^verbatim>\<open>mycpu\<close>, \<^verbatim>\<open>cpuid\<close>, \<^verbatim>\<open>myproc\<close>), \<^verbatim>\<open>lapic.c\<close>
  (\<^verbatim>\<open>lapicid\<close>) and \<^verbatim>\<open>x86.h\<close>. The state \<open>machine\<close> is the kernel as seen from the CPU that
  executes: memory, the interrupt flag of that CPU, the per-CPU structures and every spin
  lock by its place in the kernel's data. The later components extend this record with
  their own tables, so that all kernel code works on one state.

  The second half is the lock under contention: \<open>lock_step\<close> interleaves the instructions of
  \<^verbatim>\<open>acquire\<close> and \<^verbatim>\<open>release\<close> of any number of CPUs.
\<close>

section \<open>State\<close>

datatype sleepid = InodeLock nat | BufLock nat

datatype lockid =
    PtableLock | MtableLock | BarrierLock | KmemLock | FtableLock | IcacheLock | BcacheLock
  | LogLock | TicksLock | ConsLock | IdeLock | PipeLock uint32 | SleepLk sleepid

record spinlock =
  locked :: uint32
  lname :: string
  lcpu :: "nat option"
  pcs :: "uint32 list"

record cpu =
  apicid :: uchar
  ts_esp0 :: uint32
  ts_ss0 :: ushort
  ts_iomb :: ushort
  gdt :: "segdesc list"
  started :: uint32
  ncli :: int
  intena :: uint32
  cproc :: "nat option"

text \<open>
  \<open>lapic\<close> is the memory-mapped register file of the local APIC (indexed in 32-bit words),
  or \<open>None\<close> before \<^verbatim>\<open>mpinit\<close> has found it.
\<close>

record machine =
  mem :: memory
  eflags :: uint32
  ebp :: uint32
  lapic :: "(nat \<Rightarrow> uint32) option"
  cpus :: "cpu list"
  ncpu :: nat
  locks :: "lockid \<Rightarrow> spinlock"

section \<open>Operations\<close>

definition cli :: "'z machine_scheme \<Rightarrow> 'z machine_scheme" where
  "cli s = s\<lparr>eflags := eflags s AND NOT FL_IF\<rparr>"

definition sti :: "'z machine_scheme \<Rightarrow> 'z machine_scheme" where
  "sti s = s\<lparr>eflags := eflags s OR FL_IF\<rparr>"

text \<open>\<^verbatim>\<open>lapic[ID] >> 24\<close> with \<^verbatim>\<open>ID = 0x0020/4\<close>; 0 while there is no APIC.\<close>

definition lapicid :: "'z machine_scheme \<Rightarrow> uint32" where
  "lapicid s = (case lapic s of None \<Rightarrow> 0 | Some regs \<Rightarrow> drop_bit 24 (regs 8))"

definition cur_cpu :: "'z machine_scheme \<Rightarrow> nat option" where
  "cur_cpu s = first_index (\<lambda>c. ucast (apicid c) = lapicid s) (take (ncpu s) (cpus s))"

definition mycpu :: "(nat, 'z machine_scheme) kern" where
  "mycpu s =
     (if eflags s AND FL_IF \<noteq> 0 then Panic ''mycpu called with interrupts enabled\<newline>''
      else case cur_cpu s of Some i \<Rightarrow> Ret i s | None \<Rightarrow> Panic ''unknown apicid\<newline>'')"

definition cpuid :: "(nat, 'z machine_scheme) kern" where
  "cpuid = mycpu"

definition upd_cpu :: "nat \<Rightarrow> (cpu \<Rightarrow> cpu) \<Rightarrow> 'z machine_scheme \<Rightarrow> 'z machine_scheme" where
  "upd_cpu i f s = s\<lparr>cpus := (cpus s)[i := f (cpus s ! i)]\<rparr>"

definition pushcli :: "(unit, 'z machine_scheme) kern" where
  "pushcli s =
     (let e = eflags s
      in bindK mycpu
           (\<lambda>c. modifyK (upd_cpu c (\<lambda>k.
              (if ncli k = 0 then k\<lparr>intena := e AND FL_IF\<rparr> else k)\<lparr>ncli := ncli k + 1\<rparr>)))
           (cli s))"

definition popcli :: "(unit, 'z machine_scheme) kern" where
  "popcli s =
     (if eflags s AND FL_IF \<noteq> 0 then Panic ''popcli - interruptible''
      else bindK mycpu (\<lambda>c s.
        let s1 = upd_cpu c (\<lambda>k. k\<lparr>ncli := ncli k - 1\<rparr>) s; k = cpus s1 ! c
        in if ncli k < 0 then Panic ''popcli''
           else if ncli k = 0 \<and> intena k \<noteq> 0 then Ret () (sti s1)
           else Ret () s1) s)"

definition myproc :: "(nat option, 'z machine_scheme) kern" where
  "myproc =
     thenK pushcli
     (bindK mycpu (\<lambda>c.
      bindK (getsK (\<lambda>s. cproc (cpus s ! c))) (\<lambda>p.
      thenK popcli (retK p))))"

definition initlock :: "lockid \<Rightarrow> string \<Rightarrow> 'z machine_scheme \<Rightarrow> 'z machine_scheme" where
  "initlock lk name s =
     s\<lparr>locks := (locks s)(lk := (locks s lk)\<lparr>lname := name, locked := 0, lcpu := None\<rparr>)\<rparr>"

text \<open>
  Following the chain of saved frame pointers: at most 10 return addresses, then zeros.
\<close>

fun getcallerpcs_from :: "memory \<Rightarrow> uint32 \<Rightarrow> nat \<Rightarrow> uint32 list" where
  "getcallerpcs_from m fp 0 = []"
| "getcallerpcs_from m fp (Suc n) =
     (if fp = 0 \<or> fp < KERNBASE \<or> fp = 0xffffffff then replicate (Suc n) 0
      else load32 m (fp + 4) # getcallerpcs_from m (load32 m fp) n)"

definition getcallerpcs :: "memory \<Rightarrow> uint32 \<Rightarrow> uint32 list" where
  "getcallerpcs m v = getcallerpcs_from m (v - 8) 10"

definition holding :: "lockid \<Rightarrow> (bool, 'z machine_scheme) kern" where
  "holding lk =
     thenK pushcli
     (bindK mycpu (\<lambda>c.
      bindK (getsK (\<lambda>s. locked (locks s lk) \<noteq> 0 \<and> lcpu (locks s lk) = Some c)) (\<lambda>r.
      thenK popcli (retK r))))"

text \<open>\<^verbatim>\<open>xchg\<close> of \<^verbatim>\<open>x86.h\<close>: the old value, and the value the word holds afterwards.\<close>

definition xchg :: "uint32 \<Rightarrow> uint32 \<Rightarrow> uint32 \<times> uint32" where
  "xchg old newval = (old, newval)"

text \<open>
  \<^verbatim>\<open>while(xchg(&lk->locked, 1) != 0);\<close> on the executing CPU alone: it goes on at once when
  the word was 0, and it never ends when it was not, since the word stays 1.
\<close>

definition xchg_lock :: "lockid \<Rightarrow> (unit, 'z machine_scheme) kern" where
  "xchg_lock lk s =
     (let (old, new) = xchg (locked (locks s lk)) 1
      in if old \<noteq> 0 then Spin else Ret () (s\<lparr>locks := (locks s)(lk := (locks s lk)\<lparr>locked := new\<rparr>)\<rparr>))"

definition acquire :: "lockid \<Rightarrow> (unit, 'z machine_scheme) kern" where
  "acquire lk =
     thenK pushcli
     (bindK (holding lk) (\<lambda>h.
      if h then panicK ''acquire''
      else thenK (xchg_lock lk)
        (bindK mycpu (\<lambda>c.
         modifyK (\<lambda>s. s\<lparr>locks := (locks s)(lk := (locks s lk)
           \<lparr>lcpu := Some c, pcs := getcallerpcs (mem s) (ebp s + 8)\<rparr>)\<rparr>)))))"

definition release :: "lockid \<Rightarrow> (unit, 'z machine_scheme) kern" where
  "release lk =
     bindK (holding lk) (\<lambda>h.
     if \<not> h then panicK ''release''
     else thenK
       (modifyK (\<lambda>s. s\<lparr>locks := (locks s)(lk := (locks s lk)
          \<lparr>pcs := (pcs (locks s lk))[0 := 0], lcpu := None, locked := 0\<rparr>)\<rparr>))
       popcli)"

section \<open>The interrupt flag\<close>

lemma bit_FL_IF: "bit (512 :: int) n \<longleftrightarrow> n = 9"
proof -
  have "(512 :: int) = 2 ^ 9" by simp
  then show ?thesis by (simp only: bit_exp_iff) auto
qed

lemma bit_not_FL_IF: "bit (- 513 :: int) n \<longleftrightarrow> n \<noteq> 9"
proof -
  have "(- 513 :: int) = NOT 512" by simp
  then show ?thesis by (simp only: bit_not_iff_eq bit_FL_IF) auto
qed

lemma FL_IF_zero_iff: "(e :: uint32) AND 512 = 0 \<longleftrightarrow> \<not> bit e 9"
proof
  assume "e AND 512 = 0"
  then have "\<not> bit (e AND 512) 9" by simp
  then show "\<not> bit e 9" by (simp add: bit_and_iff bit_FL_IF)
qed (rule bit_word_eqI, auto simp: bit_and_iff bit_FL_IF)

lemma FL_IF_cleared [simp]: "(e AND - 513) AND 512 = (0 :: uint32)"
  by (simp add: FL_IF_zero_iff bit_and_iff bit_not_FL_IF)

lemma FL_IF_clear_noop: "(e :: uint32) AND 512 = 0 \<Longrightarrow> e AND - 513 = e"
  by (rule bit_word_eqI) (auto simp: FL_IF_zero_iff bit_and_iff bit_not_FL_IF)

lemma FL_IF_restore: "(e :: uint32) AND 512 \<noteq> 0 \<Longrightarrow> (e AND - 513) OR 512 = e"
  by (rule bit_word_eqI) (auto simp: FL_IF_zero_iff bit_or_iff bit_and_iff bit_not_FL_IF bit_FL_IF)

section \<open>Nesting of interrupt disabling\<close>

text \<open>
  \<open>cpu_ok c s\<close>: the executing CPU is \<open>cpus[c]\<close>, its nesting depth is not negative, and
  interrupts are off while the depth is positive. \<open>pushed\<close>, \<open>popped\<close> and \<open>touch\<close> are the states
  after \<^verbatim>\<open>pushcli\<close>, after \<^verbatim>\<open>popcli\<close> and after a matched pair of them.
\<close>

definition cpu_ok :: "nat \<Rightarrow> 'z machine_scheme \<Rightarrow> bool" where
  "cpu_ok c s \<longleftrightarrow> cur_cpu s = Some c \<and> 0 \<le> ncli (cpus s ! c) \<and>
     (0 < ncli (cpus s ! c) \<longrightarrow> eflags s AND FL_IF = 0)"

definition push_cpu :: "uint32 \<Rightarrow> cpu \<Rightarrow> cpu" where
  "push_cpu e k = (if ncli k = 0 then k\<lparr>intena := e AND FL_IF\<rparr> else k)\<lparr>ncli := ncli k + 1\<rparr>"

definition touch_cpu :: "uint32 \<Rightarrow> cpu \<Rightarrow> cpu" where
  "touch_cpu e k = (if ncli k = 0 then k\<lparr>intena := e AND FL_IF\<rparr> else k)"

definition pushed :: "nat \<Rightarrow> 'z machine_scheme \<Rightarrow> 'z machine_scheme" where
  "pushed c s = upd_cpu c (push_cpu (eflags s)) (cli s)"

definition popped :: "nat \<Rightarrow> 'z machine_scheme \<Rightarrow> 'z machine_scheme" where
  "popped c s =
     (let s1 = upd_cpu c (\<lambda>k. k\<lparr>ncli := ncli k - 1\<rparr>) s
      in if ncli (cpus s ! c) = 1 \<and> intena (cpus s ! c) \<noteq> 0 then sti s1 else s1)"

definition touch :: "nat \<Rightarrow> 'z machine_scheme \<Rightarrow> 'z machine_scheme" where
  "touch c s = upd_cpu c (touch_cpu (eflags s)) s"

definition took :: "nat \<Rightarrow> lockid \<Rightarrow> 'z machine_scheme \<Rightarrow> 'z machine_scheme" where
  "took c L s = (pushed c s)\<lparr>locks := (locks s)(L := (locks s L)
     \<lparr>locked := 1, lcpu := Some c, pcs := getcallerpcs (mem s) (ebp s + 8)\<rparr>)\<rparr>"

definition owns :: "nat \<Rightarrow> lockid \<Rightarrow> 'z machine_scheme \<Rightarrow> bool" where
  "owns c L s \<longleftrightarrow> cur_cpu s = Some c \<and> 0 < ncli (cpus s ! c) \<and> eflags s AND FL_IF = 0 \<and>
     locked (locks s L) \<noteq> 0 \<and> lcpu (locks s L) = Some c"

definition freed :: "spinlock \<Rightarrow> spinlock" where
  "freed l = l\<lparr>pcs := (pcs l)[0 := 0], lcpu := None, locked := 0\<rparr>"

definition dropped :: "nat \<Rightarrow> lockid \<Rightarrow> 'z machine_scheme \<Rightarrow> 'z machine_scheme" where
  "dropped c L s = popped c (s\<lparr>locks := (locks s)(L := freed (locks s L))\<rparr>)"

lemma cur_cpu_alt:
  "cur_cpu s = first_index (\<lambda>a. ucast a = lapicid s) (map apicid (take (ncpu s) (cpus s)))"
  by (simp add: cur_cpu_def first_index_map comp_def)

lemma cur_cpu_bound: "cur_cpu s = Some c \<Longrightarrow> c < length (cpus s)"
  by (auto simp: cur_cpu_def dest: first_index_SomeD)

lemma cur_cpu_cong:
  "lapic t = lapic s \<Longrightarrow> ncpu t = ncpu s \<Longrightarrow> map apicid (cpus t) = map apicid (cpus s) \<Longrightarrow>
   cur_cpu t = cur_cpu s"
  by (simp add: cur_cpu_alt lapicid_def take_map [symmetric])

lemma map_apicid_upd:
  "apicid (f (xs ! c)) = apicid (xs ! c) \<Longrightarrow> map apicid (xs[c := f (xs ! c)]) = map apicid xs"
  by (cases "c < length xs") (simp_all add: map_update list_update_same_conv list_update_beyond)

lemma upd_cpu_sel [simp]:
  "mem (upd_cpu c f s) = mem s" "eflags (upd_cpu c f s) = eflags s" "ebp (upd_cpu c f s) = ebp s"
  "lapic (upd_cpu c f s) = lapic s" "ncpu (upd_cpu c f s) = ncpu s"
  "locks (upd_cpu c f s) = locks s" "cpus (upd_cpu c f s) = (cpus s)[c := f (cpus s ! c)]"
  "machine.more (upd_cpu c f s) = machine.more s"
  by (simp_all add: upd_cpu_def)

lemma cli_sel [simp]:
  "mem (cli s) = mem s" "eflags (cli s) = eflags s AND - 513" "ebp (cli s) = ebp s"
  "lapic (cli s) = lapic s" "ncpu (cli s) = ncpu s" "locks (cli s) = locks s"
  "cpus (cli s) = cpus s" "machine.more (cli s) = machine.more s"
  by (simp_all add: cli_def)

lemma sti_sel [simp]:
  "mem (sti s) = mem s" "eflags (sti s) = eflags s OR 512" "ebp (sti s) = ebp s"
  "lapic (sti s) = lapic s" "ncpu (sti s) = ncpu s" "locks (sti s) = locks s"
  "cpus (sti s) = cpus s" "machine.more (sti s) = machine.more s"
  by (simp_all add: sti_def)

lemma push_cpu_sel [simp]:
  "apicid (push_cpu e k) = apicid k" "ncli (push_cpu e k) = ncli k + 1"
  "cproc (push_cpu e k) = cproc k"
  by (simp_all add: push_cpu_def)

lemma touch_cpu_sel [simp]:
  "apicid (touch_cpu e k) = apicid k" "ncli (touch_cpu e k) = ncli k"
  "cproc (touch_cpu e k) = cproc k"
  by (simp_all add: touch_cpu_def)

lemma touch_cpu_busy: "ncli k \<noteq> 0 \<Longrightarrow> touch_cpu e k = k"
  by (simp add: touch_cpu_def)

lemma pushed_sel [simp]:
  "mem (pushed c s) = mem s" "eflags (pushed c s) = eflags s AND - 513" "ebp (pushed c s) = ebp s"
  "lapic (pushed c s) = lapic s" "ncpu (pushed c s) = ncpu s" "locks (pushed c s) = locks s"
  "cpus (pushed c s) = (cpus s)[c := push_cpu (eflags s) (cpus s ! c)]"
  "machine.more (pushed c s) = machine.more s"
  by (simp_all add: pushed_def)

lemma touch_sel [simp]:
  "mem (touch c s) = mem s" "eflags (touch c s) = eflags s" "ebp (touch c s) = ebp s"
  "lapic (touch c s) = lapic s" "ncpu (touch c s) = ncpu s" "locks (touch c s) = locks s"
  "cpus (touch c s) = (cpus s)[c := touch_cpu (eflags s) (cpus s ! c)]"
  "machine.more (touch c s) = machine.more s"
  by (simp_all add: touch_def)

lemma popped_sel [simp]:
  "mem (popped c s) = mem s" "ebp (popped c s) = ebp s" "lapic (popped c s) = lapic s"
  "ncpu (popped c s) = ncpu s" "locks (popped c s) = locks s"
  "cpus (popped c s) = (cpus s)[c := (cpus s ! c)\<lparr>ncli := ncli (cpus s ! c) - 1\<rparr>]"
  "machine.more (popped c s) = machine.more s"
  by (simp_all add: popped_def Let_def)

lemma took_sel [simp]:
  "mem (took c L s) = mem s" "eflags (took c L s) = eflags s AND - 513" "ebp (took c L s) = ebp s"
  "lapic (took c L s) = lapic s" "ncpu (took c L s) = ncpu s"
  "cpus (took c L s) = (cpus s)[c := push_cpu (eflags s) (cpus s ! c)]"
  "locks (took c L s) = (locks s)(L := (locks s L)
     \<lparr>locked := 1, lcpu := Some c, pcs := getcallerpcs (mem s) (ebp s + 8)\<rparr>)"
  "machine.more (took c L s) = machine.more s"
  by (simp_all add: took_def)

lemma dropped_sel [simp]:
  "mem (dropped c L s) = mem s" "ebp (dropped c L s) = ebp s" "lapic (dropped c L s) = lapic s"
  "ncpu (dropped c L s) = ncpu s" "locks (dropped c L s) = (locks s)(L := freed (locks s L))"
  "cpus (dropped c L s) = (cpus s)[c := (cpus s ! c)\<lparr>ncli := ncli (cpus s ! c) - 1\<rparr>]"
  "machine.more (dropped c L s) = machine.more s"
  by (simp_all add: dropped_def)

lemma freed_sel [simp]: "locked (freed l) = 0" "lcpu (freed l) = None" "lname (freed l) = lname l"
  by (simp_all add: freed_def)

lemma cur_cpu_pushed [simp]: "cur_cpu (pushed c s) = cur_cpu s"
  by (rule cur_cpu_cong) (simp_all add: map_apicid_upd [of "push_cpu (eflags s)"])

lemma cur_cpu_touch [simp]: "cur_cpu (touch c s) = cur_cpu s"
  by (rule cur_cpu_cong) (simp_all add: map_apicid_upd [of "touch_cpu (eflags s)"])

lemma cur_cpu_took [simp]: "cur_cpu (took c L s) = cur_cpu s"
  by (rule cur_cpu_cong) (simp_all add: map_apicid_upd [of "push_cpu (eflags s)"])

lemma cur_cpu_popped [simp]: "cur_cpu (popped c s) = cur_cpu s"
  by (rule cur_cpu_cong) (simp_all add: map_apicid_upd [of "\<lambda>k. k\<lparr>ncli := ncli k - 1\<rparr>"])

lemma cur_cpu_dropped [simp]: "cur_cpu (dropped c L s) = cur_cpu s"
  by (rule cur_cpu_cong) (simp_all add: map_apicid_upd [of "\<lambda>k. k\<lparr>ncli := ncli k - 1\<rparr>"])

lemma cur_cpu_cli [simp]: "cur_cpu (cli s) = cur_cpu s"
  by (rule cur_cpu_cong) simp_all

lemma mycpu_eq: "cur_cpu s = Some c \<Longrightarrow> eflags s AND FL_IF = 0 \<Longrightarrow> mycpu s = Ret c s"
  by (simp add: mycpu_def)

lemma pushcli_eq: "cur_cpu s = Some c \<Longrightarrow> pushcli s = Ret () (pushed c s)"
  by (simp add: pushcli_def Let_def bindK_def mycpu_eq pushed_def push_cpu_def)

lemma popcli_eq:
  assumes "cur_cpu s = Some c" and "eflags s AND FL_IF = 0" and "0 < ncli (cpus s ! c)"
  shows "popcli s = Ret () (popped c s)"
  using assms cur_cpu_bound [OF assms(1)]
  by (auto simp: popcli_def bindK_def mycpu_eq popped_def Let_def)

lemma ncli_upd_same: "ncli k = n \<Longrightarrow> k\<lparr>intena := x, ncli := n\<rparr> = k\<lparr>intena := x\<rparr>"
  by (cases k) simp

lemma popped_pushed:
  assumes "cpu_ok c s"
  shows "popped c (pushed c s) = touch c s"
proof -
  have c: "c < length (cpus s)" using assms by (auto simp: cpu_ok_def dest: cur_cpu_bound)
  show ?thesis
  proof (cases "ncli (cpus s ! c) = 0")
    case True
    with c show ?thesis
      by (auto simp: popped_def pushed_def touch_def upd_cpu_def cli_def sti_def push_cpu_def
          touch_cpu_def Let_def ncli_upd_same FL_IF_clear_noop FL_IF_restore)
  next
    case False
    with assms c show ?thesis
      by (auto simp: cpu_ok_def popped_def pushed_def touch_def upd_cpu_def cli_def push_cpu_def
          touch_cpu_def FL_IF_clear_noop)
  qed
qed

lemma popcli_pushed:
  assumes "cpu_ok c s"
  shows "popcli (pushed c s) = Ret () (touch c s)"
proof -
  have "cur_cpu s = Some c" "c < length (cpus s)" "0 \<le> ncli (cpus s ! c)"
    using assms by (auto simp: cpu_ok_def dest: cur_cpu_bound)
  then show ?thesis
    using popcli_eq [of "pushed c s" c] by (simp add: popped_pushed [OF assms])
qed

lemma touch_pushed: "cpu_ok c s \<Longrightarrow> touch c (pushed c s) = pushed c s"
proof -
  assume ok: "cpu_ok c s"
  then have "c < length (cpus s)" and "0 \<le> ncli (cpus s ! c)"
    by (auto simp: cpu_ok_def dest: cur_cpu_bound)
  then show ?thesis
    by (simp add: touch_def upd_cpu_def touch_cpu_busy pushed_def cli_def)
qed

lemma cpu_ok_pushed: "cpu_ok c s \<Longrightarrow> cpu_ok c (pushed c s)"
  by (auto simp: cpu_ok_def dest: cur_cpu_bound)

lemma cpu_ok_touch: "cpu_ok c s \<Longrightarrow> cpu_ok c (touch c s)"
  by (auto simp: cpu_ok_def dest: cur_cpu_bound)

lemma myproc_eq:
  assumes "cpu_ok c s"
  shows "myproc s = Ret (cproc (cpus s ! c)) (touch c s)"
proof -
  have c: "cur_cpu s = Some c" "c < length (cpus s)" "0 \<le> ncli (cpus s ! c)"
    using assms by (auto simp: cpu_ok_def dest: cur_cpu_bound)
  have "mycpu (pushed c s) = Ret c (pushed c s)" using c by (simp add: mycpu_eq)
  then show ?thesis
    using c popcli_pushed [OF assms] by (simp add: myproc_def thenK_def bindK_def pushcli_eq)
qed

lemma holding_eq:
  assumes "cpu_ok c s"
  shows "holding L s = Ret (locked (locks s L) \<noteq> 0 \<and> lcpu (locks s L) = Some c) (touch c s)"
proof -
  have c: "cur_cpu s = Some c" "c < length (cpus s)" "0 \<le> ncli (cpus s ! c)"
    using assms by (auto simp: cpu_ok_def dest: cur_cpu_bound)
  have "mycpu (pushed c s) = Ret c (pushed c s)" using c by (simp add: mycpu_eq)
  then show ?thesis
    using c popcli_pushed [OF assms] by (simp add: holding_def thenK_def bindK_def pushcli_eq)
qed

section \<open>acquire and release on one CPU\<close>

lemma acquire_free:
  assumes "cpu_ok c s" and "locked (locks s L) = 0"
  shows "acquire L s = Ret () (took c L s)"
proof -
  have c: "cur_cpu s = Some c" using assms(1) by (simp add: cpu_ok_def)
  have "holding L (pushed c s) = Ret False (pushed c s)"
    using assms holding_eq [OF cpu_ok_pushed [OF assms(1)], of L] by (simp add: touch_pushed)
  then show ?thesis
    using assms(2) c
    by (simp add: acquire_def thenK_def bindK_def pushcli_eq xchg_lock_def xchg_def mycpu_def
        cur_cpu_cong [of _ "pushed c s"] took_def)
qed

lemma acquire_again:
  assumes "cpu_ok c s" and "locked (locks s L) \<noteq> 0" and "lcpu (locks s L) = Some c"
  shows "acquire L s = Panic ''acquire''"
proof -
  have c: "cur_cpu s = Some c" using assms(1) by (simp add: cpu_ok_def)
  have "holding L (pushed c s) = Ret True (pushed c s)"
    using assms holding_eq [OF cpu_ok_pushed [OF assms(1)], of L] by (simp add: touch_pushed)
  then show ?thesis using c by (simp add: acquire_def thenK_def bindK_def pushcli_eq)
qed

lemma acquire_busy:
  assumes "cpu_ok c s" and "locked (locks s L) \<noteq> 0" and "lcpu (locks s L) \<noteq> Some c"
  shows "acquire L s = Spin"
proof -
  have c: "cur_cpu s = Some c" using assms(1) by (simp add: cpu_ok_def)
  have "holding L (pushed c s) = Ret False (pushed c s)"
    using assms holding_eq [OF cpu_ok_pushed [OF assms(1)], of L] by (simp add: touch_pushed)
  then show ?thesis
    using assms(2) c by (simp add: acquire_def thenK_def bindK_def pushcli_eq xchg_lock_def xchg_def)
qed

lemma touch_owned: "owns c L s \<Longrightarrow> touch c s = s"
  by (simp add: owns_def touch_def upd_cpu_def touch_cpu_busy)

lemma owns_cpu_ok: "owns c L s \<Longrightarrow> cpu_ok c s"
  by (simp add: owns_def cpu_ok_def)

lemma release_owned:
  assumes "owns c L s"
  shows "release L s = Ret () (dropped c L s)"
proof -
  let ?t = "s\<lparr>locks := (locks s)(L := freed (locks s L))\<rparr>"
  have "holding L s = Ret True s"
    using holding_eq [OF owns_cpu_ok [OF assms], of L] assms touch_owned [OF assms]
    by (simp add: owns_def)
  moreover have "cur_cpu ?t = cur_cpu s" by (rule cur_cpu_cong) simp_all
  then have "popcli ?t = Ret () (popped c ?t)"
    using assms by (intro popcli_eq) (simp_all add: owns_def)
  ultimately show ?thesis
    by (simp add: release_def bindK_def thenK_def dropped_def freed_def)
qed

lemma release_not_owned:
  assumes "cpu_ok c s" and "\<not> (locked (locks s L) \<noteq> 0 \<and> lcpu (locks s L) = Some c)"
  shows "release L s = Panic ''release''"
  using holding_eq [OF assms(1), of L] assms(2) by (simp add: release_def bindK_def)

lemma owns_took: "cpu_ok c s \<Longrightarrow> owns c L (took c L s)"
  by (auto simp: owns_def cpu_ok_def dest: cur_cpu_bound)

text \<open>
  \<open>same_cpu c s t\<close>: between \<open>s\<close> and \<open>t\<close> every lock that was taken has been given back. The
  interrupt flag, the nesting depths and the owners of all locks are the same; only the
  saved flag of CPU \<open>c\<close> may differ, and only while it is not in use. Code inside a critical
  section that keeps it can be reasoned about as if there were no lock: \<open>critical_section\<close>.
\<close>

definition same_cpu :: "nat \<Rightarrow> 'z machine_scheme \<Rightarrow> 'z machine_scheme \<Rightarrow> bool" where
  "same_cpu c s t \<longleftrightarrow> lapic t = lapic s \<and> ncpu t = ncpu s \<and> eflags t = eflags s \<and> ebp t = ebp s \<and>
     (\<exists>x. cpus t = (cpus s)[c := (cpus s ! c)\<lparr>intena := x\<rparr>] \<and>
        (ncli (cpus s ! c) = 0 \<or> x = intena (cpus s ! c))) \<and>
     (\<forall>L. locked (locks t L) = locked (locks s L) \<and> lcpu (locks t L) = lcpu (locks s L))"

definition lock_free :: "lockid \<Rightarrow> 'z machine_scheme \<Rightarrow> bool" where
  "lock_free L s \<longleftrightarrow> locked (locks s L) = 0 \<and> lcpu (locks s L) = None"

lemma intena_same [simp]: "k\<lparr>intena := intena k\<rparr> = k"
  by (cases k) simp

lemma same_cpu_refl [simp, intro]: "same_cpu c s s"
  by (auto simp: same_cpu_def intro!: exI [of _ "intena (cpus s ! c)"])

lemma same_cpuI:
  "lapic t = lapic s \<Longrightarrow> ncpu t = ncpu s \<Longrightarrow> eflags t = eflags s \<Longrightarrow> ebp t = ebp s \<Longrightarrow>
   cpus t = cpus s \<Longrightarrow> locks t = locks s \<Longrightarrow> same_cpu c s t"
  by (auto simp: same_cpu_def intro!: exI [of _ "intena (cpus s ! c)"])

lemma same_cpu_mem [simp]: "same_cpu c s (s\<lparr>mem := m\<rparr>)"
  by (rule same_cpuI) simp_all

lemma same_cpu_nth:
  assumes "same_cpu c s t"
  shows "length (cpus t) = length (cpus s)" "map apicid (cpus t) = map apicid (cpus s)"
    "ncli (cpus t ! c) = ncli (cpus s ! c)" "cproc (cpus t ! c) = cproc (cpus s ! c)"
    "i \<noteq> c \<Longrightarrow> cpus t ! i = cpus s ! i" "0 < ncli (cpus s ! c) \<Longrightarrow> cpus t = cpus s"
proof -
  obtain x where x: "cpus t = (cpus s)[c := (cpus s ! c)\<lparr>intena := x\<rparr>]"
    "ncli (cpus s ! c) = 0 \<or> x = intena (cpus s ! c)"
    using assms by (auto simp: same_cpu_def)
  show "length (cpus t) = length (cpus s)" using x by simp
  show "map apicid (cpus t) = map apicid (cpus s)"
    using x map_apicid_upd [of "\<lambda>k. k\<lparr>intena := x\<rparr>"] by simp
  show "ncli (cpus t ! c) = ncli (cpus s ! c)" "cproc (cpus t ! c) = cproc (cpus s ! c)"
    using x by (cases "c < length (cpus s)"; simp add: list_update_beyond)+
  show "i \<noteq> c \<Longrightarrow> cpus t ! i = cpus s ! i" using x by simp
  show "0 < ncli (cpus s ! c) \<Longrightarrow> cpus t = cpus s" using x by auto
qed

lemma same_cpu_trans: "same_cpu c s t \<Longrightarrow> same_cpu c t u \<Longrightarrow> same_cpu c s u"
proof -
  assume st: "same_cpu c s t" and tu: "same_cpu c t u"
  obtain x where x: "cpus t = (cpus s)[c := (cpus s ! c)\<lparr>intena := x\<rparr>]"
    "ncli (cpus s ! c) = 0 \<or> x = intena (cpus s ! c)"
    using st by (auto simp: same_cpu_def)
  obtain y where y: "cpus u = (cpus t)[c := (cpus t ! c)\<lparr>intena := y\<rparr>]"
    "ncli (cpus t ! c) = 0 \<or> y = intena (cpus t ! c)"
    using tu by (auto simp: same_cpu_def)
  have "cpus u = (cpus s)[c := (cpus s ! c)\<lparr>intena := y\<rparr>] \<and>
      (ncli (cpus s ! c) = 0 \<or> y = intena (cpus s ! c))"
    using x y by (cases "c < length (cpus s)") (auto simp: list_update_beyond)
  then show ?thesis using st tu by (auto simp: same_cpu_def)
qed

lemma cur_cpu_same_cpu: "same_cpu c s t \<Longrightarrow> cur_cpu t = cur_cpu s"
  using same_cpu_nth(2) [of c s t] by (intro cur_cpu_cong) (simp_all add: same_cpu_def)

lemma cpu_ok_same_cpu: "same_cpu c s t \<Longrightarrow> cpu_ok c s \<Longrightarrow> cpu_ok c t"
  using cur_cpu_same_cpu [of c s t] same_cpu_nth(3) [of c s t]
  by (auto simp: cpu_ok_def same_cpu_def)

lemma owns_same_cpu: "same_cpu c s t \<Longrightarrow> owns c L s \<Longrightarrow> owns c L t"
  using cur_cpu_same_cpu [of c s t] same_cpu_nth(3) [of c s t] by (auto simp: owns_def same_cpu_def)

lemma lock_free_same_cpu: "same_cpu c s t \<Longrightarrow> lock_free L t = lock_free L s"
  by (simp add: lock_free_def same_cpu_def)

lemma cpu_ok_mem [simp]: "cpu_ok c (s\<lparr>mem := m\<rparr>) = cpu_ok c s"
  using cur_cpu_cong [of "s\<lparr>mem := m\<rparr>" s] by (simp add: cpu_ok_def)

lemma lock_free_mem [simp]: "lock_free L (s\<lparr>mem := m\<rparr>) = lock_free L s"
  by (simp add: lock_free_def)

lemma lock_free_took: "L \<noteq> K \<Longrightarrow> lock_free K (took c L s) = lock_free K s"
  by (simp add: lock_free_def)

lemma cpu_ok_took: "cpu_ok c s \<Longrightarrow> cpu_ok c (took c L s)"
  by (auto simp: cpu_ok_def dest: cur_cpu_bound)

lemma same_cpu_touch: "same_cpu c s (touch c s)"
  by (auto simp: same_cpu_def touch_cpu_def intro: exI [of _ "intena (cpus s ! c)"])

lemma same_cpu_dropped:
  assumes "cpu_ok c s" and "lock_free L s" and "same_cpu c (took c L s) t"
  shows "same_cpu c s (dropped c L t)"
proof -
  have c: "c < length (cpus s)" "0 \<le> ncli (cpus s ! c)"
    using assms(1) by (auto simp: cpu_ok_def dest: cur_cpu_bound)
  then have cp: "cpus t = cpus (took c L s)" using same_cpu_nth(6) [OF assms(3)] by simp
  have "eflags (dropped c L t) = eflags (popped c t)"
    by (simp add: dropped_def popped_def Let_def)
  also have "\<dots> = eflags (popped c (pushed c s))"
    using assms(3) cp by (simp add: same_cpu_def popped_def Let_def)
  finally have ef: "eflags (dropped c L t) = eflags s"
    by (simp add: popped_pushed [OF assms(1)])
  have "cpus (dropped c L t) = cpus (popped c (pushed c s))" using cp by simp
  then have "cpus (dropped c L t) = cpus (touch c s)"
    by (simp only: popped_pushed [OF assms(1)])
  then show ?thesis
    using assms(2,3) ef same_cpu_touch [of c s]
    by (auto simp: same_cpu_def lock_free_def)
qed

lemma critical_section:
  assumes "cpu_ok c s" and "lock_free L s"
    and "body (took c L s) = Ret x t" and "same_cpu c (took c L s) t"
  shows "thenK (acquire L) (bindK body (\<lambda>x. thenK (release L) (retK x))) s
    = Ret x (dropped c L t)"
proof -
  have "owns c L t" using assms(4) owns_took [OF assms(1)] by (rule owns_same_cpu)
  then show ?thesis
    using acquire_free [OF assms(1), of L] release_owned [of c L t] assms(2,3)
    by (simp add: lock_free_def thenK_def bindK_def)
qed

section \<open>What locking leaves alone\<close>

text \<open>Memory and the tables of the later components, in every outcome.\<close>

definition sees_only :: "('z machine_scheme \<Rightarrow> bool) \<Rightarrow> bool" where
  "sees_only I \<longleftrightarrow> (\<forall>s t. mem t = mem s \<longrightarrow> machine.more t = machine.more s \<longrightarrow> I s \<longrightarrow> I t)"

lemma sees_only_eq:
  assumes "sees_only I"
  shows "I (s\<lparr>locks := l\<rparr>) = I s" "I (upd_cpu c f s) = I s" "I (cli s) = I s" "I (sti s) = I s"
proof -
  have eq: "I t = I s" if "mem t = mem s" "machine.more t = machine.more s" for t
    using assms that unfolding sees_only_def by metis
  show "I (s\<lparr>locks := l\<rparr>) = I s" "I (upd_cpu c f s) = I s" "I (cli s) = I s" "I (sti s) = I s"
    by (rule eq; simp)+
qed

lemma preservesK_mycpu [keep_intros]: "preservesK I mycpu"
  by (auto simp: preservesK_def mycpu_def okK_def split: option.splits)

lemma preservesK_pushcli: "sees_only I \<Longrightarrow> preservesK I pushcli"
proof -
  assume so: "sees_only I"
  show ?thesis
    by (auto simp: preservesK_def pushcli_def Let_def bindK_def mycpu_def sees_only_eq [OF so]
        split: outcome.splits option.splits)
qed

lemma preservesK_popcli: "sees_only I \<Longrightarrow> preservesK I popcli"
proof -
  assume so: "sees_only I"
  show ?thesis
    by (auto simp: preservesK_def popcli_def Let_def bindK_def mycpu_def sees_only_eq [OF so]
        split: option.splits)
qed

lemma preservesK_myproc: "sees_only I \<Longrightarrow> preservesK I myproc"
  unfolding myproc_def by (intro keep_intros preservesK_pushcli preservesK_popcli)

lemma preservesK_holding: "sees_only I \<Longrightarrow> preservesK I (holding L)"
  unfolding holding_def by (intro keep_intros preservesK_pushcli preservesK_popcli)

lemma preservesK_acquire: "sees_only I \<Longrightarrow> preservesK I (acquire L)"
proof -
  assume so: "sees_only I"
  have "preservesK I (xchg_lock L)"
    by (simp add: preservesK_def xchg_lock_def xchg_def sees_only_eq [OF so])
  then show ?thesis
    unfolding acquire_def
    by (intro keep_intros preservesK_pushcli preservesK_holding so) (simp_all add: sees_only_eq [OF so])
qed

lemma preservesK_release: "sees_only I \<Longrightarrow> preservesK I (release L)"
proof -
  assume so: "sees_only I"
  show ?thesis
    unfolding release_def
    by (intro keep_intros preservesK_popcli preservesK_holding so) (simp add: sees_only_eq [OF so])
qed

lemmas keep_locking [keep_intros] = preservesK_pushcli preservesK_popcli preservesK_myproc
  preservesK_holding preservesK_acquire preservesK_release

text \<open>None of them gives up the CPU.\<close>

lemma nonblock_mycpu [nonblock_intros]: "nonblockK mycpu"
  by (simp add: nonblockK_def mycpu_def split: option.split)

lemma nonblock_cli [nonblock_intros]: "nonblockK pushcli" "nonblockK popcli"
  by (auto simp: nonblockK_def pushcli_def popcli_def Let_def bindK_def mycpu_def
      split: outcome.splits option.splits)

lemma nonblock_xchg [nonblock_intros]: "nonblockK (xchg_lock L)"
  by (simp add: nonblockK_def xchg_lock_def xchg_def)

lemma nonblock_holding [nonblock_intros]: "nonblockK (holding L)" "nonblockK myproc"
  unfolding holding_def myproc_def by (intro nonblock_intros)+

lemma nonblock_lock [nonblock_intros]: "nonblockK (acquire L)" "nonblockK (release L)"
  unfolding acquire_def release_def by (intro nonblock_intros)+

section \<open>The lock under contention\<close>

text \<open>
  One lock and any number of CPUs, each at a point of its \<^verbatim>\<open>acquire\<close>/\<^verbatim>\<open>release\<close> cycle. A step is one
  atomic action of one CPU: the test of \<^verbatim>\<open>holding\<close>, one round of the \<^verbatim>\<open>xchg\<close> loop, recording
  the owner, erasing the owner, and the final store of 0. The two \<open>Panicked\<close> rules are the
  panics of the code.
\<close>

datatype lock_pc = Idle | Spinning | Acquired | Critical | Releasing | Panicked

record lock_sys =
  slock :: spinlock
  at_pc :: "nat \<Rightarrow> lock_pc"

definition holds :: "nat \<Rightarrow> spinlock \<Rightarrow> bool" where
  "holds i l \<longleftrightarrow> locked l \<noteq> 0 \<and> lcpu l = Some i"

inductive lock_step :: "lock_sys \<Rightarrow> lock_sys \<Rightarrow> bool" where
  enter: "at_pc s i = Idle \<Longrightarrow> \<not> holds i (slock s) \<Longrightarrow>
    lock_step s (s\<lparr>at_pc := (at_pc s)(i := Spinning)\<rparr>)"
| enter_panic: "at_pc s i = Idle \<Longrightarrow> holds i (slock s) \<Longrightarrow>
    lock_step s (s\<lparr>at_pc := (at_pc s)(i := Panicked)\<rparr>)"
| exchange: "at_pc s i = Spinning \<Longrightarrow> xchg (locked (slock s)) 1 = (old, new) \<Longrightarrow>
    lock_step s (s\<lparr>slock := (slock s)\<lparr>locked := new\<rparr>,
      at_pc := (at_pc s)(i := if old \<noteq> 0 then Spinning else Acquired)\<rparr>)"
| record_owner: "at_pc s i = Acquired \<Longrightarrow>
    lock_step s (s\<lparr>slock := (slock s)\<lparr>lcpu := Some i\<rparr>, at_pc := (at_pc s)(i := Critical)\<rparr>)"
| erase_owner: "at_pc s i = Critical \<Longrightarrow> holds i (slock s) \<Longrightarrow>
    lock_step s (s\<lparr>slock := (slock s)\<lparr>lcpu := None\<rparr>, at_pc := (at_pc s)(i := Releasing)\<rparr>)"
| leave_panic: "at_pc s i = Critical \<Longrightarrow> \<not> holds i (slock s) \<Longrightarrow>
    lock_step s (s\<lparr>at_pc := (at_pc s)(i := Panicked)\<rparr>)"
| unlock: "at_pc s i = Releasing \<Longrightarrow>
    lock_step s (s\<lparr>slock := (slock s)\<lparr>locked := 0\<rparr>, at_pc := (at_pc s)(i := Idle)\<rparr>)"

definition lock_start :: "lock_sys \<Rightarrow> bool" where
  "lock_start s \<longleftrightarrow> locked (slock s) = 0 \<and> lcpu (slock s) = None \<and> (\<forall>i. at_pc s i = Idle)"

definition owning :: "lock_sys \<Rightarrow> nat \<Rightarrow> bool" where
  "owning s i \<longleftrightarrow> at_pc s i \<in> {Acquired, Critical, Releasing}"

text \<open>The invariant, with the CPU that owns the lock word (if any) made explicit.\<close>

definition lock_owner :: "nat option \<Rightarrow> lock_sys \<Rightarrow> bool" where
  "lock_owner w s \<longleftrightarrow> (locked (slock s) = 0 \<longleftrightarrow> w = None) \<and> (\<forall>i. owning s i \<longleftrightarrow> w = Some i) \<and>
     (\<forall>i. lcpu (slock s) = Some i \<longleftrightarrow> at_pc s i = Critical) \<and> (\<forall>i. at_pc s i \<noteq> Panicked)"

definition lock_inv :: "lock_sys \<Rightarrow> bool" where
  "lock_inv s \<longleftrightarrow> (\<exists>w. lock_owner w s)"

lemma owning_upd [simp]:
  "owning (s\<lparr>at_pc := (at_pc s)(i := p)\<rparr>) j \<longleftrightarrow>
     (if j = i then p \<in> {Acquired, Critical, Releasing} else owning s j)"
  "owning (s\<lparr>slock := l, at_pc := (at_pc s)(i := p)\<rparr>) j \<longleftrightarrow>
     (if j = i then p \<in> {Acquired, Critical, Releasing} else owning s j)"
  by (simp_all add: owning_def)

lemma owning_pc:
  "at_pc s i = Idle \<Longrightarrow> \<not> owning s i" "at_pc s i = Spinning \<Longrightarrow> \<not> owning s i"
  "at_pc s i = Acquired \<Longrightarrow> owning s i" "at_pc s i = Critical \<Longrightarrow> owning s i"
  "at_pc s i = Releasing \<Longrightarrow> owning s i"
  by (simp_all add: owning_def)

lemma lock_owner_sole: "lock_owner w s \<Longrightarrow> owning s i \<Longrightarrow> at_pc s j = Critical \<Longrightarrow> j = i"
  using owning_pc(4) [of s j] by (simp add: lock_owner_def)

lemma lock_owner_step:
  "lock_step s t \<Longrightarrow> lock_owner w s \<Longrightarrow>
   lock_owner w t \<or> (\<exists>i. at_pc s i = Spinning \<and> lock_owner (Some i) t) \<or> lock_owner None t"
proof (induction rule: lock_step.induct)
  case (exchange s i old new)
  then show ?case
    by (cases "old = 0") (auto simp: lock_owner_def xchg_def dest: owning_pc)
next
  case (record_owner s i)
  note sole = lock_owner_sole [OF record_owner.prems owning_pc(3) [OF record_owner.hyps]]
  from record_owner show ?case
    by (intro disjI1) (auto simp: lock_owner_def dest: owning_pc sole)
next
  case (erase_owner s i)
  note sole = lock_owner_sole [OF erase_owner.prems owning_pc(4) [OF erase_owner.hyps(1)]]
  from erase_owner show ?case
    by (intro disjI1) (auto simp: lock_owner_def dest: owning_pc sole)
qed (auto simp: lock_owner_def holds_def dest: owning_pc)

lemma lock_inv_step: "lock_inv s \<Longrightarrow> lock_step s t \<Longrightarrow> lock_inv t"
  unfolding lock_inv_def using lock_owner_step by blast

interpretation spin: exclusion lock_start lock_step lock_inv owning
proof unfold_locales
  show "lock_start s \<Longrightarrow> lock_inv s" for s
    by (auto simp: lock_start_def lock_inv_def lock_owner_def owning_def)
  show "lock_inv s \<Longrightarrow> lock_step s t \<Longrightarrow> lock_inv t" for s t
    by (rule lock_inv_step)
  show "lock_inv s \<Longrightarrow> owning s i \<Longrightarrow> owning s j \<Longrightarrow> i = j" for s i j
    by (auto simp: lock_inv_def lock_owner_def)
qed

lemma getcallerpcs_from_length: "length (getcallerpcs_from m fp n) = n"
  by (induction m fp n rule: getcallerpcs_from.induct) auto

section \<open>Main properties\<close>

text \<open>
  C27. \<^verbatim>\<open>acquire\<close> has three outcomes and no other: a free lock is taken, with the owner and the
  caller's program counters recorded and interrupts off; a lock this CPU holds already is
  a panic; a lock some other CPU holds makes this CPU spin.
\<close>

theorem acquire_outcomes:
  assumes "cpu_ok c s"
  shows "acquire L s =
    (if locked (locks s L) = 0 then Ret () (took c L s)
     else if lcpu (locks s L) = Some c then Panic ''acquire'' else Spin)"
  using acquire_free [OF assms] acquire_again [OF assms] acquire_busy [OF assms] by auto

definition one_cpu :: machine where
  "one_cpu = \<lparr>mem = (\<lambda>a. 0), eflags = 0x202, ebp = 0, lapic = None,
     cpus = [\<lparr>apicid = 0, ts_esp0 = 0, ts_ss0 = 0, ts_iomb = 0, gdt = [], started = 1, ncli = 0,
              intena = 0, cproc = None\<rparr>],
     ncpu = 1, locks = (\<lambda>l. \<lparr>locked = 0, lname = [], lcpu = None, pcs = replicate 10 0\<rparr>)\<rparr>"

lemma one_cpu_ok: "cpu_ok 0 one_cpu"
  by (simp add: cpu_ok_def one_cpu_def cur_cpu_def lapicid_def)

theorem acquire_outcomes_witness:
  "cpu_ok 0 one_cpu \<and> acquire PtableLock one_cpu = Ret () (took 0 PtableLock one_cpu)"
  using acquire_outcomes [OF one_cpu_ok, of PtableLock] one_cpu_ok by (simp add: one_cpu_def)



text \<open>
  C5. On any number of CPUs, in every interleaving of the instructions of \<^verbatim>\<open>acquire\<close> and \<^verbatim>\<open>release\<close>,
  at most one CPU is past the \<^verbatim>\<open>xchg\<close> loop and not yet past the final store, and neither of
  the two panics is reached.
\<close>

theorem spinlock_exclusion:
  assumes "reach lock_start lock_step s"
  shows "(\<exists>\<^sub>\<le>\<^sub>1 i. owning s i) \<and> (\<forall>i. at_pc s i \<noteq> Panicked)"
  using spin.at_most_one [OF assms] spin.reach_inv [OF assms]
  by (auto simp: lock_inv_def lock_owner_def)

theorem spinlock_exclusion_witness:
  "\<exists>s. reach lock_start lock_step s \<and> owning s 3 \<and> (\<exists>\<^sub>\<le>\<^sub>1 i. owning s i)"
proof -
  define s0 where "s0 = \<lparr>slock = locks one_cpu KmemLock, at_pc = (\<lambda>i. Idle)\<rparr>"
  define s1 where "s1 = s0\<lparr>at_pc := (at_pc s0)(3 := Spinning)\<rparr>"
  define s2 where "s2 = s1\<lparr>slock := (slock s1)\<lparr>locked := 1\<rparr>, at_pc := (at_pc s1)(3 := Acquired)\<rparr>"
  have "reach lock_start lock_step s0"
    by (rule reach_init) (simp add: lock_start_def s0_def one_cpu_def)
  moreover have "lock_step s0 s1"
    unfolding s1_def by (rule enter) (simp_all add: s0_def holds_def one_cpu_def)
  moreover have "lock_step s1 s2"
    using exchange [of s1 3 0 1] by (simp add: s2_def s1_def s0_def xchg_def one_cpu_def)
  ultimately have "reach lock_start lock_step s2" by (blast intro: reach_step)
  moreover have "owning s2 3" by (simp add: s2_def owning_def)
  ultimately show ?thesis using spinlock_exclusion [of s2] by blast
qed

end
