(* ===== verification/Kalloc.thy ===== *)
theory Kalloc
  imports CString Spinlock
begin

text \<open>
  The physical page allocator \<^verbatim>\<open>kalloc.c\<close>. The free list lives in the free pages themselves:
  \<^verbatim>\<open>kmem.freelist\<close> points at the first one and the first word of each free page is the
  address of the next. \<open>free_list m a xs\<close> reads that chain out of memory; the lemmas show
  that \<^verbatim>\<open>kfree\<close> pushes on it and \<^verbatim>\<open>kalloc\<close> pops from it. The locale \<open>page_allocator\<close> is what the
  rest of the kernel relies on.
\<close>

section \<open>State and operations\<close>

text \<open>\<open>kend\<close> is the linker's symbol \<^verbatim>\<open>end\<close>, the first address after the kernel image.\<close>

record kmachine = machine +
  kend :: uint32
  use_lock :: int
  freelist :: uint32

definition kfree :: "uint32 \<Rightarrow> (unit, 'z kmachine_scheme) kern" where
  "kfree v s =
     (if v mod PGSIZE \<noteq> 0 \<or> v < kend s \<or> V2P v \<ge> PHYSTOP then Panic ''kfree''
      else
        thenK (modifyK (\<lambda>s. s\<lparr>mem := memset (mem s) v 1 PGSIZE\<rparr>))
        (thenK (condK (\<lambda>s. use_lock s \<noteq> 0) (acquire KmemLock))
        (thenK (modifyK (\<lambda>s. s\<lparr>mem := store32 (mem s) v (freelist s), freelist := v\<rparr>))
          (condK (\<lambda>s. use_lock s \<noteq> 0) (release KmemLock)))) s)"

definition kalloc :: "(uint32, 'z kmachine_scheme) kern" where
  "kalloc =
     thenK (condK (\<lambda>s. use_lock s \<noteq> 0) (acquire KmemLock))
     (bindK (getsK freelist) (\<lambda>r.
      thenK (condK (\<lambda>s. r \<noteq> 0) (modifyK (\<lambda>s. s\<lparr>freelist := load32 (mem s) r\<rparr>)))
      (thenK (condK (\<lambda>s. use_lock s \<noteq> 0) (release KmemLock))
        (retK r))))"

lemma kfree_RetD: "kfree v s = Ret x t \<Longrightarrow> v mod PGSIZE = 0 \<and> kend s \<le> v \<and> V2P v < PHYSTOP"
  by (auto simp: kfree_def not_less not_le split: if_splits)

text \<open>
  The loop \<^verbatim>\<open>for(; p + PGSIZE <= vend; p += PGSIZE) kfree(p)\<close>. It ends for every \<^verbatim>\<open>vend\<close>: a page
  that \<^verbatim>\<open>kfree\<close> accepts lies below \<^verbatim>\<open>KERNBASE + PHYSTOP\<close>, so the pointer cannot wrap.
\<close>

lemma V2P_below:
  assumes "V2P v < PHYSTOP"
  shows "unat v < 2382364672" and "2147483648 \<le> unat v"
proof -
  have v: "unat v < 4294967296" using unsigned_less [of v, where 'a = nat] by simp
  have "unat (v - 2147483648) < 234881024" using assms by (simp add: V2P_def word_less_nat_alt)
  then show "unat v < 2382364672" and "2147483648 \<le> unat v"
    using v by (simp_all add: unat_sub_if_size word_size split: if_splits)
qed

lemma page_step:
  assumes "V2P v < PHYSTOP"
  shows "unat (v + PGSIZE) = unat v + 4096"
  using V2P_below [OF assms] by (simp add: unat_word_ariths)

function freerange_loop :: "uint32 \<Rightarrow> uint32 \<Rightarrow> (unit, 'z kmachine_scheme) kern" where
  "freerange_loop vend p s =
     (if p + PGSIZE \<le> vend
      then (case kfree p s of
              Ret _ s' \<Rightarrow> freerange_loop vend (p + PGSIZE) s'
            | Panic m \<Rightarrow> Panic m | Block s' \<Rightarrow> Block s' | Spin \<Rightarrow> Spin | Fault \<Rightarrow> Fault)
      else Ret () s)"
  by pat_completeness auto
termination
proof (relation "measure (\<lambda>(vend, p, s). 4294967296 - unat p)")
  fix vend p :: uint32 and s :: "'z kmachine_scheme" and u s'
  assume "kfree p s = Ret u s'"
  then have "V2P p < PHYSTOP" by (simp add: kfree_RetD)
  then show "((vend, p + PGSIZE, s'), (vend, p, s)) \<in> measure (\<lambda>(vend, p, s). 4294967296 - unat p)"
    using page_step [of p] V2P_below [of p] by simp
qed simp

declare freerange_loop.simps [simp del]

definition freerange :: "uint32 \<Rightarrow> uint32 \<Rightarrow> (unit, 'z kmachine_scheme) kern" where
  "freerange vstart vend = freerange_loop vend (PGROUNDUP vstart)"

definition kinit1 :: "uint32 \<Rightarrow> uint32 \<Rightarrow> (unit, 'z kmachine_scheme) kern" where
  "kinit1 vstart vend =
     thenK (modifyK (\<lambda>s. (initlock KmemLock ''kmem'' s)\<lparr>use_lock := 0\<rparr>)) (freerange vstart vend)"

definition kinit2 :: "uint32 \<Rightarrow> uint32 \<Rightarrow> (unit, 'z kmachine_scheme) kern" where
  "kinit2 vstart vend =
     thenK (freerange vstart vend) (modifyK (\<lambda>s. s\<lparr>use_lock := 1\<rparr>))"

section \<open>The free list\<close>

fun free_list :: "memory \<Rightarrow> uint32 \<Rightarrow> uint32 list \<Rightarrow> bool" where
  "free_list m a [] \<longleftrightarrow> a = 0"
| "free_list m a (x # xs) \<longleftrightarrow> a = x \<and> x \<noteq> 0 \<and> free_list m (load32 m x) xs"

definition kpage :: "'z kmachine_scheme \<Rightarrow> uint32 \<Rightarrow> bool" where
  "kpage s v \<longleftrightarrow> v mod PGSIZE = 0 \<and> kend s \<le> v \<and> V2P v < PHYSTOP"

definition kmem_inv :: "'z kmachine_scheme \<Rightarrow> uint32 list \<Rightarrow> bool" where
  "kmem_inv s xs \<longleftrightarrow> free_list (mem s) (freelist s) xs \<and> distinct xs \<and> (\<forall>x\<in>set xs. kpage s x)"

text \<open>The allocator can run: its lock is not in use yet, or it is free.\<close>

definition kready :: "nat \<Rightarrow> 'z kmachine_scheme \<Rightarrow> bool" where
  "kready c s \<longleftrightarrow> use_lock s = 0 \<or> cpu_ok c s \<and> lock_free KmemLock s"

lemma kmachine_more:
  "machine.more t = machine.more s \<Longrightarrow> kend t = kend s"
  "machine.more t = machine.more s \<Longrightarrow> use_lock t = use_lock s"
  "machine.more t = machine.more s \<Longrightarrow> freelist t = freelist s"
  "machine.more t = machine.more s \<Longrightarrow> kmachine.more t = kmachine.more s"
  by (cases s; cases t; simp)+

lemma locked_kmachine [simp]:
  "kend (took c L s1) = kend s1" "use_lock (took c L s2) = use_lock s2"
  "freelist (took c L s3) = freelist s3" "kmachine.more (took c L s4) = kmachine.more s4"
  "kend (dropped c L s5) = kend s5" "use_lock (dropped c L s6) = use_lock s6"
  "freelist (dropped c L s7) = freelist s7" "kmachine.more (dropped c L s8) = kmachine.more s8"
  by (rule kmachine_more, simp)+

lemma same_cpu_freelist [simp]: "same_cpu c s (s\<lparr>freelist := a\<rparr>)" "same_cpu c s (s\<lparr>mem := m, freelist := a\<rparr>)"
  by (rule same_cpuI; simp)+

lemma kpage_nonzero: "kpage s v \<Longrightarrow> v \<noteq> 0"
  using V2P_below(2) [of v] by (auto simp: kpage_def)

lemma kpage_cong: "kend t = kend s \<Longrightarrow> kpage t v = kpage s v"
  by (simp add: kpage_def)

lemma kready_same_cpu:
  "same_cpu c s t \<Longrightarrow> use_lock t = use_lock s \<Longrightarrow> kready c s \<Longrightarrow> kready c t"
  using cpu_ok_same_cpu [of c s t] lock_free_same_cpu [of c s t] by (auto simp: kready_def)

section \<open>Effects\<close>

lemma kfree_eq:
  assumes "kpage s v" and "kready c s"
  shows "\<exists>t. kfree v s = Ret () t \<and> same_cpu c s t \<and>
    mem t = store32 (fill (mem s) v 1 4096) v (freelist s) \<and> freelist t = v \<and>
    kend t = kend s \<and> use_lock t = use_lock s \<and> kmachine.more t = kmachine.more s"
proof (cases "use_lock s = 0")
  case True
  then show ?thesis
    using assms by (simp add: kfree_def kpage_def not_less not_le condK_def memset_fill thenK_def bindK_def)
next
  case False
  let ?s1 = "s\<lparr>mem := fill (mem s) v 1 4096\<rparr>"
  let ?s2 = "took c KmemLock ?s1"
  let ?s3 = "?s2\<lparr>mem := store32 (mem ?s2) v (freelist s), freelist := v\<rparr>"
  have ok: "cpu_ok c ?s1" "lock_free KmemLock ?s1" using assms(2) False by (simp_all add: kready_def)
  then have acq: "acquire KmemLock ?s1 = Ret () ?s2"
    by (intro acquire_free) (simp_all add: lock_free_def)
  have sc: "same_cpu c ?s2 ?s3" by simp
  then have "release KmemLock ?s3 = Ret () (dropped c KmemLock ?s3)"
    using owns_took [OF ok(1)] by (intro release_owned) (rule owns_same_cpu)
  then have "kfree v s = Ret () (dropped c KmemLock ?s3)"
    using assms False acq
    by (simp add: kfree_def kpage_def not_less not_le condK_def memset_fill thenK_def bindK_def)
  moreover have "same_cpu c s (dropped c KmemLock ?s3)"
    by (rule same_cpu_trans [OF same_cpu_mem same_cpu_dropped [OF ok sc]])
  ultimately show ?thesis by simp
qed

lemma kalloc_eq:
  assumes "kready c s"
  shows "\<exists>t. kalloc s = Ret (freelist s) t \<and> same_cpu c s t \<and> mem t = mem s \<and>
    freelist t = (if freelist s = 0 then 0 else load32 (mem s) (freelist s)) \<and>
    kend t = kend s \<and> use_lock t = use_lock s \<and> kmachine.more t = kmachine.more s"
proof (cases "use_lock s = 0")
  case True
  then show ?thesis by (simp add: kalloc_def condK_def thenK_def bindK_def)
next
  case False
  let ?s2 = "took c KmemLock s"
  let ?s3 = "if freelist s = 0 then ?s2 else ?s2\<lparr>freelist := load32 (mem s) (freelist s)\<rparr>"
  have ok: "cpu_ok c s" "lock_free KmemLock s" using assms False by (simp_all add: kready_def)
  then have acq: "acquire KmemLock s = Ret () ?s2"
    by (intro acquire_free) (simp_all add: lock_free_def)
  have sc: "same_cpu c ?s2 ?s3" by simp
  then have "release KmemLock ?s3 = Ret () (dropped c KmemLock ?s3)"
    using owns_took [OF ok(1)] by (intro release_owned) (rule owns_same_cpu)
  then have "kalloc s = Ret (freelist s) (dropped c KmemLock ?s3)"
    using False acq by (cases "freelist s = 0") (simp_all add: kalloc_def condK_def thenK_def bindK_def)
  then show ?thesis using same_cpu_dropped [OF ok sc] by simp
qed

section \<open>The invariant of the free list\<close>

lemma kpage_unat: "kpage s v \<Longrightarrow> unat v mod 4096 = 0"
  using unat_mod [of v "4096"] by (simp add: kpage_def)

lemma pages_disjoint:
  assumes "unat x mod 4096 = 0" and "unat v mod 4096 = 0" and "unat x < 4294963200" and "unat v < 4294963200"
    and "x \<noteq> v" and "in_range b x 4096"
  shows "\<not> in_range b v 4096"
proof
  assume "in_range b v 4096"
  then have b: "unat v \<le> unat b" "unat b < unat v + 4096" "unat x \<le> unat b" "unat b < unat x + 4096"
    using assms(3,4,6) in_range_unat [of v 4096 b] in_range_unat [of x 4096 b] by simp_all
  obtain j k where jk: "unat x = 4096 * j" "unat v = 4096 * k"
    using assms(1,2) by (metis mod_0_imp_dvd dvdE)
  have "unat b div 4096 = j" "unat b div 4096 = k"
    using b jk by (intro div_nat_eqI; simp)+
  with jk have "unat x = unat v" by simp
  with assms(5) show False by (simp add: word_unat_eq_iff)
qed

lemma kpage_disjoint:
  "kpage s x \<Longrightarrow> kpage t v \<Longrightarrow> x \<noteq> v \<Longrightarrow> in_range b x 4096 \<Longrightarrow> \<not> in_range b v 4096"
  using V2P_below(1) [of x] V2P_below(1) [of v]
  by (intro pages_disjoint [of x v]) (simp_all add: kpage_unat, simp_all add: kpage_def)

lemma free_list_cong:
  "(\<And>x. x \<in> set xs \<Longrightarrow> load32 m' x = load32 m x) \<Longrightarrow> free_list m' a xs = free_list m a xs"
  by (induction m a xs rule: free_list.induct) auto

lemma load32_page_cong:
  "(\<And>b. in_range b x 4096 \<Longrightarrow> m' b = m b) \<Longrightarrow> load32 m' x = load32 m x"
  by (rule load32_cong) (simp add: in_range_def)

lemma kfree_inv:
  assumes "kmem_inv s xs" and "kpage s v" and "v \<notin> set xs" and "kready c s"
  shows "\<exists>t. kfree v s = Ret () t \<and> kmem_inv t (v # xs) \<and> same_cpu c s t \<and>
    (\<forall>a. \<not> in_range a v 4096 \<longrightarrow> mem t a = mem s a) \<and>
    kend t = kend s \<and> use_lock t = use_lock s \<and> kmachine.more t = kmachine.more s"
proof -
  let ?m = "store32 (fill (mem s) v 1 4096) v (freelist s)"
  obtain t where t: "kfree v s = Ret () t" "same_cpu c s t" "mem t = ?m" "freelist t = v"
    "kend t = kend s" "use_lock t = use_lock s" "kmachine.more t = kmachine.more s"
    using kfree_eq [OF assms(2,4)] by blast
  have out: "?m a = mem s a" if "\<not> in_range a v 4096" for a
    using that by (subst store32_other) (auto simp: fill_def in_range_def)
  have "load32 ?m x = load32 (mem s) x" if "x \<in> set xs" for x
  proof (rule load32_page_cong)
    fix b assume "in_range b x 4096"
    then show "?m b = mem s b"
      using assms that kpage_disjoint [of s x s v b] by (intro out) (auto simp: kmem_inv_def)
  qed
  then have "free_list ?m (freelist s) xs = free_list (mem s) (freelist s) xs"
    by (rule free_list_cong)
  then have "kmem_inv t (v # xs)"
    using assms t kpage_nonzero [OF assms(2)] kpage_cong [OF t(5)] by (auto simp: kmem_inv_def)
  then show ?thesis using t out by auto
qed

lemma kalloc_inv_Cons:
  assumes "kmem_inv s (x # xs)" and "kready c s"
  shows "\<exists>t. kalloc s = Ret x t \<and> kmem_inv t xs \<and> same_cpu c s t \<and> mem t = mem s \<and>
    kend t = kend s \<and> use_lock t = use_lock s \<and> kmachine.more t = kmachine.more s"
  using kalloc_eq [OF assms(2)] assms(1) by (auto simp: kmem_inv_def kpage_def)

lemma kalloc_inv_Nil:
  assumes "kmem_inv s []" and "kready c s"
  shows "\<exists>t. kalloc s = Ret 0 t \<and> kmem_inv t [] \<and> same_cpu c s t \<and> mem t = mem s \<and>
    kend t = kend s \<and> use_lock t = use_lock s \<and> kmachine.more t = kmachine.more s"
  using kalloc_eq [OF assms(2)] assms(1) by (auto simp: kmem_inv_def)

section \<open>The allocator's contract\<close>

locale page_allocator =
  fixes alloc :: "('p :: zero, 's) kern" and free :: "'p \<Rightarrow> (unit, 's) kern"
    and inv :: "'s \<Rightarrow> 'p list \<Rightarrow> bool" and page :: "'s \<Rightarrow> 'p \<Rightarrow> bool"
  assumes inv_pages: "inv s xs \<Longrightarrow> distinct xs \<and> (\<forall>x\<in>set xs. page s x)"
    and page_nonzero: "page s x \<Longrightarrow> x \<noteq> 0"
    and alloc_Nil: "inv s [] \<Longrightarrow> \<exists>t. alloc s = Ret 0 t \<and> inv t [] \<and> page t = page s"
    and alloc_Cons: "inv s (x # xs) \<Longrightarrow> \<exists>t. alloc s = Ret x t \<and> inv t xs \<and> page t = page s"
    and free_push: "inv s xs \<Longrightarrow> page s x \<Longrightarrow> x \<notin> set xs \<Longrightarrow>
      \<exists>t. free x s = Ret () t \<and> inv t (x # xs) \<and> page t = page s"
begin

lemma alloc_zero_iff: "inv s xs \<Longrightarrow> \<exists>p t. alloc s = Ret p t \<and> (p = 0 \<longleftrightarrow> xs = [])"
proof (cases xs)
  case (Cons x ys)
  assume "inv s xs"
  then show ?thesis using Cons alloc_Cons [of s x ys] inv_pages [of s xs] page_nonzero [of s x] by auto
qed (use alloc_Nil in auto)

lemma free_alloc:
  "inv s xs \<Longrightarrow> page s x \<Longrightarrow> x \<notin> set xs \<Longrightarrow> \<exists>t. thenK (free x) alloc s = Ret x t \<and> inv t xs"
  using free_push [of s xs x] alloc_Cons [of _ x xs] by (fastforce simp: thenK_def bindK_def)

lemma alloc_many:
  "inv s xs \<Longrightarrow> n \<le> length xs \<Longrightarrow>
   \<exists>t. repeatK n alloc s = Ret (take n xs) t \<and> inv t (drop n xs) \<and> page t = page s"
proof (induction n arbitrary: s xs)
  case 0
  then show ?case by simp
next
  case (Suc n)
  then obtain x ys where xs: "xs = x # ys" by (cases xs) auto
  with Suc.prems obtain t where t: "alloc s = Ret x t" "inv t ys" "page t = page s"
    using alloc_Cons [of s x ys] by auto
  with Suc.IH [of t ys] Suc.prems xs show ?case by (auto simp: bindK_def)
qed

lemma alloc_many_distinct:
  "inv s xs \<Longrightarrow> n \<le> length xs \<Longrightarrow>
   \<exists>ps t. repeatK n alloc s = Ret ps t \<and> length ps = n \<and> distinct ps \<and> (\<forall>p\<in>set ps. page s p)"
  using alloc_many [of s xs n] inv_pages [of s xs] set_take_subset [of n xs]
  by (metis distinct_take length_take min.absorb2 subsetD)

end

interpretation kmem: page_allocator kalloc kfree "\<lambda>s xs. kmem_inv s xs \<and> kready c s" kpage for c
proof unfold_locales
  show "kmem_inv s xs \<and> kready c s \<Longrightarrow> distinct xs \<and> (\<forall>x\<in>set xs. kpage s x)"
    for s :: "'z kmachine_scheme" and xs by (simp add: kmem_inv_def)
  show "kpage s x \<Longrightarrow> x \<noteq> 0" for s :: "'z kmachine_scheme" and x by (rule kpage_nonzero)
  show "kmem_inv s [] \<and> kready c s \<Longrightarrow>
      \<exists>t. kalloc s = Ret 0 t \<and> (kmem_inv t [] \<and> kready c t) \<and> kpage t = kpage s"
    for s :: "'z kmachine_scheme"
    using kalloc_inv_Nil [of s c] kready_same_cpu [of c s] by (auto simp: kpage_def fun_eq_iff)
  show "kmem_inv s (x # xs) \<and> kready c s \<Longrightarrow>
      \<exists>t. kalloc s = Ret x t \<and> (kmem_inv t xs \<and> kready c t) \<and> kpage t = kpage s"
    for s :: "'z kmachine_scheme" and x xs
    using kalloc_inv_Cons [of s x xs c] kready_same_cpu [of c s] by (auto simp: kpage_def fun_eq_iff)
  show "kmem_inv s xs \<and> kready c s \<Longrightarrow> kpage s x \<Longrightarrow> x \<notin> set xs \<Longrightarrow>
      \<exists>t. kfree x s = Ret () t \<and> (kmem_inv t (x # xs) \<and> kready c t) \<and> kpage t = kpage s"
    for s :: "'z kmachine_scheme" and x xs
    using kfree_inv [of s xs x c] kready_same_cpu [of c s] by (auto simp: kpage_def fun_eq_iff)
qed

section \<open>Filling the free list\<close>

fun page_list :: "uint32 \<Rightarrow> nat \<Rightarrow> uint32 list" where
  "page_list p 0 = []"
| "page_list p (Suc n) = p # page_list (p + PGSIZE) n"

lemma page_list_above:
  "unat p + 4096 * n \<le> 4294963200 \<Longrightarrow> x \<in> set (page_list p n) \<Longrightarrow> unat p \<le> unat x"
proof (induction n arbitrary: p)
  case 0
  then show ?case by simp
next
  case (Suc n)
  have "unat (p + 4096) = unat p + 4096" using Suc.prems(1) by (simp add: unat_word_ariths)
  with Suc.IH [of "p + 4096"] Suc.prems show ?case by auto
qed

lemma freerange_loop_spec:
  assumes "(unat vend - unat p) div 4096 = n" and "unat p mod 4096 = 0"
    and "unat vend \<le> 2382364672" and "unat p \<le> 2382364672" and "2147483648 \<le> unat (kend s)"
    and "kend s \<le> p" and "kmem_inv s xs" and "kready c s" and "set (page_list p n) \<inter> set xs = {}"
  shows "\<exists>t. freerange_loop vend p s = Ret () t \<and> kmem_inv t (rev (page_list p n) @ xs) \<and>
    same_cpu c s t \<and> kend t = kend s \<and> use_lock t = use_lock s \<and> kmachine.more t = kmachine.more s"
  using assms
proof (induction n arbitrary: p s xs)
  case 0
  have next_p: "unat (p + 4096) = unat p + 4096" using 0(4) by (simp add: unat_word_ariths)
  have "unat vend - unat p < 4096" using 0(1) by (simp add: div_eq_0_iff)
  then have "\<not> p + 4096 \<le> vend" using next_p by (simp add: word_le_nat_alt)
  then show ?case using 0 by (simp add: freerange_loop.simps [of vend p s])
next
  case (Suc n)
  have next_p: "unat (p + 4096) = unat p + 4096" using Suc.prems(4) by (simp add: unat_word_ariths)
  have le: "unat p + 4096 \<le> unat vend" using Suc.prems(1) by (simp add: div_eq_0_iff)
  have n: "(unat vend - unat (p + 4096)) div 4096 = n" using Suc.prems(1) le next_p by simp
  have "p mod 4096 = 0" using Suc.prems(2) unat_mod [of p 4096] by (simp flip: unat_eq_zero)
  moreover have "V2P p < PHYSTOP"
    using le Suc.prems(3,5,6) by (simp add: V2P_def word_less_nat_alt word_le_nat_alt unat_sub_if_size word_size)
  ultimately have pg: "kpage s p" using Suc.prems(6) by (simp add: kpage_def)
  obtain t where t: "kfree p s = Ret () t" "kmem_inv t (p # xs)" "same_cpu c s t" "kend t = kend s"
    "use_lock t = use_lock s" "kmachine.more t = kmachine.more s"
    using kfree_inv [OF Suc.prems(7) pg _ Suc.prems(8)] Suc.prems(9) by auto
  have "unat (p + 4096) + 4096 * n \<le> unat vend"
    using n le next_p by (metis add_le_cancel_left le_add_diff_inverse times_div_less_eq_dividend)
  then have "p \<notin> set (page_list (p + 4096) n)"
    using page_list_above [of "p + 4096" n p] next_p Suc.prems(3) by auto
  moreover have "kend t \<le> p + 4096"
    using Suc.prems(6) next_p t(4) by (simp add: word_le_nat_alt)
  ultimately obtain u where "freerange_loop vend (p + 4096) t = Ret () u"
      "kmem_inv u (rev (page_list (p + 4096) n) @ p # xs)" "same_cpu c t u" "kend u = kend t"
      "use_lock u = use_lock t" "kmachine.more u = kmachine.more t"
    using Suc.IH [OF n, of t "p # xs"] Suc.prems le next_p t kready_same_cpu [OF t(3,5)] by auto
  then show ?case
    using t le next_p same_cpu_trans [OF t(3)]
    by (simp add: freerange_loop.simps [of vend p s] word_le_nat_alt)
qed

section \<open>Main properties\<close>

text \<open>
  C19. \<^verbatim>\<open>kalloc\<close> returns 0 exactly when no page is free, and otherwise the page at the head of the
  free list, which it removes; the pages still on the list are unchanged, and so is all of
  memory, every lock and the interrupt state of the CPU.
\<close>

theorem kalloc_correct:
  assumes "kmem_inv s xs" and "kready c s"
  shows "\<exists>t. kalloc s = Ret (case xs of [] \<Rightarrow> 0 | x # _ \<Rightarrow> x) t \<and> kmem_inv t (tl xs) \<and> kready c t \<and>
    same_cpu c s t \<and> mem t = mem s \<and> kmachine.more t = kmachine.more s"
proof (cases xs)
  case Nil
  then show ?thesis using kalloc_inv_Nil [of s c] kready_same_cpu [of c s] assms by auto
next
  case (Cons x ys)
  then show ?thesis using kalloc_inv_Cons [of s x ys c] kready_same_cpu [of c s] assms by auto
qed

definition two_pages :: kmachine where
  "two_pages = machine.extend (one_cpu\<lparr>mem := store32 (\<lambda>a. 0) 0x80200000 0x80300000\<rparr>)
     \<lparr>kend = 0x80110000, use_lock = 1, freelist = 0x80200000\<rparr>"

lemma two_pages_ok: "kmem_inv two_pages [0x80200000, 0x80300000]" "kready 0 two_pages"
proof -
  show "kmem_inv two_pages [0x80200000, 0x80300000]"
    by (simp add: kmem_inv_def two_pages_def kpage_def V2P_def machine.defs)
      (simp add: load32_def store32_def)
  have "cpu_ok 0 two_pages"
    by (simp add: cpu_ok_def two_pages_def machine.defs one_cpu_def cur_cpu_def lapicid_def)
  then show "kready 0 two_pages"
    by (simp add: kready_def lock_free_def two_pages_def machine.defs one_cpu_def)
qed

theorem kalloc_correct_witness:
  "\<exists>t. kalloc two_pages = Ret 0x80200000 t \<and> kmem_inv t [0x80300000]"
  using kalloc_correct [OF two_pages_ok] by auto

text \<open>
  C20. \<^verbatim>\<open>kfree\<close> panics on an address that is not page aligned, lies in the kernel image or beyond
  physical memory; any other page that is not free already is put at the head of the free
  list, with no byte outside that page changed.
\<close>

theorem kfree_correct:
  assumes "kmem_inv s xs" and "kready c s" and "v \<notin> set xs"
  shows "if v mod PGSIZE = 0 \<and> kend s \<le> v \<and> V2P v < PHYSTOP
    then \<exists>t. kfree v s = Ret () t \<and> kmem_inv t (v # xs) \<and> kready c t \<and> same_cpu c s t \<and>
      (\<forall>a. \<not> in_range a v 4096 \<longrightarrow> mem t a = mem s a) \<and> kmachine.more t = kmachine.more s
    else kfree v s = Panic ''kfree''"
proof (cases "kpage s v")
  case True
  then show ?thesis
    using kfree_inv [OF assms(1) True assms(3,2)] kready_same_cpu [of c s] assms(2)
    by (auto simp: kpage_def)
qed (auto simp: kpage_def kfree_def not_le not_less)

theorem kfree_correct_witness:
  "\<exists>t. kfree 0x80400000 two_pages = Ret () t \<and> kmem_inv t [0x80400000, 0x80200000, 0x80300000]"
  using kfree_correct [OF two_pages_ok, of "0x80400000"]
  by (auto simp: two_pages_def V2P_def machine.defs)

text \<open>
  C18. \<^verbatim>\<open>freerange\<close> puts exactly the whole pages between its two addresses on the free list, and
  it returns for every range of physical memory above the kernel image.
\<close>

theorem freerange_correct:
  assumes "KERNBASE \<le> kend s" and "kend s \<le> vstart" and "vstart \<le> P2V PHYSTOP" and "vend \<le> P2V PHYSTOP"
    and "n = (unat vend - unat (PGROUNDUP vstart)) div 4096"
    and "kmem_inv s xs" and "kready c s" and "set (page_list (PGROUNDUP vstart) n) \<inter> set xs = {}"
  shows "\<exists>t. freerange vstart vend s = Ret () t \<and>
    kmem_inv t (rev (page_list (PGROUNDUP vstart) n) @ xs) \<and> kready c t"
proof -
  have vs: "unat vstart \<le> 2382364672" using assms(3) by (simp add: P2V_def word_le_nat_alt)
  have up: "unat (PGROUNDUP vstart) = (unat vstart + 4095) div 4096 * 4096"
    using vs by (intro unat_PGROUNDUP) simp
  then have "unat (PGROUNDUP vstart) \<le> (2382364672 + 4095) div 4096 * 4096"
    using vs by (simp only:) (intro mult_le_mono div_le_mono, simp_all)
  moreover have "unat vstart \<le> unat (PGROUNDUP vstart)" using vs by (intro PGROUNDUP_least) simp
  ultimately obtain t where "freerange vstart vend s = Ret () t" "same_cpu c s t" "use_lock t = use_lock s"
      "kmem_inv t (rev (page_list (PGROUNDUP vstart) n) @ xs)"
    using freerange_loop_spec [of vend "PGROUNDUP vstart" n s xs c] assms up
    by (auto simp: freerange_def P2V_def word_le_nat_alt)
  then show ?thesis using kready_same_cpu [of c s t] assms(7) by blast
qed

theorem freerange_correct_witness:
  "\<exists>t. freerange 0x803FFFFF 0x80401000 two_pages = Ret () t \<and>
     kmem_inv t [0x80400000, 0x80200000, 0x80300000]"
proof -
  have "PGROUNDUP 0x803FFFFF = 0x80400000" by (simp add: PGROUNDUP_def)
  then show ?thesis
    using freerange_correct [OF _ _ _ _ _ two_pages_ok, of "0x803FFFFF" "0x80401000" 1]
    by (auto simp: two_pages_def P2V_def machine.defs)
qed

end
