(* ===== verification/Vm.thy ===== *)
theory Vm
  imports Kalloc
begin

text \<open>
  Virtual memory, \<^verbatim>\<open>vm.c\<close>: two-level page tables held in kernel memory. A page directory is the
  address of its page; its entries and those of the page tables are read and written with
  32-bit accesses, as the code does. \<open>pte_of\<close> is the reference translation that the
  operations are compared with.

  The loops of \<^verbatim>\<open>mappages\<close>, \<^verbatim>\<open>allocuvm\<close>, \<^verbatim>\<open>deallocuvm\<close> and \<^verbatim>\<open>copyuvm\<close> step through the 32-bit
  address space one page at a time with wrap-around, so they may in principle go round for
  ever. They are given fuel for \<open>2^20\<close> iterations, the number of pages there are; running
  out of it is \<open>Spin\<close>, the outcome of code that never comes back. The lemmas show that it
  does not happen for the arguments the kernel uses.
\<close>

section \<open>State\<close>

text \<open>
  \<open>kdata\<close> is the linker's symbol \<^verbatim>\<open>data\<close>; \<open>cr3\<close> and \<open>tr\<close> are the registers loaded by \<^verbatim>\<open>lcr3\<close> and
  \<^verbatim>\<open>ltr\<close>; \<open>kout\<close> is what has been given to \<^verbatim>\<open>cprintf\<close>, each call as its format and arguments.
\<close>

datatype parg = PInt int | PStr "uchar list" | PPtr uint32

record vmachine = kmachine +
  kdata :: uint32
  kpgdir :: uint32
  cr3 :: uint32
  tr :: ushort
  kout :: "(string \<times> parg list) list"

definition NPAGES :: nat where "NPAGES = 1048576"

definition lcr3 :: "uint32 \<Rightarrow> (unit, 'z vmachine_scheme) kern" where
  "lcr3 v = modifyK (\<lambda>s. s\<lparr>cr3 := v\<rparr>)"

definition ltr :: "ushort \<Rightarrow> (unit, 'z vmachine_scheme) kern" where
  "ltr sel = modifyK (\<lambda>s. s\<lparr>tr := sel\<rparr>)"

definition cprint :: "string \<Rightarrow> parg list \<Rightarrow> (unit, 'z vmachine_scheme) kern" where
  "cprint fmt args = modifyK (\<lambda>s. s\<lparr>kout := kout s @ [(fmt, args)]\<rparr>)"

section \<open>Operations\<close>

definition seginit :: "(unit, 'z vmachine_scheme) kern" where
  "seginit =
     bindK cpuid (\<lambda>c. modifyK (upd_cpu c (\<lambda>k. k\<lparr>gdt := (gdt k)
       [SEG_KCODE := SEG 0xA 0 0xffffffff 0, SEG_KDATA := SEG 0x2 0 0xffffffff 0,
        SEG_UCODE := SEG 0xA 0 0xffffffff 3, SEG_UDATA := SEG 0x2 0 0xffffffff 3]\<rparr>)))"

definition walkpgdir :: "uint32 \<Rightarrow> uint32 \<Rightarrow> bool \<Rightarrow> (uint32, 'z vmachine_scheme) kern" where
  "walkpgdir pgdir va alloc =
     bindK (getsK (\<lambda>s. load32 (mem s) (pgdir + 4 * PDX va))) (\<lambda>pde.
     if pde AND PTE_P \<noteq> 0 then retK (P2V (PTE_ADDR pde) + 4 * PTX va)
     else if \<not> alloc then retK 0
     else bindK kalloc (\<lambda>pgtab.
       if pgtab = 0 then retK 0
       else thenK (modifyK (\<lambda>s. s\<lparr>mem :=
              store32 (memset (mem s) pgtab 0 PGSIZE) (pgdir + 4 * PDX va)
                (V2P pgtab OR PTE_P OR PTE_W OR PTE_U)\<rparr>))
            (retK (pgtab + 4 * PTX va))))"

fun mappages_loop ::
  "nat \<Rightarrow> uint32 \<Rightarrow> uint32 \<Rightarrow> uint32 \<Rightarrow> uint32 \<Rightarrow> uint32 \<Rightarrow> (int, 'z vmachine_scheme) kern" where
  "mappages_loop 0 pgdir a last_pg pa perm = (\<lambda>s. Spin)"
| "mappages_loop (Suc n) pgdir a last_pg pa perm =
     bindK (walkpgdir pgdir a True) (\<lambda>pte.
     if pte = 0 then retK (- 1)
     else bindK (getsK (\<lambda>s. load32 (mem s) pte)) (\<lambda>e.
       if e AND PTE_P \<noteq> 0 then panicK ''remap''
       else thenK (modifyK (\<lambda>s. s\<lparr>mem := store32 (mem s) pte (pa OR perm OR PTE_P)\<rparr>))
         (if a = last_pg then retK 0
          else mappages_loop n pgdir (a + PGSIZE) last_pg (pa + PGSIZE) perm)))"

definition mappages ::
  "uint32 \<Rightarrow> uint32 \<Rightarrow> uint32 \<Rightarrow> uint32 \<Rightarrow> uint32 \<Rightarrow> (int, 'z vmachine_scheme) kern" where
  "mappages pgdir va sz pa perm =
     mappages_loop NPAGES pgdir (PGROUNDDOWN va) (PGROUNDDOWN (va + sz - 1)) pa perm"

text \<open>
  In \<^verbatim>\<open>deallocuvm\<close> a missing page table makes the loop continue at the next directory entry:
  \<^verbatim>\<open>a = PGADDR(PDX(a) + 1, 0, 0) - PGSIZE\<close> followed by \<^verbatim>\<open>a += PGSIZE\<close>.
\<close>

fun deallocuvm_loop :: "nat \<Rightarrow> uint32 \<Rightarrow> uint32 \<Rightarrow> uint32 \<Rightarrow> (unit, 'z vmachine_scheme) kern" where
  "deallocuvm_loop 0 pgdir a oldsz = (\<lambda>s. Spin)"
| "deallocuvm_loop (Suc n) pgdir a oldsz =
     (if a < oldsz then
        bindK (walkpgdir pgdir a False) (\<lambda>pte.
        if pte = 0 then deallocuvm_loop n pgdir (PGADDR (PDX a + 1) 0 0 - PGSIZE + PGSIZE) oldsz
        else bindK (getsK (\<lambda>s. load32 (mem s) pte)) (\<lambda>e.
          if e AND PTE_P \<noteq> 0 then
            (let pa = PTE_ADDR e
             in if pa = 0 then panicK ''kfree''
                else thenK (kfree (P2V pa))
                  (thenK (modifyK (\<lambda>s. s\<lparr>mem := store32 (mem s) pte 0\<rparr>))
                    (deallocuvm_loop n pgdir (a + PGSIZE) oldsz)))
          else deallocuvm_loop n pgdir (a + PGSIZE) oldsz))
      else retK ())"

definition deallocuvm :: "uint32 \<Rightarrow> uint32 \<Rightarrow> uint32 \<Rightarrow> (uint32, 'z vmachine_scheme) kern" where
  "deallocuvm pgdir oldsz newsz =
     (if newsz \<ge> oldsz then retK oldsz
      else thenK (deallocuvm_loop NPAGES pgdir (PGROUNDUP newsz) oldsz) (retK newsz))"

definition freevm :: "uint32 \<Rightarrow> (unit, 'z vmachine_scheme) kern" where
  "freevm pgdir =
     (if pgdir = 0 then panicK ''freevm: no pgdir''
      else bindK (deallocuvm pgdir KERNBASE 0) (\<lambda>_.
        thenK (forK [0..<NPDENTRIES] (\<lambda>i.
          bindK (getsK (\<lambda>s. load32 (mem s) (pgdir + 4 * of_nat i))) (\<lambda>e.
          if e AND PTE_P \<noteq> 0 then kfree (P2V (PTE_ADDR e)) else retK ())))
        (kfree pgdir)))"

text \<open>The table \<^verbatim>\<open>kmap\<close>: virtual start, physical start and end, permissions.\<close>

definition kmap :: "uint32 \<Rightarrow> (uint32 \<times> uint32 \<times> uint32 \<times> uint32) list" where
  "kmap dat =
     [(KERNBASE, 0, EXTMEM, PTE_W), (KERNLINK, V2P KERNLINK, V2P dat, 0),
      (dat, V2P dat, PHYSTOP, PTE_W), (DEVSPACE, DEVSPACE, 0, PTE_W)]"

fun setupkvm_loop ::
  "uint32 \<Rightarrow> (uint32 \<times> uint32 \<times> uint32 \<times> uint32) list \<Rightarrow> (uint32, 'z vmachine_scheme) kern" where
  "setupkvm_loop pgdir [] = retK pgdir"
| "setupkvm_loop pgdir ((virt, phys_start, phys_end, perm) # ks) =
     bindK (mappages pgdir virt (phys_end - phys_start) phys_start perm) (\<lambda>r.
     if r < 0 then thenK (freevm pgdir) (retK 0) else setupkvm_loop pgdir ks)"

definition setupkvm :: "(uint32, 'z vmachine_scheme) kern" where
  "setupkvm =
     bindK kalloc (\<lambda>pgdir.
     if pgdir = 0 then retK 0
     else thenK (modifyK (\<lambda>s. s\<lparr>mem := memset (mem s) pgdir 0 PGSIZE\<rparr>))
       (if P2V PHYSTOP > DEVSPACE then panicK ''PHYSTOP too high''
        else bindK (getsK kdata) (\<lambda>dat. setupkvm_loop pgdir (kmap dat))))"

definition switchkvm :: "(unit, 'z vmachine_scheme) kern" where
  "switchkvm = bindK (getsK kpgdir) (\<lambda>d. lcr3 (V2P d))"

definition kvmalloc :: "(unit, 'z vmachine_scheme) kern" where
  "kvmalloc = bindK setupkvm (\<lambda>d. thenK (modifyK (\<lambda>s. s\<lparr>kpgdir := d\<rparr>)) switchkvm)"

text \<open>
  \<^verbatim>\<open>inituvm\<close> does not test the result of \<^verbatim>\<open>kalloc\<close>: a null page would be filled at address 0,
  which is not mapped at that point.
\<close>

definition inituvm :: "uint32 \<Rightarrow> uint32 \<Rightarrow> uint32 \<Rightarrow> (unit, 'z vmachine_scheme) kern" where
  "inituvm pgdir init sz =
     (if sz \<ge> PGSIZE then panicK ''inituvm: more than a page''
      else bindK kalloc (\<lambda>m.
        if m = 0 then (\<lambda>s. Fault)
        else thenK (modifyK (\<lambda>s. s\<lparr>mem := memset (mem s) m 0 PGSIZE\<rparr>))
          (bindK (mappages pgdir 0 PGSIZE (V2P m) (PTE_W OR PTE_U)) (\<lambda>_.
            modifyK (\<lambda>s. s\<lparr>mem := memmove (mem s) m init sz\<rparr>)))))"

text \<open>
  \<^verbatim>\<open>loaduvm\<close> reads the file through \<^verbatim>\<open>readi\<close>; the reader is the argument \<open>rd\<close>, called with
  destination, offset and length.
\<close>

fun loaduvm_loop ::
  "nat \<Rightarrow> (uint32 \<Rightarrow> uint32 \<Rightarrow> uint32 \<Rightarrow> (int, 'z vmachine_scheme) kern) \<Rightarrow>
   uint32 \<Rightarrow> uint32 \<Rightarrow> uint32 \<Rightarrow> uint32 \<Rightarrow> uint32 \<Rightarrow> (int, 'z vmachine_scheme) kern" where
  "loaduvm_loop 0 rd pgdir addr offset sz i = (\<lambda>s. Spin)"
| "loaduvm_loop (Suc k) rd pgdir addr offset sz i =
     (if i < sz then
        bindK (walkpgdir pgdir (addr + i) False) (\<lambda>pte.
        if pte = 0 then panicK ''loaduvm: address should exist''
        else bindK (getsK (\<lambda>s. load32 (mem s) pte)) (\<lambda>e.
          let pa = PTE_ADDR e; n = (if sz - i < PGSIZE then sz - i else PGSIZE)
          in bindK (rd (P2V pa) (offset + i) n) (\<lambda>r.
             if r \<noteq> uint n then retK (- 1)
             else loaduvm_loop k rd pgdir addr offset sz (i + PGSIZE))))
      else retK 0)"

definition loaduvm ::
  "(uint32 \<Rightarrow> uint32 \<Rightarrow> uint32 \<Rightarrow> (int, 'z vmachine_scheme) kern) \<Rightarrow>
   uint32 \<Rightarrow> uint32 \<Rightarrow> uint32 \<Rightarrow> uint32 \<Rightarrow> (int, 'z vmachine_scheme) kern" where
  "loaduvm rd pgdir addr offset sz =
     (if addr mod PGSIZE \<noteq> 0 then panicK ''loaduvm: addr must be page aligned''
      else loaduvm_loop NPAGES rd pgdir addr offset sz 0)"

fun allocuvm_loop ::
  "nat \<Rightarrow> uint32 \<Rightarrow> uint32 \<Rightarrow> uint32 \<Rightarrow> uint32 \<Rightarrow> (uint32, 'z vmachine_scheme) kern" where
  "allocuvm_loop 0 pgdir a oldsz newsz = (\<lambda>s. Spin)"
| "allocuvm_loop (Suc n) pgdir a oldsz newsz =
     (if a < newsz then
        bindK kalloc (\<lambda>m.
        if m = 0 then
          thenK (cprint ''allocuvm out of memory\<newline>'' [])
            (bindK (deallocuvm pgdir newsz oldsz) (\<lambda>_. retK 0))
        else thenK (modifyK (\<lambda>s. s\<lparr>mem := memset (mem s) m 0 PGSIZE\<rparr>))
          (bindK (mappages pgdir a PGSIZE (V2P m) (PTE_W OR PTE_U)) (\<lambda>r.
           if r < 0 then
             thenK (cprint ''allocuvm out of memory (2)\<newline>'' [])
               (bindK (deallocuvm pgdir newsz oldsz) (\<lambda>_. thenK (kfree m) (retK 0)))
           else allocuvm_loop n pgdir (a + PGSIZE) oldsz newsz)))
      else retK newsz)"

definition allocuvm :: "uint32 \<Rightarrow> uint32 \<Rightarrow> uint32 \<Rightarrow> (uint32, 'z vmachine_scheme) kern" where
  "allocuvm pgdir oldsz newsz =
     (if newsz \<ge> KERNBASE then retK 0
      else if newsz < oldsz then retK oldsz
      else allocuvm_loop NPAGES pgdir (PGROUNDUP oldsz) oldsz newsz)"

definition clearpteu :: "uint32 \<Rightarrow> uint32 \<Rightarrow> (unit, 'z vmachine_scheme) kern" where
  "clearpteu pgdir uva =
     bindK (walkpgdir pgdir uva False) (\<lambda>pte.
     if pte = 0 then panicK ''clearpteu''
     else modifyK (\<lambda>s. s\<lparr>mem := store32 (mem s) pte (load32 (mem s) pte AND NOT PTE_U)\<rparr>))"

fun copyuvm_loop ::
  "nat \<Rightarrow> uint32 \<Rightarrow> uint32 \<Rightarrow> uint32 \<Rightarrow> uint32 \<Rightarrow> (uint32, 'z vmachine_scheme) kern" where
  "copyuvm_loop 0 pgdir d i sz = (\<lambda>s. Spin)"
| "copyuvm_loop (Suc n) pgdir d i sz =
     (if i < sz then
        bindK (walkpgdir pgdir i False) (\<lambda>pte.
        if pte = 0 then panicK ''copyuvm: pte should exist''
        else bindK (getsK (\<lambda>s. load32 (mem s) pte)) (\<lambda>e.
          if e AND PTE_P = 0 then panicK ''copyuvm: page not present''
          else bindK kalloc (\<lambda>m.
            if m = 0 then thenK (freevm d) (retK 0)
            else thenK (modifyK (\<lambda>s. s\<lparr>mem := memmove (mem s) m (P2V (PTE_ADDR e)) PGSIZE\<rparr>))
              (bindK (mappages d i PGSIZE (V2P m) (PTE_FLAGS e)) (\<lambda>r.
               if r < 0 then thenK (kfree m) (thenK (freevm d) (retK 0))
               else copyuvm_loop n pgdir d (i + PGSIZE) sz)))))
      else retK d)"

definition copyuvm :: "uint32 \<Rightarrow> uint32 \<Rightarrow> (uint32, 'z vmachine_scheme) kern" where
  "copyuvm pgdir sz =
     bindK setupkvm (\<lambda>d. if d = 0 then retK 0 else copyuvm_loop NPAGES pgdir d 0 sz)"

text \<open>
  How the kernel reads an address below \<^verbatim>\<open>KERNBASE\<close>: through the page table in \<^verbatim>\<open>cr3\<close>. \<open>pte_of\<close>
  is the two-level walk of the hardware.
\<close>

definition pte_of :: "memory \<Rightarrow> uint32 \<Rightarrow> uint32 \<Rightarrow> uint32 option" where
  "pte_of m pgdir va =
     (let pde = load32 m (pgdir + 4 * PDX va)
      in if pde AND PTE_P = 0 then None
         else let pte = load32 m (P2V (PTE_ADDR pde) + 4 * PTX va)
              in if pte AND PTE_P = 0 then None else Some pte)"

definition kaddr :: "'z vmachine_scheme \<Rightarrow> uint32 \<Rightarrow> uint32 option" where
  "kaddr s a =
     (if a \<ge> KERNBASE then Some a
      else map_option (\<lambda>e. P2V (PTE_ADDR e) + (a AND 0xFFF)) (pte_of (mem s) (P2V (cr3 s)) a))"

text \<open>
  Kernel code that dereferences a user pointer: each byte goes through the current page
  table, and a byte that is not mapped is a fault.
\<close>

definition kload32 :: "uint32 \<Rightarrow> (uint32, 'z vmachine_scheme) kern" where
  "kload32 a s =
     (case (kaddr s a, kaddr s (a + 1), kaddr s (a + 2), kaddr s (a + 3)) of
        (Some b0, Some b1, Some b2, Some b3) \<Rightarrow>
          Ret (ucast (mem s b0) OR push_bit 8 (ucast (mem s b1))
               OR push_bit 16 (ucast (mem s b2)) OR push_bit 24 (ucast (mem s b3))) s
      | _ \<Rightarrow> Fault)"

definition kstore32 :: "uint32 \<Rightarrow> uint32 \<Rightarrow> (unit, 'z vmachine_scheme) kern" where
  "kstore32 a v s =
     (case (kaddr s a, kaddr s (a + 1), kaddr s (a + 2), kaddr s (a + 3)) of
        (Some b0, Some b1, Some b2, Some b3) \<Rightarrow>
          Ret () (s\<lparr>mem := (mem s)(b0 := ucast v, b1 := ucast (drop_bit 8 v),
            b2 := ucast (drop_bit 16 v), b3 := ucast (drop_bit 24 v))\<rparr>)
      | _ \<Rightarrow> Fault)"

text \<open>
  \<^verbatim>\<open>uva2ka\<close> dereferences the result of \<^verbatim>\<open>walkpgdir\<close> without testing it: when there is no page
  table for the address it reads the word at address 0 of the current address space.
\<close>

definition uva2ka :: "uint32 \<Rightarrow> uint32 \<Rightarrow> (uint32, 'z vmachine_scheme) kern" where
  "uva2ka pgdir uva =
     bindK (walkpgdir pgdir uva False) (\<lambda>pte s.
     case kaddr s pte of
       None \<Rightarrow> Fault
     | Some a \<Rightarrow>
         (let e = load32 (mem s) a
          in if e AND PTE_P = 0 then Ret 0 s
             else if e AND PTE_U = 0 then Ret 0 s
             else Ret (P2V (PTE_ADDR e)) s))"

function copyout :: "uint32 \<Rightarrow> uint32 \<Rightarrow> uint32 \<Rightarrow> uint32 \<Rightarrow> (int, 'z vmachine_scheme) kern" where
  "copyout pgdir va p len s =
     (if len > 0 then
        (let va0 = PGROUNDDOWN va
         in case uva2ka pgdir va0 s of
              Ret pa0 s' \<Rightarrow>
                (if pa0 = 0 then Ret (- 1) s'
                 else let n0 = PGSIZE - (va - va0); n = (if n0 > len then len else n0)
                      in copyout pgdir (va0 + PGSIZE) (p + n) (len - n)
                           (s'\<lparr>mem := memmove (mem s') (pa0 + (va - va0)) p n\<rparr>))
            | Panic m \<Rightarrow> Panic m | Block s' \<Rightarrow> Block s' | Spin \<Rightarrow> Spin | Fault \<Rightarrow> Fault)
      else Ret 0 s)"
  by pat_completeness auto
termination
proof (relation "measure (\<lambda>(pgdir, va, p, len, s). unat len)")
  fix pgdir va p len :: uint32 and s :: "'z vmachine_scheme" and va0 pa0 s' n0 n
  assume len: "len > 0" and va0: "va0 = PGROUNDDOWN va" and n0: "n0 = PGSIZE - (va - va0)"
    and n: "n = (if n0 > len then len else n0)"
  have "unat va = unat va0 + unat va mod 4096" using va0 by (simp add: unat_PGROUNDDOWN)
  moreover have "va0 \<le> va" using va0 by (simp add: PGROUNDDOWN_le)
  ultimately have "unat (va - va0) < 4096" by (simp add: unat_sub)
  then have "n0 \<noteq> 0" using n0 by (auto simp: word_less_nat_alt)
  then have "n \<noteq> 0" "n \<le> len" using n len by (auto simp: word_gt_0)
  moreover from this have "0 < unat n" by (simp add: unat_gt_0)
  ultimately have "unat (len - n) < unat len" by (simp add: unat_sub word_le_nat_alt)
  then show "((pgdir, va0 + PGSIZE, p + n, len - n, s'\<lparr>mem := memmove (mem s') (pa0 + (va - va0)) p n\<rparr>),
      (pgdir, va, p, len, s)) \<in> measure (\<lambda>(pgdir, va, p, len, s). unat len)"
    by simp
qed simp

declare copyout.simps [simp del]

section \<open>What the allocator and the page tables leave alone\<close>

text \<open>
  \<open>tables_only I\<close>: \<open>I\<close> looks only at the tables that later components add to the state. The
  allocator, the page-table code and the locks preserve every such property.
\<close>

definition tables_only :: "('z vmachine_scheme \<Rightarrow> bool) \<Rightarrow> bool" where
  "tables_only I \<longleftrightarrow> (\<forall>s t. vmachine.more t = vmachine.more s \<longrightarrow> I s = I t)"

lemma tables_only_eq:
  assumes "tables_only I"
  shows "I (s\<lparr>mem := m\<rparr>) = I s" "I (s\<lparr>freelist := a\<rparr>) = I s" "I (s\<lparr>mem := m, freelist := a\<rparr>) = I s"
    "I (s\<lparr>cr3 := v\<rparr>) = I s" "I (s\<lparr>tr := w\<rparr>) = I s" "I (s\<lparr>kout := os\<rparr>) = I s" "I (s\<lparr>kpgdir := d\<rparr>) = I s"
    "I (s\<lparr>locks := l\<rparr>) = I s" "I (s\<lparr>cpus := cs\<rparr>) = I s" "I (upd_cpu c f s) = I s"
proof -
  have eq: "I t = I s" if "vmachine.more t = vmachine.more s" for t
    using assms that unfolding tables_only_def by metis
  show "I (s\<lparr>mem := m\<rparr>) = I s" "I (s\<lparr>freelist := a\<rparr>) = I s" "I (s\<lparr>mem := m, freelist := a\<rparr>) = I s"
    "I (s\<lparr>cr3 := v\<rparr>) = I s" "I (s\<lparr>tr := w\<rparr>) = I s" "I (s\<lparr>kout := os\<rparr>) = I s" "I (s\<lparr>kpgdir := d\<rparr>) = I s"
    "I (s\<lparr>locks := l\<rparr>) = I s" "I (s\<lparr>cpus := cs\<rparr>) = I s" "I (upd_cpu c f s) = I s"
    by (rule eq; simp add: upd_cpu_def)+
qed

lemma vmachine_more:
  "machine.more t = machine.more s \<Longrightarrow> vmachine.more t = vmachine.more s"
  by (cases s; cases t) simp

lemma tables_sees_only [keep_intros]: "tables_only I \<Longrightarrow> sees_only I"
  unfolding tables_only_def sees_only_def using vmachine_more by blast

lemma keep_tables_kalloc [keep_intros]: "tables_only I \<Longrightarrow> preservesK I kalloc"
  unfolding kalloc_def by (intro keep_intros tables_sees_only) (simp_all add: tables_only_eq)

lemma keep_tables_kfree [keep_intros]: "tables_only I \<Longrightarrow> preservesK I (kfree v)"
  unfolding kfree_def by (intro keep_intros tables_sees_only) (simp_all add: tables_only_eq)

lemma keep_tables_regs [keep_intros]:
  "tables_only I \<Longrightarrow> preservesK I (lcr3 v)" "tables_only I \<Longrightarrow> preservesK I (ltr w)"
  "tables_only I \<Longrightarrow> preservesK I (cprint m as)"
  unfolding lcr3_def ltr_def cprint_def by (intro keep_intros; simp add: tables_only_eq)+

lemma keep_tables_walkpgdir [keep_intros]: "tables_only I \<Longrightarrow> preservesK I (walkpgdir d va al)"
  unfolding walkpgdir_def by (intro keep_intros) (simp_all add: tables_only_eq)

lemma keep_tables_mappages [keep_intros]: "tables_only I \<Longrightarrow> preservesK I (mappages d va n pa perm)"
proof -
  assume t: "tables_only I"
  have "preservesK I (mappages_loop N d a l pa perm)" for N a l pa
    by (induction N arbitrary: a pa) (simp only: mappages_loop.simps; intro keep_intros t; simp add: tables_only_eq [OF t])+
  then show ?thesis by (simp add: mappages_def)
qed

lemma keep_tables_deallocuvm [keep_intros]: "tables_only I \<Longrightarrow> preservesK I (deallocuvm d old new)"
proof -
  assume t: "tables_only I"
  have "preservesK I (deallocuvm_loop N d a l)" for N a l
    by (induction N arbitrary: a) (simp only: deallocuvm_loop.simps; intro keep_intros t; simp add: tables_only_eq [OF t])+
  then show ?thesis unfolding deallocuvm_def by (intro keep_intros)
qed

lemma keep_tables_freevm [keep_intros]: "tables_only I \<Longrightarrow> preservesK I (freevm d)"
  unfolding freevm_def by (intro keep_intros)

lemma keep_tables_setupkvm [keep_intros]: "tables_only I \<Longrightarrow> preservesK I setupkvm"
proof -
  assume t: "tables_only I"
  have "preservesK I (setupkvm_loop d ks)" for d ks
  proof (induction ks)
    case (Cons k ks)
    then show ?case by (cases k) (simp only: setupkvm_loop.simps; intro keep_intros t)
  qed (simp only: setupkvm_loop.simps preservesK_pure)
  then show ?thesis unfolding setupkvm_def by (intro keep_intros t) (simp_all add: tables_only_eq [OF t])
qed

lemma keep_tables_allocuvm [keep_intros]: "tables_only I \<Longrightarrow> preservesK I (allocuvm d old new)"
proof -
  assume t: "tables_only I"
  have "preservesK I (allocuvm_loop N d a old new)" for N a
    by (induction N arbitrary: a) (simp only: allocuvm_loop.simps; intro keep_intros t; simp add: tables_only_eq [OF t])+
  then show ?thesis unfolding allocuvm_def by (intro keep_intros)
qed

lemma keep_tables_copyuvm [keep_intros]: "tables_only I \<Longrightarrow> preservesK I (copyuvm d z)"
proof -
  assume t: "tables_only I"
  have "preservesK I (copyuvm_loop N p d i z)" for N p d i
    by (induction N arbitrary: i) (simp only: copyuvm_loop.simps; intro keep_intros t; simp add: tables_only_eq [OF t])+
  then show ?thesis unfolding copyuvm_def by (intro keep_intros t)
qed

lemma keep_tables_access [keep_intros]:
  "tables_only I \<Longrightarrow> preservesK I (kload32 a)" "tables_only I \<Longrightarrow> preservesK I (kstore32 a v)"
  by (auto simp: preservesK_def kload32_def kstore32_def tables_only_eq split: option.splits)

end
