(* ===== verification/Page_Table.thy ===== *)
theory Page_Table
  imports Vm "HOL-Library.Sublist"
begin

text \<open>
  Correctness of the page-table operations of \<^verbatim>\<open>vm.c\<close>. \<open>pt_inv\<close> is the invariant of a page
  directory with its page tables and the free list; \<open>walkpgdir\<close> and \<open>mappages\<close> keep it, and
  what they do to the translation \<open>pte_of\<close> is stated for every virtual address.
\<close>

section \<open>Words inside pages\<close>

text \<open>\<open>frame p\<close>: \<open>p\<close> is the address of a page whose words can be addressed without wrap-around.\<close>

definition frame :: "uint32 \<Rightarrow> bool" where
  "frame p \<longleftrightarrow> unat p mod 4096 = 0 \<and> unat p \<le> 4294963200"

lemma kpage_frame: "kpage s p \<Longrightarrow> frame p"
  using V2P_below(1) [of p] kpage_unat [of s p] by (simp add: frame_def kpage_def)

lemma unat_slot:
  assumes "frame p" and "i < 1024"
  shows "unat (p + 4 * i) = unat p + 4 * unat i"
proof -
  have "unat i < 1024" using assms(2) by (simp add: word_less_nat_alt)
  then have "unat (4 * i) = 4 * unat i" by (simp add: unat_word_ariths)
  moreover from this have "unat p + unat (4 * i) < 4294967296"
    using assms(1) \<open>unat i < 1024\<close> by (simp add: frame_def)
  ultimately show ?thesis by (simp add: unat_word_ariths)
qed

lemma slot_inject:
  fixes p q i j :: uint32
  assumes "frame p" and "frame q" and "i < 1024" and "j < 1024" and "unat p + 4 * unat i = unat q + 4 * unat j"
  shows "p = q \<and> i = j"
proof -
  have ij: "unat i < 1024" "unat j < 1024" using assms(3,4) by (simp_all add: word_less_nat_alt)
  obtain k l where kl: "unat p = 4096 * k" "unat q = 4096 * l"
    using assms(1,2) unfolding frame_def by (metis mod_0_imp_dvd dvdE)
  then have eq: "4096 * k + 4 * unat i = 4096 * l + 4 * unat j" using assms(5) by simp
  have "(4096 * k + 4 * unat i) div 4096 = k" "(4096 * l + 4 * unat j) div 4096 = l"
    using ij by (intro div_nat_eqI; simp)+
  with eq have "k = l" by simp
  with eq kl show ?thesis by (simp add: word_unat_eq_iff)
qed

lemma load32_store32_apart:
  assumes "unat a mod 4 = 0" and "unat b mod 4 = 0" and "unat a \<le> 4294967292" and "unat b \<le> 4294967292"
    and "a \<noteq> b"
  shows "load32 (store32 m a v) b = load32 m b"
proof (rule load32_store32_disjoint)
  fix x assume "in_range x b 4"
  then have x: "unat b \<le> unat x" "unat x < unat b + 4" using in_range_unat [of b 4 x] assms(4) by simp_all
  show "\<not> in_range x a 4"
  proof
    assume "in_range x a 4"
    then have y: "unat a \<le> unat x" "unat x < unat a + 4" using in_range_unat [of a 4 x] assms(3) by simp_all
    obtain k l where kl: "unat a = 4 * k" "unat b = 4 * l"
      using assms(1,2) by (metis mod_0_imp_dvd dvdE)
    have "unat x div 4 = k" "unat x div 4 = l" using x y kl by (intro div_nat_eqI; simp)+
    with kl assms(5) show False by (simp add: word_unat_eq_iff)
  qed
qed

lemma slot_aligned:
  assumes "frame p" and "i < 1024"
  shows "unat (p + 4 * i) mod 4 = 0" and "unat (p + 4 * i) \<le> 4294967292"
proof -
  have "unat p mod 4 = 0" using assms(1) mod_mod_cancel [of 4 4096 "unat p"] by (simp add: frame_def)
  then show "unat (p + 4 * i) mod 4 = 0" by (simp add: unat_slot [OF assms] mod_add_eq [symmetric])
  show "unat (p + 4 * i) \<le> 4294967292"
    using assms by (simp add: unat_slot frame_def word_less_nat_alt)
qed

lemma load_store_slot:
  assumes "frame p" and "frame q" and "i < 1024" and "j < 1024"
  shows "load32 (store32 m (p + 4 * i) v) (q + 4 * j) =
    (if p = q \<and> i = j then v else load32 m (q + 4 * j))"
proof (cases "p = q \<and> i = j")
  case False
  then have "p + 4 * i \<noteq> q + 4 * j"
    using slot_inject [OF assms] unat_slot [OF assms(1,3)] unat_slot [OF assms(2,4)] by metis
  with False show ?thesis
    using slot_aligned [OF assms(1,3)] slot_aligned [OF assms(2,4)] by (auto simp: load32_store32_apart)
qed simp

lemma slot_in_frame:
  assumes "frame p" and "i < 1024" and "in_range b (p + 4 * i) 4"
  shows "in_range b p 4096"
proof -
  have "unat i < 1024" using assms(2) by (simp add: word_less_nat_alt)
  then show ?thesis
    using assms(3) in_range_unat [of "p + 4 * i" 4 b] in_range_unat [of p 4096 b] assms(1)
      slot_aligned(2) [OF assms(1,2)] unat_slot [OF assms(1,2)] by (simp add: frame_def)
qed

lemma frame_disjoint: "frame p \<Longrightarrow> frame q \<Longrightarrow> p \<noteq> q \<Longrightarrow> in_range b p 4096 \<Longrightarrow> \<not> in_range b q 4096"
proof
  assume pq: "frame p" "frame q" "p \<noteq> q" and b: "in_range b p 4096" "in_range b q 4096"
  obtain k l where kl: "unat p = 4096 * k" "unat q = 4096 * l"
    using pq(1,2) unfolding frame_def by (metis mod_0_imp_dvd dvdE)
  have "unat b div 4096 = k" "unat b div 4096 = l"
    using b in_range_unat [of p 4096 b] in_range_unat [of q 4096 b] pq(1,2) kl
    by (intro div_nat_eqI; simp add: frame_def)+
  with kl pq(3) show False by (simp add: word_unat_eq_iff)
qed

lemma load_slot_cong:
  assumes "frame p" and "i < 1024" and "\<And>b. in_range b p 4096 \<Longrightarrow> m' b = m b"
  shows "load32 m' (p + 4 * i) = load32 m (p + 4 * i)"
  using slot_in_frame [OF assms(1,2)] assms(3) by (intro load32_cong) blast

lemma load_fill_slot:
  assumes "frame p" and "frame q" and "j < 1024"
  shows "load32 (fill m p 0 4096) (q + 4 * j) = (if p = q then 0 else load32 m (q + 4 * j))"
proof (cases "p = q")
  case True
  have "load32 (fill m p 0 4096) (q + 4 * j) = load32 (\<lambda>a. 0) (q + 4 * j)"
    using assms True by (intro load_slot_cong) (simp_all add: fill_def)
  with True show ?thesis by (simp add: load32_def)
next
  case False
  then show ?thesis
    using assms frame_disjoint [of q p] by (auto intro!: load_slot_cong simp: fill_def)
qed

lemma and_3FF_less: "(w AND 0x3FF :: uint32) < 1024"
proof -
  have "w AND 0x3FF = take_bit 10 w" by (simp add: take_bit_eq_mask mask_eq_exp_minus_1)
  moreover have "unat (take_bit 10 w) < 2 ^ 10" by (simp only: unsigned_take_bit_eq take_bit_nat_less_exp)
  ultimately show ?thesis by (simp add: word_less_nat_alt)
qed

lemma PDX_less [simp]: "PDX va < 1024" and PTX_less [simp]: "PTX va < 1024"
  by (simp_all add: PDX_def PTX_def and_3FF_less)

section \<open>Well-formed page tables\<close>

definition pde_at :: "memory \<Rightarrow> uint32 \<Rightarrow> uint32 \<Rightarrow> uint32" where
  "pde_at m d i = load32 m (d + 4 * i)"

definition ptab :: "memory \<Rightarrow> uint32 \<Rightarrow> uint32 \<Rightarrow> uint32" where
  "ptab m d i = P2V (PTE_ADDR (pde_at m d i))"

definition present :: "uint32 \<Rightarrow> bool" where
  "present e \<longleftrightarrow> e AND PTE_P \<noteq> 0"

text \<open>
  The directory and its page tables are pages of their own, none of them free, no page
  table is used by two directory entries, and the allocator's free list is sound.
\<close>

definition pt_inv :: "'z kmachine_scheme \<Rightarrow> uint32 \<Rightarrow> uint32 list \<Rightarrow> bool" where
  "pt_inv s d xs \<longleftrightarrow> kmem_inv s xs \<and> kpage s d \<and> d \<notin> set xs \<and>
     (\<forall>i<1024. present (pde_at (mem s) d i) \<longrightarrow>
        kpage s (ptab (mem s) d i) \<and> ptab (mem s) d i \<notin> set xs \<and> ptab (mem s) d i \<noteq> d) \<and>
     (\<forall>i<1024. \<forall>j<1024. present (pde_at (mem s) d i) \<longrightarrow> present (pde_at (mem s) d j) \<longrightarrow>
        ptab (mem s) d i = ptab (mem s) d j \<longrightarrow> i = j)"

definition keeps :: "nat \<Rightarrow> 'z kmachine_scheme \<Rightarrow> 'z kmachine_scheme \<Rightarrow> bool" where
  "keeps c s t \<longleftrightarrow> same_cpu c s t \<and> kend t = kend s \<and> use_lock t = use_lock s \<and>
     kmachine.more t = kmachine.more s"

lemma keeps_refl [simp]: "keeps c s s"
  by (simp add: keeps_def)

lemma keeps_mem [simp]: "keeps c s (s\<lparr>mem := m\<rparr>)"
  by (simp add: keeps_def)

lemma keeps_trans: "keeps c s t \<Longrightarrow> keeps c t u \<Longrightarrow> keeps c s u"
  using same_cpu_trans [of c s t u] by (simp add: keeps_def)

lemma kready_keeps: "keeps c s t \<Longrightarrow> kready c s \<Longrightarrow> kready c t"
  using kready_same_cpu [of c s t] by (simp add: keeps_def)

lemma pte_of_alt:
  "pte_of m d va =
     (if present (pde_at m d (PDX va))
      then let e = load32 m (ptab m d (PDX va) + 4 * PTX va) in if present e then Some e else None
      else None)"
  by (simp add: pte_of_def pde_at_def ptab_def present_def Let_def)

lemma kmem_inv_mem:
  assumes "kmem_inv s xs" and "\<And>x b. x \<in> set xs \<Longrightarrow> in_range b x 4096 \<Longrightarrow> mem t b = mem s b"
    and "freelist t = freelist s" and "kend t = kend s"
  shows "kmem_inv t xs"
proof -
  have "free_list (mem t) (freelist s) xs = free_list (mem s) (freelist s) xs"
    using assms(2) by (intro free_list_cong load32_page_cong) blast
  then show ?thesis using assms(1,3,4) by (simp add: kmem_inv_def kpage_cong [OF assms(4)])
qed

lemma PTE_ADDR_page:
  assumes "unat a mod 4096 = 0" and "f < 4096"
  shows "PTE_ADDR (a OR f) = a"
proof -
  have "take_bit 12 (unat a) = 0" using assms(1) by (simp add: take_bit_eq_mod)
  then have lo: "\<not> bit a n" if "n < 12" for n
    using that by (metis bit_take_bit_iff bit_0_eq bot_apply bot_bool_def bit_unsigned_iff possible_bit_nat)
  have "take_bit 12 f = f"
    using assms(2)
    by (simp add: word_unat_eq_iff unsigned_take_bit_eq take_bit_nat_eq_self word_less_nat_alt)
  then have hi: "\<not> bit f n" if "12 \<le> n" for n
    using that by (metis bit_take_bit_iff not_le)
  show ?thesis
    by (rule bit_word_eqI) (use lo hi leI in \<open>auto simp: PTE_ADDR_def mask_bits bit_or_iff\<close>)
qed

lemma present_new: "present (a OR PTE_P OR PTE_W OR PTE_U)" "present (a OR f OR PTE_P)"
  by (auto simp: present_def bit_eq_iff [of _ 0] bit_and_iff bit_or_iff intro!: exI [of _ 0])

lemma ptab_new:
  assumes "kpage s x"
  shows "P2V (PTE_ADDR (V2P x OR PTE_P OR PTE_W OR PTE_U)) = x"
proof -
  have "unat (V2P x) mod 4096 = 0"
  proof -
    have "2147483648 \<le> unat x" using assms V2P_below(2) [of x] by (simp add: kpage_def)
    then have "unat (V2P x) = unat x - 2147483648"
      by (simp add: V2P_def unat_sub word_le_nat_alt)
    moreover have "4096 dvd unat x" using kpage_unat [OF assms] by auto
    ultimately show ?thesis by (simp add: dvd_eq_mod_eq_0 flip: dvd_eq_mod_eq_0)
  qed
  then have "PTE_ADDR (V2P x OR 7) = V2P x" by (rule PTE_ADDR_page) simp
  then show ?thesis by (simp add: or.assoc)
qed

text \<open>Linking a zeroed page \<open>x\<close> into directory slot \<open>i\<close>.\<close>

definition link_table :: "memory \<Rightarrow> uint32 \<Rightarrow> uint32 \<Rightarrow> uint32 \<Rightarrow> memory" where
  "link_table m d i x = store32 (fill m x 0 4096) (d + 4 * i) (V2P x OR PTE_P OR PTE_W OR PTE_U)"

lemma link_table_out:
  assumes "frame d" and "i < 1024" and "\<not> in_range b d 4096" and "\<not> in_range b x 4096"
  shows "link_table m d i x b = m b"
proof -
  have "\<not> in_range b (d + 4 * i) 4" using assms(3) slot_in_frame [OF assms(1,2)] by blast
  then show ?thesis using assms(4) by (simp add: link_table_def store32_other fill_def)
qed

lemma link_table_pde:
  assumes "frame d" and "frame x" and "x \<noteq> d" and "i < 1024" and "j < 1024"
  shows "pde_at (link_table m d i x) d j =
    (if j = i then V2P x OR PTE_P OR PTE_W OR PTE_U else pde_at m d j)"
  using assms by (auto simp: pde_at_def link_table_def load_store_slot load_fill_slot)

lemma link_table_load:
  assumes "frame d" and "frame x" and "frame q" and "q \<noteq> d" and "i < 1024" and "j < 1024"
  shows "load32 (link_table m d i x) (q + 4 * j) = (if q = x then 0 else load32 m (q + 4 * j))"
  using assms by (auto simp: link_table_def load_store_slot load_fill_slot)

lemma pt_inv_frames:
  assumes "pt_inv s d xs"
  shows "frame d" and "x \<in> set xs \<Longrightarrow> frame x"
    and "i < 1024 \<Longrightarrow> present (pde_at (mem s) d i) \<Longrightarrow> frame (ptab (mem s) d i)"
  using assms by (auto simp: pt_inv_def kmem_inv_def intro: kpage_frame)

lemma link_table_ptab:
  assumes "kpage s x" and "frame d" and "x \<noteq> d" and "i < 1024" and "j < 1024"
  shows "ptab (link_table m d i x) d j = (if j = i then x else ptab m d j)"
  using assms kpage_frame [OF assms(1)] ptab_new [OF assms(1)] by (simp add: ptab_def link_table_pde)

lemma pt_inv_link:
  assumes inv: "pt_inv s d (x # xs)" and ab: "\<not> present (pde_at (mem s) d i)" and i: "i < 1024"
    and t: "kmem_inv t xs" "mem t = mem s" "kend t = kend s"
  shows "pt_inv (t\<lparr>mem := link_table (mem s) d i x\<rparr>) d xs"
proof -
  have x: "kpage s x" "x \<noteq> d" "x \<notin> set xs" using inv by (auto simp: pt_inv_def kmem_inv_def)
  have fr: "frame d" "frame x" using inv kpage_frame [OF x(1)] by (auto simp: pt_inv_frames)
  have out: "link_table (mem s) d i x b = mem t b" if "y \<in> set xs" "in_range b y 4096" for y b
  proof -
    have "frame y" "y \<noteq> d" "y \<noteq> x"
      using that(1) inv x(3) by (auto simp: pt_inv_def kmem_inv_def intro: kpage_frame)
    then show ?thesis
      using that(2) fr i t(2) frame_disjoint [of y d b] frame_disjoint [of y x b]
      by (simp add: link_table_out)
  qed
  have "kmem_inv (t\<lparr>mem := link_table (mem s) d i x\<rparr>) xs"
    using t(1) by (rule kmem_inv_mem) (simp_all add: out)
  then show ?thesis
    using inv x fr i ab t(3)
    by (auto simp: pt_inv_def link_table_pde link_table_ptab [OF x(1)] kpage_cong [of t s] kpage_def split: if_splits)
qed

lemma pte_of_link:
  assumes inv: "pt_inv s d (x # xs)" and ab: "\<not> present (pde_at (mem s) d i)" and i: "i < 1024"
  shows "pte_of (link_table (mem s) d i x) d va = pte_of (mem s) d va"
proof -
  have x: "kpage s x" "x \<noteq> d" using inv by (auto simp: pt_inv_def kmem_inv_def)
  have fr: "frame d" "frame x" using inv kpage_frame [OF x(1)] by (auto simp: pt_inv_frames)
  show ?thesis
  proof (cases "PDX va = i")
    case True
    then have "load32 (link_table (mem s) d i x) (x + 4 * PTX va) = 0"
      using fr x(2) i by (simp add: link_table_load)
    then show ?thesis
      using True ab fr x i
      by (simp add: pte_of_alt link_table_pde link_table_ptab [OF x(1)] Let_def) (simp add: present_def)
  next
    case False
    have "load32 (link_table (mem s) d i x) (ptab (mem s) d (PDX va) + 4 * PTX va) =
        load32 (mem s) (ptab (mem s) d (PDX va) + 4 * PTX va)" if "present (pde_at (mem s) d (PDX va))"
      using that inv fr i pt_inv_frames(3) [OF inv PDX_less that]
      by (subst link_table_load) (auto simp: pt_inv_def)
    then show ?thesis
      using False fr x i by (simp add: pte_of_alt link_table_pde link_table_ptab [OF x(1)])
  qed
qed

section \<open>walkpgdir\<close>

lemma walkpgdir_present:
  "present (pde_at (mem s) d (PDX va)) \<Longrightarrow>
   walkpgdir d va alloc s = Ret (ptab (mem s) d (PDX va) + 4 * PTX va) s"
  by (simp add: walkpgdir_def present_def pde_at_def ptab_def)

lemma walkpgdir_absent: "\<not> present (pde_at (mem s) d (PDX va)) \<Longrightarrow> walkpgdir d va False s = Ret 0 s"
  by (simp add: walkpgdir_def present_def pde_at_def)

lemma walkpgdir_new:
  assumes inv: "pt_inv s d (x # xs)" and ab: "\<not> present (pde_at (mem s) d (PDX va))" and k: "kready c s"
  shows "\<exists>t. walkpgdir d va True s = Ret (x + 4 * PTX va) t \<and> keeps c s t \<and> pt_inv t d xs \<and>
    mem t = link_table (mem s) d (PDX va) x"
proof -
  have x: "x \<noteq> 0" using inv by (auto simp: pt_inv_def kmem_inv_def dest: kpage_nonzero)
  have "kmem_inv s (x # xs)" using inv by (simp add: pt_inv_def)
  then obtain t where t: "kalloc s = Ret x t" "kmem_inv t xs" "same_cpu c s t" "mem t = mem s"
      "kend t = kend s" "use_lock t = use_lock s" "kmachine.more t = kmachine.more s"
    using kalloc_inv_Cons [OF _ k] by blast
  let ?u = "t\<lparr>mem := link_table (mem s) d (PDX va) x\<rparr>"
  have "walkpgdir d va True s = Ret (x + 4 * PTX va) ?u"
    using ab t(1,4) x
    by (simp add: walkpgdir_def present_def pde_at_def bindK_def memset_fill link_table_def)
  moreover have "pt_inv ?u d xs" by (rule pt_inv_link [OF inv ab PDX_less t(2,4,5)])
  moreover have "keeps c s ?u"
    using t same_cpu_trans [OF t(3) same_cpu_mem] by (simp add: keeps_def)
  ultimately show ?thesis by auto
qed

lemma walkpgdir_full:
  assumes inv: "pt_inv s d []" and ab: "\<not> present (pde_at (mem s) d (PDX va))" and k: "kready c s"
  shows "\<exists>t. walkpgdir d va True s = Ret 0 t \<and> keeps c s t \<and> pt_inv t d [] \<and> mem t = mem s"
proof -
  have "kmem_inv s []" using inv by (simp add: pt_inv_def)
  then obtain t where t: "kalloc s = Ret 0 t" "kmem_inv t []" "same_cpu c s t" "mem t = mem s"
      "kend t = kend s" "use_lock t = use_lock s" "kmachine.more t = kmachine.more s"
    using kalloc_inv_Nil [OF _ k] by blast
  have "walkpgdir d va True s = Ret 0 t"
    using ab t(1) by (simp add: walkpgdir_def present_def pde_at_def bindK_def)
  moreover have "pt_inv t d []"
    using inv t(2,4) kpage_cong [OF t(5)] by (simp add: pt_inv_def)
  ultimately show ?thesis using t by (simp add: keeps_def)
qed

text \<open>
  \<open>slot t d va pte\<close>: \<open>pte\<close> is the address of the entry for \<open>va\<close>. \<open>outside s d xs b\<close>: the byte at \<open>b\<close>
  belongs neither to a free page nor to this directory and its tables.
\<close>

definition slot :: "memory \<Rightarrow> uint32 \<Rightarrow> uint32 \<Rightarrow> uint32 \<Rightarrow> bool" where
  "slot m d va pte \<longleftrightarrow> present (pde_at m d (PDX va)) \<and> pte = ptab m d (PDX va) + 4 * PTX va"

definition outside :: "memory \<Rightarrow> uint32 \<Rightarrow> uint32 list \<Rightarrow> uint32 \<Rightarrow> bool" where
  "outside m d xs b \<longleftrightarrow> \<not> in_range b d 4096 \<and> (\<forall>x\<in>set xs. \<not> in_range b x 4096) \<and>
     (\<forall>i<1024. present (pde_at m d i) \<longrightarrow> \<not> in_range b (ptab m d i) 4096)"

lemma slot_nonzero:
  assumes "pt_inv s d xs" and "slot (mem s) d va pte"
  shows "pte \<noteq> 0"
proof -
  have kp: "kpage s (ptab (mem s) d (PDX va))" using assms by (auto simp: pt_inv_def slot_def)
  then have "unat pte = unat (ptab (mem s) d (PDX va)) + 4 * unat (PTX va)"
    using assms(2) unat_slot [OF kpage_frame [OF kp] PTX_less] by (simp add: slot_def)
  moreover have "2147483648 \<le> unat (ptab (mem s) d (PDX va))"
    using kp V2P_below(2) by (auto simp: kpage_def)
  ultimately show ?thesis by auto
qed

lemma walkpgdir_alloc:
  assumes inv: "pt_inv s d xs" and k: "kready c s"
  shows "\<exists>pte t ys. walkpgdir d va True s = Ret pte t \<and> keeps c s t \<and> pt_inv t d ys \<and> suffix ys xs \<and>
    (\<forall>va'. pte_of (mem t) d va' = pte_of (mem s) d va') \<and>
    (\<forall>b. outside (mem s) d xs b \<longrightarrow> mem t b = mem s b \<and> outside (mem t) d ys b) \<and>
    length xs \<le> Suc (length ys) \<and> (if pte = 0 then xs = [] else slot (mem t) d va pte)"
proof (cases "present (pde_at (mem s) d (PDX va))")
  case True
  then have "slot (mem s) d va (ptab (mem s) d (PDX va) + 4 * PTX va)" by (simp add: slot_def)
  with True inv slot_nonzero [OF inv this] show ?thesis
    by (auto simp: walkpgdir_present intro!: exI [of _ xs])
next
  case ab: False
  show ?thesis
  proof (cases xs)
    case Nil
    then show ?thesis using walkpgdir_full [OF _ ab k] inv by fastforce
  next
    case (Cons x ys)
    note inv' = inv [unfolded Cons]
    obtain t where t: "walkpgdir d va True s = Ret (x + 4 * PTX va) t" "keeps c s t" "pt_inv t d ys"
      "mem t = link_table (mem s) d (PDX va) x"
      using walkpgdir_new [OF inv' ab k] by blast
    have x: "kpage s x" "x \<noteq> d" using inv' by (auto simp: pt_inv_def kmem_inv_def)
    have fr: "frame d" "frame x" using inv' kpage_frame [OF x(1)] by (auto simp: pt_inv_frames)
    have sl: "slot (mem t) d va (x + 4 * PTX va)"
      using t(4) fr x present_new by (simp add: slot_def link_table_pde link_table_ptab [OF x(1)])
    have "outside (mem s) d xs b \<Longrightarrow> mem t b = mem s b \<and> outside (mem t) d ys b" for b
      using t(4) fr x Cons
      by (auto simp: outside_def link_table_out link_table_pde link_table_ptab [OF x(1)])
    then show ?thesis
      using t sl slot_nonzero [OF t(3) sl] pte_of_link [OF inv' ab PDX_less] Cons
      by (auto simp: suffix_ConsI)
  qed
qed

section \<open>Writing an entry\<close>

lemma store_pte:
  fixes e :: uint32 and s :: "'z kmachine_scheme"
  assumes inv: "pt_inv s d xs" and sl: "slot (mem s) d va pte"
  defines "t \<equiv> s\<lparr>mem := store32 (mem s) pte e\<rparr>"
  shows "pt_inv t d xs"
    and "pte_of (mem t) d va' = (if PDX va' = PDX va \<and> PTX va' = PTX va
           then if present e then Some e else None else pte_of (mem s) d va')"
    and "outside (mem s) d xs b \<Longrightarrow> mem t b = mem s b \<and> outside (mem t) d xs b"
proof -
  let ?q = "ptab (mem s) d (PDX va)"
  have pte: "pte = ?q + 4 * PTX va" and pr: "present (pde_at (mem s) d (PDX va))"
    using sl by (simp_all add: slot_def)
  have q: "?q \<noteq> d" "?q \<notin> set xs" "frame ?q" and d: "frame d"
    using inv pr pt_inv_frames [OF inv] by (auto simp: pt_inv_def)
  have pde: "pde_at (mem t) d i = pde_at (mem s) d i" if "i < 1024" for i
    using that q d by (simp add: t_def pde_at_def pte load_store_slot)
  then have tab: "ptab (mem t) d i = ptab (mem s) d i" if "i < 1024" for i
    using that by (simp add: ptab_def)
  have out: "mem t b = mem s b" if "\<not> in_range b ?q 4096" for b
    using that slot_in_frame [OF q(3) PTX_less] by (auto simp: t_def pte intro!: store32_other)
  have "kmem_inv t xs"
  proof (rule kmem_inv_mem)
    show "kmem_inv s xs" using inv by (simp add: pt_inv_def)
    show "mem t b = mem s b" if "x \<in> set xs" "in_range b x 4096" for x b
      using that q frame_disjoint [of x ?q b] pt_inv_frames(2) [OF inv, of x] by (intro out) auto
  qed (simp_all add: t_def)
  then show "pt_inv t d xs"
    using inv pde tab kpage_cong [of t s] by (simp add: pt_inv_def t_def)
  show "outside (mem s) d xs b \<Longrightarrow> mem t b = mem s b \<and> outside (mem t) d xs b"
    using pde tab out pr by (auto simp: outside_def)
  have "load32 (mem t) (ptab (mem s) d (PDX va') + 4 * PTX va') =
      (if PDX va' = PDX va \<and> PTX va' = PTX va then e
       else load32 (mem s) (ptab (mem s) d (PDX va') + 4 * PTX va'))"
    if p': "present (pde_at (mem s) d (PDX va'))"
  proof -
    have "ptab (mem s) d (PDX va') = ?q \<longleftrightarrow> PDX va' = PDX va"
      using inv pr p' by (auto simp: pt_inv_def)
    then show ?thesis
      using q pt_inv_frames(3) [OF inv PDX_less p'] by (auto simp: t_def pte load_store_slot)
  qed
  then show "pte_of (mem t) d va' = (if PDX va' = PDX va \<and> PTX va' = PTX va
      then if present e then Some e else None else pte_of (mem s) d va')"
    using pr pde [OF PDX_less, of va'] tab [OF PDX_less, of va'] by (auto simp: pte_of_alt Let_def)
qed

lemma page_indices: "PDX a = PDX b \<and> PTX a = PTX b \<longleftrightarrow> PGROUNDDOWN a = PGROUNDDOWN b"
proof
  have eq: "PGROUNDDOWN x = PGADDR (PDX x) (PTX x) 0" for x
  proof (rule bit_word_eqI)
    fix n assume "n < LENGTH(32)"
    then consider "n < 12" | "12 \<le> n" "n < 22" | "22 \<le> n" "n < 32" by fastforce
    then show "bit (PGROUNDDOWN x) n = bit (PGADDR (PDX x) (PTX x) 0) n"
      unfolding PGADDR_def PDX_def PTX_def PGROUNDDOWN_def bit_or_iff bit_push_bit_iff
      by cases (auto simp: mask_bits bit_drop_bit_eq)
  qed
  show "PDX a = PDX b \<and> PTX a = PTX b \<Longrightarrow> PGROUNDDOWN a = PGROUNDDOWN b" by (simp add: eq)
  have "PDX (PGROUNDDOWN x) = PDX x \<and> PTX (PGROUNDDOWN x) = PTX x" for x
  proof -
    have "PGROUNDDOWN x = x AND - 4096" by (simp add: PGROUNDDOWN_def)
    then show ?thesis
      by (intro conjI bit_word_eqI; simp only: PDX_def PTX_def mask_bits bit_drop_bit_eq)
        (auto simp: mask_bits)
  qed
  then show "PGROUNDDOWN a = PGROUNDDOWN b \<Longrightarrow> PDX a = PDX b \<and> PTX a = PTX b" by metis
qed

lemma page_distance:
  assumes "unat a mod 4096 = 0" and "n \<le> 1048575"
  shows "unat (PGROUNDDOWN v - a) < 4096 * Suc n \<longleftrightarrow>
    PGROUNDDOWN v = a \<or> unat (PGROUNDDOWN v - (a + 4096)) < 4096 * n"
proof (cases "PGROUNDDOWN v = a")
  case False
  let ?w = "PGROUNDDOWN v - a"
  have "4096 dvd unat ?w"
  proof -
    have "4096 dvd unat (PGROUNDDOWN v)" "4096 dvd unat a" using assms(1) by (auto simp: unat_PGROUNDDOWN)
    then show ?thesis by (simp add: unat_sub_if_size word_size dvd_diff_nat)
  qed
  moreover have "0 < unat ?w" using False by (simp add: unat_gt_0)
  ultimately have "4096 \<le> unat ?w" by (simp add: dvd_imp_le)
  moreover from this have "unat (?w - 4096) = unat ?w - 4096" by (simp add: unat_sub word_le_nat_alt)
  ultimately show ?thesis using False by (simp add: diff_diff_add) linarith
qed simp

lemma page_distance_self:
  "n \<le> 1048575 \<Longrightarrow> \<not> unat ((a :: uint32) - (a + 4096)) < 4096 * n"
proof -
  assume n: "n \<le> 1048575"
  have "a - (a + 4096) = 4294963200" by simp
  then have "unat (a - (a + 4096)) = 4294963200" by (simp only:) simp
  with n show ?thesis by linarith
qed

lemma PGROUNDDOWN_aligned: "unat a mod 4096 = 0 \<Longrightarrow> PGROUNDDOWN a = a"
  using div_mult_mod_eq [of "unat a" 4096] by (simp add: word_unat_eq_iff unat_PGROUNDDOWN)

section \<open>mappages\<close>

text \<open>\<open>mapped m' m d a n pa perm\<close>: \<open>m'\<close> maps the \<open>n\<close> pages from \<open>a\<close> on to \<open>pa\<close>, and the rest as \<open>m\<close> does.\<close>

definition mapped ::
  "memory \<Rightarrow> memory \<Rightarrow> uint32 \<Rightarrow> uint32 \<Rightarrow> nat \<Rightarrow> uint32 \<Rightarrow> uint32 \<Rightarrow> bool" where
  "mapped m' m d a n pa perm \<longleftrightarrow> (\<forall>va. pte_of m' d va =
     (if unat (PGROUNDDOWN va - a) < 4096 * n
      then Some ((pa + (PGROUNDDOWN va - a)) OR perm OR PTE_P) else pte_of m d va))"

lemma mapped_0: "(\<And>va. pte_of m' d va = pte_of m d va) \<Longrightarrow> mapped m' m d a 0 pa perm"
  by (simp add: mapped_def)

lemma mapped_one:
  assumes "\<And>va. pte_of m' d va = (if PGROUNDDOWN va = a then Some (pa OR perm OR PTE_P) else pte_of m d va)"
    and "unat a mod 4096 = 0"
  shows "mapped m' m d a 1 pa perm"
proof -
  have "unat (PGROUNDDOWN va - a) < 4096 \<longleftrightarrow> PGROUNDDOWN va = a" for va
    using page_distance [OF assms(2), of 0 va] by simp
  then show ?thesis using assms(1) by (simp add: mapped_def)
qed

lemma mapped_Suc:
  assumes "mapped m1 m d a 1 pa perm" and "mapped m2 m1 d (a + 4096) n (pa + 4096) perm"
    and "unat a mod 4096 = 0" and "n \<le> 1048575"
  shows "mapped m2 m d a (Suc n) pa perm"
  unfolding mapped_def
proof
  fix va
  have one: "unat (PGROUNDDOWN va - a) < 4096 \<longleftrightarrow> PGROUNDDOWN va = a"
    using page_distance [OF assms(3), of 0 va] by simp
  note dist = page_distance [OF assms(3,4), of va]
  show "pte_of m2 d va = (if unat (PGROUNDDOWN va - a) < 4096 * Suc n
      then Some ((pa + (PGROUNDDOWN va - a)) OR perm OR PTE_P) else pte_of m d va)"
  proof (cases "PGROUNDDOWN va = a")
    case True
    then show ?thesis
      using assms(1,2) dist page_distance_self [OF assms(4), of a] by (simp add: mapped_def)
  next
    case False
    then show ?thesis using assms(1,2) dist one by (simp add: mapped_def algebra_simps)
  qed
qed

lemma pte_of_slot:
  "slot m d va pte \<Longrightarrow> pte_of m d va = None \<Longrightarrow> load32 m pte AND PTE_P = 0"
  by (auto simp: slot_def pte_of_alt Let_def present_def split: if_splits)

lemma mappages_step:
  assumes inv: "pt_inv s d xs" and k: "kready c s" and a: "unat a mod 4096 = 0"
    and un: "pte_of (mem s) d a = None"
  obtains (full) t where "mappages_loop (Suc N) d a lst pa perm s = Ret (- 1) t" "keeps c s t" "pt_inv t d []" "xs = []"
      "\<And>va. pte_of (mem t) d va = pte_of (mem s) d va"
      "\<And>b. outside (mem s) d xs b \<Longrightarrow> mem t b = mem s b \<and> outside (mem t) d [] b"
  | (stored) t ys where
      "mappages_loop (Suc N) d a lst pa perm s =
         (if a = lst then Ret 0 t else mappages_loop N d (a + 4096) lst (pa + 4096) perm t)"
      "keeps c s t" "pt_inv t d ys" "suffix ys xs" "length xs \<le> Suc (length ys)"
      "mapped (mem t) (mem s) d a 1 pa perm"
      "\<And>b. outside (mem s) d xs b \<Longrightarrow> mem t b = mem s b \<and> outside (mem t) d ys b"
proof -
  obtain pte t ys where w: "walkpgdir d a True s = Ret pte t" "keeps c s t" "pt_inv t d ys" "suffix ys xs"
      "\<And>va. pte_of (mem t) d va = pte_of (mem s) d va"
      "\<And>b. outside (mem s) d xs b \<Longrightarrow> mem t b = mem s b \<and> outside (mem t) d ys b"
      "length xs \<le> Suc (length ys)" "if pte = 0 then xs = [] else slot (mem t) d a pte"
    using walkpgdir_alloc [OF inv k, of a] by metis
  show thesis
  proof (cases "pte = 0")
    case True
    moreover have "ys = []" using True w(4,8) by simp
    ultimately show thesis using w by (intro full [of t]) (simp_all add: bindK_def)
  next
    case False
    then have sl: "slot (mem t) d a pte" using w(8) by simp
    let ?e = "pa OR perm OR PTE_P" and ?u = "t\<lparr>mem := store32 (mem t) pte (pa OR perm OR PTE_P)\<rparr>"
    note st = store_pte [OF w(3) sl, where e = ?e]
    have "load32 (mem t) pte AND PTE_P = 0" using pte_of_slot [OF sl] un w(5) by simp
    then have "mappages_loop (Suc N) d a lst pa perm s =
        (if a = lst then Ret 0 ?u else mappages_loop N d (a + 4096) lst (pa + 4096) perm ?u)"
      using False w(1) by (simp add: bindK_def)
    moreover have "mapped (mem ?u) (mem s) d a 1 pa perm"
      using st(2) present_new(2) w(5) a
      by (intro mapped_one) (simp_all add: page_indices PGROUNDDOWN_aligned)
    ultimately show thesis
      using st(1,3) w keeps_trans [OF w(2) keeps_mem] by (intro stored [of ?u ys]) auto
  qed
qed

lemma mappages_loop_spec:
  assumes "pt_inv s d xs" and "kready c s" and "unat a mod 4096 = 0" and "unat (lst - a) = 4096 * k"
    and "k < N" and "k \<le> 1048575"
    and "\<And>va. unat (PGROUNDDOWN va - a) < 4096 * Suc k \<Longrightarrow> pte_of (mem s) d va = None"
  shows "\<exists>r t ys n. mappages_loop N d a lst pa perm s = Ret r t \<and> keeps c s t \<and> pt_inv t d ys \<and>
    suffix ys xs \<and> n \<le> Suc k \<and> (if n = Suc k then r = 0 else r = - 1 \<and> ys = []) \<and>
    mapped (mem t) (mem s) d a n pa perm \<and>
    (\<forall>b. outside (mem s) d xs b \<longrightarrow> mem t b = mem s b \<and> outside (mem t) d ys b)"
  using assms
proof (induction k arbitrary: N s xs a pa)
  case 0
  obtain N' where N: "N = Suc N'" using 0(5) by (cases N) auto
  have lst: "a = lst" using 0(4) by (simp add: unat_eq_zero)
  have un: "pte_of (mem s) d a = None" using 0(7) [of a] by (simp add: PGROUNDDOWN_aligned [OF 0(3)])
  show ?case
  proof (cases rule: mappages_step [OF 0(1,2,3) un, where N = N' and lst = lst and pa = pa and perm = perm, case_names full stored])
    case (full t)
    then show ?thesis using mapped_0 [of "mem t" d "mem s"] N
      by (intro exI [of _ "- 1"] exI [of _ t] exI [of _ "[]"] exI [of _ 0]) (simp add: suffix_def)
  next
    case (stored t ys)
    then show ?thesis using lst N
      by (intro exI [of _ 0] exI [of _ t] exI [of _ ys] exI [of _ 1]) simp
  qed
next
  case (Suc k)
  obtain N' where N: "N = Suc N'" using Suc.prems(5) by (cases N) auto
  have lst: "a \<noteq> lst" using Suc.prems(4) by auto
  have un: "pte_of (mem s) d a = None"
    using Suc.prems(7) [of a] by (simp add: PGROUNDDOWN_aligned [OF Suc.prems(3)])
  show ?case
  proof (cases rule: mappages_step [OF Suc.prems(1,2,3) un, where N = N' and lst = lst and pa = pa and perm = perm, case_names full stored])
    case (full t)
    then show ?thesis using mapped_0 [of "mem t" d "mem s"] N
      by (intro exI [of _ "- 1"] exI [of _ t] exI [of _ "[]"] exI [of _ 0]) (simp add: suffix_def)
  next
    case (stored t ys)
    have a': "unat (a + 4096) mod 4096 = 0"
      using Suc.prems(3) by (simp add: unat_word_ariths mod_mod_cancel)
    have d': "unat (lst - (a + 4096)) = 4096 * k"
    proof -
      have "4096 \<le> lst - a" using Suc.prems(4) by (simp add: word_le_nat_alt)
      then have "unat (lst - a - 4096) = 4096 * k" using Suc.prems(4) by (simp add: unat_sub)
      then show ?thesis by (simp add: diff_diff_add)
    qed
    have un': "pte_of (mem t) d va = None" if "unat (PGROUNDDOWN va - (a + 4096)) < 4096 * Suc k" for va
    proof -
      have "PGROUNDDOWN va \<noteq> a" using that page_distance_self [of "Suc k" a] Suc.prems(6) by auto
      moreover have "pte_of (mem s) d va = None"
        using Suc.prems(6,7) that page_distance [OF Suc.prems(3), of "Suc k" va] by simp
      ultimately show ?thesis
        using stored(6) page_distance [OF Suc.prems(3), of 0 va] by (simp add: mapped_def)
    qed
    have kN: "k < N'" "k \<le> 1048575" using Suc.prems(5,6) N by simp_all
    obtain r u zs n where u: "mappages_loop N' d (a + 4096) lst (pa + 4096) perm t = Ret r u" "keeps c t u"
        "pt_inv u d zs" "suffix zs ys" "n \<le> Suc k" "if n = Suc k then r = 0 else r = - 1 \<and> zs = []"
        "mapped (mem u) (mem t) d (a + 4096) n (pa + 4096) perm"
        "\<forall>b. outside (mem t) d ys b \<longrightarrow> mem u b = mem t b \<and> outside (mem u) d zs b"
      using Suc.IH [OF stored(3) kready_keeps [OF stored(2) Suc.prems(2)] a' d' kN un', where pa = "pa + 4096"]
      by blast
    have "mapped (mem u) (mem s) d a (Suc n) pa perm"
      using mapped_Suc [OF stored(6) u(7) Suc.prems(3)] u(5) Suc.prems(6) by simp
    then show ?thesis
      using u stored(1,4,7) keeps_trans [OF stored(2) u(2)] lst N
      by (intro exI [of _ r] exI [of _ u] exI [of _ zs] exI [of _ "Suc n"])
        (auto intro: suffix_order.trans)
  qed
qed

section \<open>allocuvm\<close>

lemma pt_inv_outside:
  fixes s :: "'z kmachine_scheme"
  assumes inv: "pt_inv s d xs" and out: "\<forall>b. m b \<noteq> mem s b \<longrightarrow> outside (mem s) d xs b"
  shows "pt_inv (s\<lparr>mem := m\<rparr>) d xs" and "pte_of m d va = pte_of (mem s) d va"
    and "outside m d xs b = outside (mem s) d xs b"
proof -
  have pde: "pde_at m d i = pde_at (mem s) d i" if "i < 1024" for i
    using that out pt_inv_frames(1) [OF inv]
    by (auto simp: pde_at_def outside_def intro!: load_slot_cong)
  then have tab: "ptab m d i = ptab (mem s) d i" if "i < 1024" for i using that by (simp add: ptab_def)
  show "outside m d xs b = outside (mem s) d xs b" using pde tab by (auto simp: outside_def)
  have "kmem_inv (s\<lparr>mem := m\<rparr>) xs"
  proof (rule kmem_inv_mem)
    show "kmem_inv s xs" using inv by (simp add: pt_inv_def)
  qed (use out in \<open>auto simp: outside_def\<close>)
  then show "pt_inv (s\<lparr>mem := m\<rparr>) d xs"
    using inv pde tab kpage_cong [of "s\<lparr>mem := m\<rparr>" s] by (simp add: pt_inv_def)
  have "load32 m (ptab (mem s) d (PDX va) + 4 * PTX va) = load32 (mem s) (ptab (mem s) d (PDX va) + 4 * PTX va)"
    if p: "present (pde_at (mem s) d (PDX va))"
  proof (rule load_slot_cong [OF pt_inv_frames(3) [OF inv PDX_less p] PTX_less])
    fix b assume "in_range b (ptab (mem s) d (PDX va)) 4096"
    then have "\<not> outside (mem s) d xs b" using p PDX_less [of va] by (auto simp: outside_def)
    then show "m b = mem s b" using out by blast
  qed
  then show "pte_of m d va = pte_of (mem s) d va"
    using pde [OF PDX_less, of va] tab [OF PDX_less, of va] by (simp add: pte_of_alt)
qed

lemma kalloc_pt:
  assumes inv: "pt_inv s d (x # xs)" and k: "kready c s"
  obtains t where "kalloc s = Ret x t" "keeps c s t" "mem t = mem s" "pt_inv t d xs"
    "\<And>b. in_range b x 4096 \<Longrightarrow> outside (mem s) d xs b" "x \<noteq> 0" "frame x"
proof -
  have "kmem_inv s (x # xs)" using inv by (simp add: pt_inv_def)
  then obtain t where t: "kalloc s = Ret x t" "kmem_inv t xs" "same_cpu c s t" "mem t = mem s"
      "kend t = kend s" "use_lock t = use_lock s" "kmachine.more t = kmachine.more s"
    using kalloc_inv_Cons [OF _ k] by blast
  have fr: "frame x" using pt_inv_frames(2) [OF inv, of x] by simp
  have "outside (mem s) d xs b" if "in_range b x 4096" for b
    unfolding outside_def
  proof (intro conjI ballI allI impI)
    show "\<not> in_range b d 4096"
      using inv by (intro frame_disjoint [OF fr pt_inv_frames(1) [OF inv] _ that]) (auto simp: pt_inv_def)
    show "\<not> in_range b y 4096" if "y \<in> set xs" for y
      using inv that by (intro frame_disjoint [OF fr _ _ \<open>in_range b x 4096\<close>])
        (auto simp: pt_inv_def kmem_inv_def intro: kpage_frame)
    show "\<not> in_range b (ptab (mem s) d i) 4096" if "i < 1024" "present (pde_at (mem s) d i)" for i
      using inv that by (intro frame_disjoint [OF fr pt_inv_frames(3) [OF inv that] _ \<open>in_range b x 4096\<close>])
        (auto simp: pt_inv_def)
  qed
  moreover have "pt_inv t d xs" using inv t(2,4) kpage_cong [OF t(5)] by (auto simp: pt_inv_def)
  moreover have "x \<noteq> 0" using inv by (auto simp: pt_inv_def kmem_inv_def dest: kpage_nonzero)
  ultimately show thesis using t fr by (intro that [of t]) (simp_all add: keeps_def)
qed

text \<open>\<open>backed m' m d a fs\<close>: \<open>m'\<close> maps the pages from \<open>a\<close> on to the frames \<open>fs\<close>, writable by the user.\<close>

definition backed :: "memory \<Rightarrow> memory \<Rightarrow> uint32 \<Rightarrow> uint32 \<Rightarrow> uint32 list \<Rightarrow> bool" where
  "backed m' m d a fs \<longleftrightarrow> (\<forall>va. pte_of m' d va =
     (let k = unat (PGROUNDDOWN va - a)
      in if k < 4096 * length fs then Some (V2P (fs ! (k div 4096)) OR (PTE_W OR PTE_U) OR PTE_P)
         else pte_of m d va))"

lemma backed_Cons:
  assumes "mapped m1 m d a 1 (V2P x) (PTE_W OR PTE_U)" and "backed m2 m1 d (a + 4096) fs"
    and "unat a mod 4096 = 0" and "length fs \<le> 1048575"
  shows "backed m2 m d a (x # fs)"
  unfolding backed_def Let_def
proof
  fix va
  have one: "unat (PGROUNDDOWN va - a) < 4096 \<longleftrightarrow> PGROUNDDOWN va = a"
    using page_distance [OF assms(3), of 0 va] by simp
  note dist = page_distance [OF assms(3,4), of va]
  show "pte_of m2 d va = (if unat (PGROUNDDOWN va - a) < 4096 * length (x # fs)
      then Some (V2P ((x # fs) ! (unat (PGROUNDDOWN va - a) div 4096)) OR (PTE_W OR PTE_U) OR PTE_P)
      else pte_of m d va)"
  proof (cases "PGROUNDDOWN va = a")
    case True
    then show ?thesis
      using assms(1,2) dist page_distance_self [OF assms(4), of a] by (simp add: mapped_def backed_def)
  next
    case False
    then have ge: "4096 \<le> unat (PGROUNDDOWN va - a)" using one by simp
    then have "unat (PGROUNDDOWN va - (a + 4096)) = unat (PGROUNDDOWN va - a) - 4096"
      using unat_sub [of 4096 "PGROUNDDOWN va - a"] by (simp add: word_le_nat_alt diff_diff_add)
    moreover from this ge have "unat (PGROUNDDOWN va - a) div 4096 = Suc (unat (PGROUNDDOWN va - (a + 4096)) div 4096)"
      using le_div_geq [of 4096 "unat (PGROUNDDOWN va - a)"] by simp
    ultimately show ?thesis using False assms(1,2) dist one by (simp add: mapped_def backed_def Let_def)
  qed
qed

lemma PGROUNDDOWN_last:
  assumes "unat a mod 4096 = 0" and "unat a \<le> 4294963200"
  shows "PGROUNDDOWN (a + PGSIZE - 1) = a"
proof -
  have "unat (a + 4095) = unat a + 4095" using assms(2) by (simp add: unat_word_ariths)
  moreover obtain k where "unat a = 4096 * k" using assms(1) by (metis mod_0_imp_dvd dvdE)
  moreover from this have "(unat a + 4095) div 4096 = k" by simp
  ultimately have "unat (PGROUNDDOWN (a + 4095)) = unat a" by (simp add: unat_PGROUNDDOWN)
  then show ?thesis by (simp add: word_unat_eq_iff add_diff_eq [symmetric])
qed

lemma NPAGES_Suc: "\<exists>M. NPAGES = Suc M"
  by (rule exI [of _ 1048575]) (simp add: NPAGES_def)

lemma allocuvm_page:
  assumes inv: "pt_inv s d (x # xs)" and k: "kready c s" and a: "unat a mod 4096 = 0" "unat a \<le> 4294963200"
    and xs: "xs \<noteq> []" and un: "pte_of (mem s) d a = None" and lt: "a < new"
  obtains t ys where "allocuvm_loop (Suc N) d a old new s = allocuvm_loop N d (a + 4096) old new t"
    "keeps c s t" "pt_inv t d ys" "suffix ys xs" "length xs \<le> Suc (length ys)"
    "mapped (mem t) (mem s) d a 1 (V2P x) (PTE_W OR PTE_U)"
    "\<And>b. in_range b x 4096 \<Longrightarrow> mem t b = 0 \<and> outside (mem t) d ys b"
    "\<And>b. outside (mem s) d (x # xs) b \<Longrightarrow> mem t b = mem s b \<and> outside (mem t) d ys b"
proof -
  obtain t where t: "kalloc s = Ret x t" "keeps c s t" "mem t = mem s" "pt_inv t d xs"
    "\<And>b. in_range b x 4096 \<Longrightarrow> outside (mem s) d xs b" "x \<noteq> 0" "frame x"
    by (rule kalloc_pt [OF inv k]) (rule that)
  let ?m = "fill (mem s) x 0 4096" and ?u = "t\<lparr>mem := fill (mem s) x 0 4096\<rparr>"
  have diff: "\<forall>b. ?m b \<noteq> mem t b \<longrightarrow> outside (mem t) d xs b"
    using t(3,5) by (auto simp: fill_def split: if_splits)
  note out = pt_inv_outside [where m = ?m, OF t(4) diff]
  have ku: "keeps c s ?u" using keeps_trans [OF t(2) keeps_mem] .
  have un': "pte_of (mem ?u) d a = None" using un out(2) [of a] t(3) by simp
  have out_u: "outside (mem ?u) d xs b = outside (mem s) d xs b" for b using out(3) [of b] t(3) by simp
  have page: "outside (mem ?u) d xs b \<and> mem ?u b = 0" if "in_range b x 4096" for b
    using t(5) [OF that] out_u that by (simp add: fill_def del: kmachine.simps)
  have other: "mem ?u b = mem s b \<and> outside (mem ?u) d xs b" if "outside (mem s) d (x # xs) b" for b
  proof -
    have "\<not> in_range b x 4096" "outside (mem s) d xs b" using that by (simp_all add: outside_def)
    then show ?thesis using out_u by (simp add: fill_def)
  qed
  obtain M where M: "NPAGES = Suc M" using NPAGES_Suc by blast
  show thesis
  proof (cases rule: mappages_step [OF out(1) kready_keeps [OF ku k] a(1) un', where N = M and lst = a and pa = "V2P x"
        and perm = "PTE_W OR PTE_U", case_names full stored])
    case (full u)
    with xs show thesis by simp
  next
    case (stored u ys)
    have "mappages d a PGSIZE (V2P x) (PTE_W OR PTE_U) ?u = Ret 0 u"
      unfolding mappages_def PGROUNDDOWN_last [OF a] PGROUNDDOWN_aligned [OF a(1)] M
      using stored(1) by (simp only: refl if_True)
    then have eq: "allocuvm_loop (Suc N) d a old new s = allocuvm_loop N d (a + 4096) old new u"
      using lt t(1,3,6) by (simp add: bindK_def memset_fill del: mappages_loop.simps)
    have "mapped (mem u) (mem s) d a 1 (V2P x) (PTE_W OR PTE_U)"
      using stored(6) out(2) t(3) by (simp add: mapped_def)
    then show thesis
    proof (rule that [OF eq keeps_trans [OF ku stored(2)] stored(3,4,5)])
      show "in_range b x 4096 \<Longrightarrow> mem u b = 0 \<and> outside (mem u) d ys b" for b
        using page [of b] stored(7) [of b] by simp
      show "outside (mem s) d (x # xs) b \<Longrightarrow> mem u b = mem s b \<and> outside (mem u) d ys b" for b
        using other [of b] stored(7) [of b] by simp
    qed
  qed
qed

lemma allocuvm_loop_spec:
  assumes "pt_inv s d xs" and "kready c s" and "unat a mod 4096 = 0" and "unat new \<le> 2147483648"
    and "unat new \<le> unat a + 4096 * n" and "n = 0 \<or> unat a + 4096 * (n - 1) < unat new"
    and "2 * n \<le> length xs" and "n < N" and "n \<le> 1048575"
    and "\<And>va. unat (PGROUNDDOWN va - a) < 4096 * n \<Longrightarrow> pte_of (mem s) d va = None"
  shows "\<exists>t ys fs. allocuvm_loop N d a old new s = Ret new t \<and> keeps c s t \<and> pt_inv t d ys \<and>
    length fs = n \<and> distinct fs \<and> set fs \<subseteq> set xs \<and> backed (mem t) (mem s) d a fs \<and>
    (\<forall>f\<in>set fs. \<forall>b. in_range b f 4096 \<longrightarrow> mem t b = 0 \<and> outside (mem t) d ys b) \<and>
    (\<forall>b. outside (mem s) d xs b \<longrightarrow> mem t b = mem s b \<and> outside (mem t) d ys b)"
  using assms
proof (induction n arbitrary: N s xs a)
  case 0
  then obtain N' where "N = Suc N'" by (cases N) auto
  then show ?case
    using 0 by (intro exI [of _ s] exI [of _ xs] exI [of _ "[]"])
      (simp add: backed_def word_less_nat_alt)
next
  case (Suc n)
  obtain N' where N: "N = Suc N'" using Suc.prems(8) by (cases N) auto
  obtain x xs' where xs: "xs = x # xs'" "xs' \<noteq> []" using Suc.prems(7) by (cases xs) (auto, fastforce)
  have lt: "unat a < unat new" using Suc.prems(6) by auto
  have a: "unat a \<le> 4294963200" "unat (a + 4096) = unat a + 4096"
    using lt Suc.prems(4) by (simp_all add: unat_word_ariths)
  have un: "pte_of (mem s) d a = None"
    using Suc.prems(10) [of a] by (simp add: PGROUNDDOWN_aligned [OF Suc.prems(3)])
  have lt': "a < new" using lt by (simp add: word_less_nat_alt)
  obtain t ys where t: "allocuvm_loop (Suc N') d a old new s = allocuvm_loop N' d (a + 4096) old new t"
    "keeps c s t" "pt_inv t d ys" "suffix ys xs'" "length xs' \<le> Suc (length ys)"
    "mapped (mem t) (mem s) d a 1 (V2P x) (PTE_W OR PTE_U)"
    "\<And>b. in_range b x 4096 \<Longrightarrow> mem t b = 0 \<and> outside (mem t) d ys b"
    "\<And>b. outside (mem s) d (x # xs') b \<Longrightarrow> mem t b = mem s b \<and> outside (mem t) d ys b"
    by (rule allocuvm_page [OF Suc.prems(1) [unfolded xs(1)] Suc.prems(2,3) a(1) xs(2) un lt',
          where N = N' and old = old]) (rule that)
  have a': "unat (a + 4096) mod 4096 = 0" using Suc.prems(3) a(2) by simp
  have un': "pte_of (mem t) d va = None" if "unat (PGROUNDDOWN va - (a + 4096)) < 4096 * n" for va
  proof -
    have "PGROUNDDOWN va \<noteq> a" using that page_distance_self [of n a] Suc.prems(9) by auto
    moreover have "pte_of (mem s) d va = None"
      using Suc.prems(9,10) that page_distance [OF Suc.prems(3), of n va] by simp
    ultimately show ?thesis
      using t(6) page_distance [OF Suc.prems(3), of 0 va] by (simp add: mapped_def)
  qed
  have b1: "unat new \<le> unat (a + 4096) + 4096 * n" using Suc.prems(5) a(2) by simp
  have b2: "n = 0 \<or> unat (a + 4096) + 4096 * (n - 1) < unat new"
    using Suc.prems(6) a(2) by (cases n) auto
  have b3: "2 * n \<le> length ys" "n < N'" "n \<le> 1048575"
    using Suc.prems(7,8,9) t(5) xs(1) N by simp_all
  obtain u zs fs where u: "allocuvm_loop N' d (a + 4096) old new t = Ret new u" "keeps c t u" "pt_inv u d zs"
    "length fs = n" "distinct fs" "set fs \<subseteq> set ys" "backed (mem u) (mem t) d (a + 4096) fs"
    "\<forall>f\<in>set fs. \<forall>b. in_range b f 4096 \<longrightarrow> mem u b = 0 \<and> outside (mem u) d zs b"
    "\<forall>b. outside (mem t) d ys b \<longrightarrow> mem u b = mem t b \<and> outside (mem u) d zs b"
    using Suc.IH [OF t(3) kready_keeps [OF t(2) Suc.prems(2)] a' Suc.prems(4) b1 b2 b3 un'] by blast
  have "set ys \<subseteq> set xs'" using t(4) by (rule set_mono_suffix)
  moreover have "x \<notin> set xs'" using Suc.prems(1) xs(1) by (auto simp: pt_inv_def kmem_inv_def)
  moreover have "backed (mem u) (mem s) d a (x # fs)"
    using backed_Cons [OF t(6) u(7) Suc.prems(3)] u(4) b3(3) by simp
  ultimately show ?case
    using u t(1,7,8) keeps_trans [OF t(2) u(2)] xs(1) N
    by (intro exI [of _ u] exI [of _ zs] exI [of _ "x # fs"]) auto
qed

section \<open>Main properties\<close>

text \<open>
  C11. On a well-formed page directory, \<^verbatim>\<open>mappages\<close> of a range of unmapped pages ends and returns 0
  with every page of the range mapped to the corresponding physical page with the given
  permissions, or it returns -1 because the free list ran out. In both cases the
  translation of every other address is as before, the directory stays well formed, and no
  byte outside free pages and page tables changes.
\<close>

theorem mappages_correct:
  assumes "pt_inv s d xs" and "kready c s"
    and "k = unat (PGROUNDDOWN (va + sz - 1) - PGROUNDDOWN va) div 4096"
    and "\<forall>v. unat (PGROUNDDOWN v - PGROUNDDOWN va) < 4096 * Suc k \<longrightarrow> pte_of (mem s) d v = None"
  shows "\<exists>r t ys n. mappages d va sz pa perm s = Ret r t \<and> pt_inv t d ys \<and> n \<le> Suc k \<and>
    (if n = Suc k then r = 0 else r = - 1 \<and> ys = []) \<and> keeps c s t \<and>
    (\<forall>v. pte_of (mem t) d v =
       (if unat (PGROUNDDOWN v - PGROUNDDOWN va) < 4096 * n
        then Some ((pa + (PGROUNDDOWN v - PGROUNDDOWN va)) OR perm OR PTE_P) else pte_of (mem s) d v)) \<and>
    (\<forall>b. outside (mem s) d xs b \<longrightarrow> mem t b = mem s b)"
proof -
  let ?a = "PGROUNDDOWN va" and ?l = "PGROUNDDOWN (va + sz - 1)"
  have a: "unat ?a mod 4096 = 0" by (simp add: unat_PGROUNDDOWN)
  have "4096 dvd unat ?l" "4096 dvd unat ?a" by (simp_all add: unat_PGROUNDDOWN)
  then have "4096 dvd unat (?l - ?a)" by (simp add: unat_sub_if_size word_size dvd_diff_nat)
  then have d: "unat (?l - ?a) = 4096 * k" using assms(3) by simp
  have "unat (?l - ?a) < 4294967296" using unsigned_less [of "?l - ?a", where 'a = nat] by simp
  then have k: "k < NPAGES" "k \<le> 1048575" using d by (simp_all add: NPAGES_def)
  have un: "pte_of (mem s) d v = None" if "unat (PGROUNDDOWN v - ?a) < 4096 * Suc k" for v
    using assms(4) that by blast
  show ?thesis
    using mappages_loop_spec [OF assms(1,2) a d k un, where pa = pa and perm = perm]
    unfolding mappages_def mapped_def by blast
qed

text \<open>One CPU, two free pages and an empty page directory at \<open>0x80400000\<close>.\<close>

definition vm_demo :: vmachine where
  "vm_demo = machine.extend (one_cpu\<lparr>mem := store32 (\<lambda>a. 0) 0x80200000 0x80300000\<rparr>)
     \<lparr>kend = 0x80110000, use_lock = 1, freelist = 0x80200000,
      kdata = 0x80108000, kpgdir = 0, cr3 = 0, tr = 0, kout = []\<rparr>"

lemma vm_demo_pde: "i < 1024 \<Longrightarrow> pde_at (mem vm_demo) 0x80400000 i = 0"
proof -
  assume i: "i < 1024"
  have "frame 0x80200000" "frame 0x80400000" by (simp_all add: frame_def)
  then have "load32 (store32 (\<lambda>a. 0) (0x80200000 + 4 * 0) 0x80300000) (0x80400000 + 4 * i) =
      load32 (\<lambda>a. 0) (0x80400000 + 4 * i)"
    using i by (subst load_store_slot) simp_all
  then show ?thesis by (simp add: pde_at_def vm_demo_def machine.defs) (simp add: load32_def)
qed

lemma vm_demo_ok:
  "pt_inv vm_demo 0x80400000 [0x80200000, 0x80300000]" "kready 0 vm_demo"
  "pte_of (mem vm_demo) 0x80400000 va = None"
proof -
  have "kmem_inv vm_demo [0x80200000, 0x80300000]"
    by (simp add: kmem_inv_def vm_demo_def kpage_def V2P_def machine.defs)
      (simp add: load32_def store32_def)
  moreover have "kpage vm_demo 0x80400000"
    by (simp add: vm_demo_def kpage_def V2P_def machine.defs)
  ultimately show "pt_inv vm_demo 0x80400000 [0x80200000, 0x80300000]"
    by (simp add: pt_inv_def vm_demo_pde present_def)
  have "cpu_ok 0 vm_demo"
    by (simp add: cpu_ok_def vm_demo_def machine.defs one_cpu_def cur_cpu_def lapicid_def)
  then show "kready 0 vm_demo"
    by (simp add: kready_def lock_free_def vm_demo_def machine.defs one_cpu_def)
  show "pte_of (mem vm_demo) 0x80400000 va = None"
    by (simp add: pte_of_alt vm_demo_pde present_def)
qed

theorem mappages_correct_witness:
  "\<exists>r t ys n. mappages 0x80400000 0x1000 4096 0x200000 7 vm_demo = Ret r t \<and> pt_inv t 0x80400000 ys \<and>
     n \<le> Suc 0 \<and> (if n = Suc 0 then r = 0 else r = - 1 \<and> ys = [])"
proof -
  have k: "0 = unat (PGROUNDDOWN (0x1000 + 4096 - 1) - PGROUNDDOWN 0x1000) div 4096"
    by (simp add: PGROUNDDOWN_def)
  show ?thesis
    using mappages_correct [OF vm_demo_ok(1,2) k, where pa = "0x200000" and perm = 7] vm_demo_ok(3)
    by blast
qed

text \<open>
  C10. Growing a process with \<^verbatim>\<open>allocuvm\<close>, when there are two free pages for each page of growth
  (one for the page, one for a page table), succeeds: the new pages are mapped to distinct
  frames taken from the free list, readable and writable by the user and filled with
  zeros, and every address that was mapped before translates as before.
\<close>

theorem allocuvm_correct:
  assumes "pt_inv s d xs" and "kready c s" and "old \<le> new" and "new < KERNBASE"
    and "n = (unat new - unat (PGROUNDUP old) + 4095) div 4096" and "2 * n \<le> length xs"
    and "\<forall>v. unat (PGROUNDDOWN v - PGROUNDUP old) < 4096 * n \<longrightarrow> pte_of (mem s) d v = None"
  shows "\<exists>t ys fs. allocuvm d old new s = Ret new t \<and> pt_inv t d ys \<and> keeps c s t \<and>
    length fs = n \<and> distinct fs \<and> set fs \<subseteq> set xs \<and>
    (\<forall>v. pte_of (mem t) d v =
       (let k = unat (PGROUNDDOWN v - PGROUNDUP old)
        in if k < 4096 * n then Some (V2P (fs ! (k div 4096)) OR (PTE_W OR PTE_U) OR PTE_P)
           else pte_of (mem s) d v)) \<and>
    (\<forall>f\<in>set fs. \<forall>b. in_range b f 4096 \<longrightarrow> mem t b = 0) \<and>
    (\<forall>b. outside (mem s) d xs b \<longrightarrow> mem t b = mem s b)"
proof -
  let ?a = "PGROUNDUP old"
  have new: "unat new < 2147483648" using assms(4) by (simp add: word_less_nat_alt)
  have old: "unat old \<le> unat new" using assms(3) by (simp add: word_le_nat_alt)
  then have a: "unat ?a mod 4096 = 0" using new by (intro PGROUNDUP_least(3)) simp
  define e where "e = unat new - unat ?a"
  have n: "n = (e + 4095) div 4096" using assms(5) by (simp add: e_def)
  then have ub: "e \<le> 4096 * n" and lb: "n = 0 \<or> 4096 * (n - 1) < e" by auto
  have e: "e \<le> 2147483648" using new by (simp add: e_def)
  have b1: "unat new \<le> unat ?a + 4096 * n" using ub by (simp add: e_def)
  have b2: "n = 0 \<or> unat ?a + 4096 * (n - 1) < unat new" using lb by (auto simp: e_def)
  have "4096 * n \<le> e + 4095" using n by simp
  then have b3: "n < NPAGES" "n \<le> 1048575" using e by (simp_all add: NPAGES_def)
  have un: "pte_of (mem s) d v = None" if "unat (PGROUNDDOWN v - ?a) < 4096 * n" for v
    using assms(7) that by blast
  have "unat new \<le> 2147483648" using new by simp
  then obtain t ys fs where t: "allocuvm_loop NPAGES d ?a old new s = Ret new t" "keeps c s t" "pt_inv t d ys"
      "length fs = n" "distinct fs" "set fs \<subseteq> set xs" "backed (mem t) (mem s) d ?a fs"
      "\<forall>f\<in>set fs. \<forall>b. in_range b f 4096 \<longrightarrow> mem t b = 0 \<and> outside (mem t) d ys b"
      "\<forall>b. outside (mem s) d xs b \<longrightarrow> mem t b = mem s b \<and> outside (mem t) d ys b"
    using allocuvm_loop_spec [OF assms(1,2) a _ b1 b2 assms(6) b3 un] by blast
  have "allocuvm d old new s = Ret new t"
    using t(1) assms(3,4) by (auto simp: allocuvm_def)
  then show ?thesis using t(2-9) unfolding backed_def by blast
qed

theorem allocuvm_correct_witness:
  "\<exists>t ys (fs :: uint32 list). allocuvm 0x80400000 0 100 vm_demo = Ret 100 t \<and> pt_inv t 0x80400000 ys \<and> length fs = Suc 0"
proof -
  have h: "(0 :: uint32) \<le> 100" "(100 :: uint32) < KERNBASE"
    "Suc 0 = (unat (100 :: uint32) - unat (PGROUNDUP 0) + 4095) div 4096"
    "2 * Suc 0 \<le> length [0x80200000, 0x80300000 :: uint32]"
    by (simp_all add: PGROUNDUP_def)
  have un: "\<forall>v. unat (PGROUNDDOWN v - PGROUNDUP 0) < 4096 * Suc 0 \<longrightarrow>
      pte_of (mem vm_demo) 0x80400000 v = None"
    using vm_demo_ok(3) by simp
  show ?thesis using allocuvm_correct [OF vm_demo_ok(1,2) h un] by blast
qed

end
