(* ===== verification/Proc_Table.thy ===== *)
theory Proc_Table
  imports Vm "HOL-Library.More_List"
begin

text \<open>
  The process table and the operations of \<^verbatim>\<open>proc.c\<close> on it: allocation, growing, switching to the
  scheduler, sleep and wakeup, kill, wait and join. A pointer to a \<^verbatim>\<open>struct proc\<close> is its index in
  the table; the null pointer is \<open>None\<close>.

  A call that gives up the CPU ends in \<open>Block\<close> at the \<^verbatim>\<open>swtch\<close> of \<^verbatim>\<open>sched\<close>. What the process does
  when it runs again is the definition with the suffix \<open>_resume\<close>: \<open>sched_resume\<close> for the rest
  of \<^verbatim>\<open>sched\<close>, \<open>sleep_resume\<close> for the rest of \<^verbatim>\<open>sleep\<close>, \<open>wait_resume\<close> for the next turn of the loop of
  \<^verbatim>\<open>wait\<close>. The local \<^verbatim>\<open>intena\<close> of \<^verbatim>\<open>sched\<close>, which lives on the kernel stack across the switch, is
  the field \<open>sv_intena\<close>.
\<close>

section \<open>State\<close>

datatype procstate = UNUSED | EMBRYO | SLEEPING | RUNNABLE | RUNNING | ZOMBIE

text \<open>The addresses processes sleep on, named by what they are the address of.\<close>

datatype chan =
    ChanProc nat | ChanTicks | ChanMutex nat | ChanBarrier | ChanPipeRead uint32
  | ChanPipeWrite uint32 | ChanSleeplock sleepid | ChanLog | ChanBuf nat | ChanInput

record proc =
  sz :: uint32
  pgdir :: uint32
  kstack :: uint32
  pstate :: procstate
  pid :: int
  parent :: "nat option"
  tf :: uint32
  ctx :: uint32
  chan :: "chan option"
  killed :: int
  ofile :: "nat option list"
  cwd :: "nat option"
  pname :: "uchar list"
  ustack :: uint32
  refs :: uint32
  tickets :: int
  sv_intena :: uint32

datatype mutexstate = LOCKED | UNLOCKED

record mutex_struct =
  mid :: int
  mstate :: mutexstate

text \<open>
  The globals of \<^verbatim>\<open>proc.c\<close>; \<open>zs\<close> are the static variables \<^verbatim>\<open>z1\<close> to \<^verbatim>\<open>z4\<close> of \<^verbatim>\<open>random\<close>, \<open>bcount\<close> and
  \<open>proc_count\<close> those of the barrier. \<open>trapret\<close>, \<open>forkret_addr\<close> and \<open>ts_addr\<close> are addresses that
  the linker chooses.
\<close>

record pmachine = vmachine +
  procs :: "proc list"
  initproc :: "nat option"
  nextpid :: int
  mutexes :: "mutex_struct list"
  nextmid :: int
  zs :: "uint32 \<times> uint32 \<times> uint32 \<times> uint32"
  bcount :: int
  proc_count :: int
  trapret :: uint32
  forkret_addr :: uint32
  ts_addr :: "nat \<Rightarrow> uint32"

definition upd_proc :: "nat \<Rightarrow> (proc \<Rightarrow> proc) \<Rightarrow> 'z pmachine_scheme \<Rightarrow> 'z pmachine_scheme" where
  "upd_proc i f s = s\<lparr>procs := (procs s)[i := f (procs s ! i)]\<rparr>"

text \<open>Dereferencing the result of \<^verbatim>\<open>myproc()\<close>.\<close>

definition derefK :: "nat option \<Rightarrow> (nat \<Rightarrow> ('a, 's) kern) \<Rightarrow> ('a, 's) kern" where
  "derefK p f = (case p of None \<Rightarrow> (\<lambda>s. Fault) | Some i \<Rightarrow> f i)"

section \<open>Address spaces of processes\<close>

definition switchuvm :: "nat option \<Rightarrow> (unit, 'z pmachine_scheme) kern" where
  "switchuvm p s =
     (case p of
        None \<Rightarrow> Panic ''switchuvm: no process''
      | Some i \<Rightarrow>
          (let q = procs s ! i
           in if kstack q = 0 then Panic ''switchuvm: no kstack''
              else if pgdir q = 0 then Panic ''switchuvm: no pgdir''
              else
                thenK pushcli
                (bindK mycpu (\<lambda>c.
                 thenK (modifyK (\<lambda>s. upd_cpu c (\<lambda>k. k\<lparr>
                    gdt := (gdt k)[SEG_TSS := (SEG16 9 (ts_addr s c) 103 0)\<lparr>sd_s := 0\<rparr>],
                    ts_ss0 := 0x10, ts_esp0 := kstack q + KSTACKSIZE, ts_iomb := 0xFFFF\<rparr>) s))
                 (thenK (ltr 0x28)
                 (thenK (lcr3 (V2P (pgdir q)))
                   popcli)))) s))"

definition pinit :: "(unit, 'z pmachine_scheme) kern" where
  "pinit = modifyK (initlock PtableLock ''ptable'')"

section \<open>Allocating a process\<close>

text \<open>
  The stack layout that \<^verbatim>\<open>allocproc\<close> builds at the top of the kernel stack: the trap frame
  (76 bytes), the return address \<^verbatim>\<open>trapret\<close>, the context (20 bytes) with \<^verbatim>\<open>eip\<close> at offset 16.
\<close>

definition init_kstack :: "uint32 \<Rightarrow> uint32 \<Rightarrow> uint32 \<Rightarrow> memory \<Rightarrow> memory" where
  "init_kstack ks tret fret m =
     (let sp1 = ks + KSTACKSIZE - 76; sp2 = sp1 - 4; sp3 = sp2 - 20
      in store32 (memset (store32 m sp2 tret) sp3 0 20) (sp3 + 16) fret)"

definition allocproc :: "(nat option, 'z pmachine_scheme) kern" where
  "allocproc =
     thenK (acquire PtableLock)
     (bindK (getsK (\<lambda>s. first_index (\<lambda>p. pstate p = UNUSED) (procs s))) (\<lambda>f.
      case f of
        None \<Rightarrow> thenK (release PtableLock) (retK None)
      | Some i \<Rightarrow>
          thenK (modifyK (\<lambda>s. (upd_proc i (\<lambda>p. p\<lparr>pstate := EMBRYO, pid := nextpid s\<rparr>) s)
            \<lparr>nextpid := nextpid s + 1\<rparr>))
          (thenK (release PtableLock)
          (bindK kalloc (\<lambda>ks.
           thenK (modifyK (upd_proc i (\<lambda>p. p\<lparr>kstack := ks\<rparr>)))
           (if ks = 0 then thenK (modifyK (upd_proc i (\<lambda>p. p\<lparr>pstate := UNUSED\<rparr>))) (retK None)
            else thenK (modifyK (\<lambda>s. (upd_proc i (\<lambda>p. p\<lparr>tf := ks + KSTACKSIZE - 76,
                     ctx := ks + KSTACKSIZE - 76 - 4 - 20\<rparr>) s)
                   \<lparr>mem := init_kstack ks (trapret s) (forkret_addr s) (mem s)\<rparr>))
              (retK (Some i))))))))"

definition growproc :: "int \<Rightarrow> (int, 'z pmachine_scheme) kern" where
  "growproc n =
     bindK myproc (\<lambda>p. derefK p (\<lambda>cur.
     bindK (getsK (\<lambda>s. procs s ! cur)) (\<lambda>q.
     bindK (if n > 0 then allocuvm (pgdir q) (sz q) (sz q + of_int n)
            else if n < 0 then deallocuvm (pgdir q) (sz q) (sz q + of_int n)
            else retK (sz q)) (\<lambda>z.
     if n \<noteq> 0 \<and> z = 0 then retK (- 1)
     else thenK (modifyK (upd_proc cur (\<lambda>p. p\<lparr>sz := z\<rparr>)))
       (thenK (switchuvm (Some cur)) (retK 0))))))"

section \<open>Giving up the CPU\<close>

definition sched :: "(unit, 'z pmachine_scheme) kern" where
  "sched =
     bindK myproc (\<lambda>p.
     bindK (holding PtableLock) (\<lambda>h.
     if \<not> h then panicK ''sched ptable.lock''
     else bindK mycpu (\<lambda>c s.
       if ncli (cpus s ! c) \<noteq> 1 then Panic ''sched locks''
       else derefK p (\<lambda>i s.
         if pstate (procs s ! i) = RUNNING then Panic ''sched running''
         else if eflags s AND FL_IF \<noteq> 0 then Panic ''sched interruptible''
         else Block (upd_proc i (\<lambda>q. q\<lparr>sv_intena := intena (cpus s ! c)\<rparr>) s)) s)))"

definition sched_resume :: "nat \<Rightarrow> (unit, 'z pmachine_scheme) kern" where
  "sched_resume i =
     bindK mycpu (\<lambda>c. modifyK (\<lambda>s. upd_cpu c (\<lambda>k. k\<lparr>intena := sv_intena (procs s ! i)\<rparr>) s))"

definition yield :: "(unit, 'z pmachine_scheme) kern" where
  "yield =
     thenK (acquire PtableLock)
     (bindK myproc (\<lambda>p. derefK p (\<lambda>i.
      thenK (modifyK (upd_proc i (\<lambda>q. q\<lparr>pstate := RUNNABLE\<rparr>))) sched)))"

definition yield_resume :: "nat \<Rightarrow> (unit, 'z pmachine_scheme) kern" where
  "yield_resume i = thenK (sched_resume i) (release PtableLock)"

definition sleep :: "chan \<Rightarrow> lockid option \<Rightarrow> (unit, 'z pmachine_scheme) kern" where
  "sleep ch lk =
     bindK myproc (\<lambda>p.
     case p of
       None \<Rightarrow> panicK ''sleep''
     | Some i \<Rightarrow>
         (case lk of
            None \<Rightarrow> panicK ''sleep without lk''
          | Some l \<Rightarrow>
              thenK (whenK (l \<noteq> PtableLock) (thenK (acquire PtableLock) (release l)))
              (thenK (modifyK (upd_proc i (\<lambda>q. q\<lparr>chan := Some ch, pstate := SLEEPING\<rparr>)))
                sched)))"

definition sleep_resume :: "nat \<Rightarrow> lockid \<Rightarrow> (unit, 'z pmachine_scheme) kern" where
  "sleep_resume i l =
     thenK (sched_resume i)
     (thenK (modifyK (upd_proc i (\<lambda>q. q\<lparr>chan := None\<rparr>)))
       (whenK (l \<noteq> PtableLock) (thenK (release PtableLock) (acquire l))))"

definition wakeup1 :: "chan option \<Rightarrow> 'z pmachine_scheme \<Rightarrow> 'z pmachine_scheme" where
  "wakeup1 ch s = s\<lparr>procs := map (\<lambda>p. if pstate p = SLEEPING \<and> chan p = ch
     then p\<lparr>pstate := RUNNABLE\<rparr> else p) (procs s)\<rparr>"

definition wakeup :: "chan \<Rightarrow> (unit, 'z pmachine_scheme) kern" where
  "wakeup ch =
     thenK (acquire PtableLock) (thenK (modifyK (wakeup1 (Some ch))) (release PtableLock))"

definition kill :: "int \<Rightarrow> (int, 'z pmachine_scheme) kern" where
  "kill n =
     thenK (acquire PtableLock)
     (bindK (getsK (\<lambda>s. first_index (\<lambda>p. pid p = n) (procs s))) (\<lambda>f.
      case f of
        None \<Rightarrow> thenK (release PtableLock) (retK (- 1))
      | Some i \<Rightarrow>
          thenK (modifyK (upd_proc i (\<lambda>p. p\<lparr>killed := 1,
            pstate := (if pstate p = SLEEPING then RUNNABLE else pstate p)\<rparr>)))
          (thenK (release PtableLock) (retK 0))))"

section \<open>Waiting for children and threads\<close>

text \<open>
  One turn of the endless loops of \<^verbatim>\<open>wait\<close> and \<^verbatim>\<open>join\<close>. \<^verbatim>\<open>sleep\<close> ends in \<open>Block\<close>, so the value given
  after it is never returned; the process goes on with \<open>wait_resume\<close> or \<open>join_resume\<close>.
\<close>

definition reaped :: "proc \<Rightarrow> proc" where
  "reaped p = p\<lparr>pid := 0, parent := None, pname := (pname p)[0 := 0], killed := 0, pstate := UNUSED\<rparr>"

definition wait_iter :: "nat \<Rightarrow> (int, 'z pmachine_scheme) kern" where
  "wait_iter cur =
     bindK (getsK (\<lambda>s. first_index (\<lambda>p. parent p = Some cur \<and> pstate p = ZOMBIE) (procs s))) (\<lambda>f.
     case f of
       Some i \<Rightarrow>
         bindK (getsK (\<lambda>s. procs s ! i)) (\<lambda>p.
         thenK (kfree (kstack p))
         (thenK (modifyK (upd_proc i (\<lambda>p. p\<lparr>kstack := 0\<rparr>)))
         (thenK (freevm (pgdir p))
         (thenK (modifyK (upd_proc i reaped))
         (thenK (release PtableLock) (retK (pid p)))))))
     | None \<Rightarrow>
         bindK (getsK (\<lambda>s. (\<exists>p\<in>set (procs s). parent p = Some cur) \<and> killed (procs s ! cur) = 0)) (\<lambda>b.
         if \<not> b then thenK (release PtableLock) (retK (- 1))
         else thenK (sleep (ChanProc cur) (Some PtableLock)) (retK 0)))"

definition wait :: "(int, 'z pmachine_scheme) kern" where
  "wait = bindK myproc (\<lambda>p. thenK (acquire PtableLock) (derefK p wait_iter))"

definition wait_resume :: "nat \<Rightarrow> (int, 'z pmachine_scheme) kern" where
  "wait_resume cur = thenK (sleep_resume cur PtableLock) (wait_iter cur)"

definition join_iter :: "uint32 \<Rightarrow> nat \<Rightarrow> (int, 'z pmachine_scheme) kern" where
  "join_iter stack cur =
     bindK (getsK (\<lambda>s. first_index (\<lambda>p. parent p = Some cur \<and> pgdir p = pgdir (procs s ! cur) \<and>
       pstate p = ZOMBIE) (procs s))) (\<lambda>f.
     case f of
       Some i \<Rightarrow>
         bindK (getsK (\<lambda>s. procs s ! i)) (\<lambda>p.
         thenK (kstore32 stack (ustack p))
         (thenK (kfree (kstack p))
         (thenK (modifyK (upd_proc i (\<lambda>p. reaped (p\<lparr>kstack := 0\<rparr>))))
         (bindK (kload32 (refs p)) (\<lambda>r.
          thenK (kstore32 (refs p) (r - 1))
          (thenK (release PtableLock) (retK (pid p))))))))
     | None \<Rightarrow> thenK (sleep (ChanProc cur) (Some PtableLock)) (retK 0))"

definition join :: "uint32 \<Rightarrow> (int, 'z pmachine_scheme) kern" where
  "join stack = bindK myproc (\<lambda>p. thenK (acquire PtableLock) (derefK p (join_iter stack)))"

definition join_resume :: "uint32 \<Rightarrow> nat \<Rightarrow> (int, 'z pmachine_scheme) kern" where
  "join_resume stack cur = thenK (sleep_resume cur PtableLock) (join_iter stack cur)"

end
