(* ===== verification/Proc_Inv.thy ===== *)
theory Proc_Inv
  imports Proc_Table Page_Table
begin

text \<open>
  What the operations of \<open>Proc_Table\<close> do to the process table and to the locks, as equations
  for states in which the CPU and the locks are as the kernel has them at the call.
\<close>

section \<open>State projections\<close>

lemma pm_of_machine:
  assumes "machine.more t = machine.more s"
  shows "procs t = procs s" "nextpid t = nextpid s" "mutexes t = mutexes s" "nextmid t = nextmid s"
    "zs t = zs s" "initproc t = initproc s" "bcount t = bcount s" "proc_count t = proc_count s"
    "trapret t = trapret s" "forkret_addr t = forkret_addr s" "ts_addr t = ts_addr s" "cr3 t = cr3 s"
    "kout t = kout s" "kpgdir t = kpgdir s" "tr t = tr s" "kdata t = kdata s"
    "pmachine.more t = pmachine.more s"
  using assms by (cases s; cases t; simp)+

lemma pm_of_kmachine:
  assumes "kmachine.more t = kmachine.more s"
  shows "procs t = procs s" "nextpid t = nextpid s" "mutexes t = mutexes s" "nextmid t = nextmid s"
    "zs t = zs s" "initproc t = initproc s" "bcount t = bcount s" "proc_count t = proc_count s"
    "trapret t = trapret s" "forkret_addr t = forkret_addr s" "ts_addr t = ts_addr s" "cr3 t = cr3 s"
    "kout t = kout s" "kpgdir t = kpgdir s" "tr t = tr s" "kdata t = kdata s"
    "pmachine.more t = pmachine.more s"
  using assms by (cases s; cases t; simp)+

lemma locked_pmachine [simp]:
  "procs (took c L s1) = procs s1" "procs (dropped c L s2) = procs s2" "procs (touch c s3) = procs s3"
  "nextpid (took c L s4) = nextpid s4" "nextpid (dropped c L s5) = nextpid s5"
  "mutexes (took c L s6) = mutexes s6" "mutexes (dropped c L s7) = mutexes s7"
  "nextmid (took c L s8) = nextmid s8" "nextmid (dropped c L s9) = nextmid s9"
  "bcount (took c L s10) = bcount s10" "bcount (dropped c L s11) = bcount s11"
  "proc_count (took c L s12) = proc_count s12" "proc_count (dropped c L s13) = proc_count s13"
  "zs (took c L s14) = zs s14" "zs (dropped c L s15) = zs s15"
  "mutexes (touch c s16) = mutexes s16" "nextpid (touch c s17) = nextpid s17"
  "bcount (touch c s18) = bcount s18" "proc_count (touch c s19) = proc_count s19"
  by (rule pm_of_machine, simp)+

lemma upd_proc_sel [simp]:
  "mem (upd_proc i f s1) = mem s1" "eflags (upd_proc i f s2) = eflags s2" "ebp (upd_proc i f s3) = ebp s3"
  "lapic (upd_proc i f s4) = lapic s4" "ncpu (upd_proc i f s5) = ncpu s5" "cpus (upd_proc i f s6) = cpus s6"
  "locks (upd_proc i f s7) = locks s7" "procs (upd_proc i f s8) = (procs s8)[i := f (procs s8 ! i)]"
  "nextpid (upd_proc i f s9) = nextpid s9" "kend (upd_proc i f s10) = kend s10"
  "use_lock (upd_proc i f s11) = use_lock s11" "freelist (upd_proc i f s12) = freelist s12"
  "mutexes (upd_proc i f s13) = mutexes s13" "cr3 (upd_proc i f s14) = cr3 s14"
  "bcount (upd_proc i f s15) = bcount s15" "proc_count (upd_proc i f s16) = proc_count s16"
  "trapret (upd_proc i f s17) = trapret s17" "forkret_addr (upd_proc i f s18) = forkret_addr s18"
  by (simp_all add: upd_proc_def)

lemma wakeup1_sel [simp]:
  "mem (wakeup1 ch s1) = mem s1" "eflags (wakeup1 ch s2) = eflags s2" "ebp (wakeup1 ch s3) = ebp s3"
  "lapic (wakeup1 ch s4) = lapic s4" "ncpu (wakeup1 ch s5) = ncpu s5" "cpus (wakeup1 ch s6) = cpus s6"
  "locks (wakeup1 ch s7) = locks s7" "nextpid (wakeup1 ch s9) = nextpid s9"
  "mutexes (wakeup1 ch s10) = mutexes s10" "bcount (wakeup1 ch s11) = bcount s11"
  "proc_count (wakeup1 ch s12) = proc_count s12"
  by (simp_all add: wakeup1_def)

lemma same_cpu_upd_proc [simp]: "same_cpu c s (upd_proc i f s)"
  by (rule same_cpuI) simp_all

lemma same_cpu_wakeup1 [simp]: "same_cpu c s (wakeup1 ch s)"
  by (rule same_cpuI) simp_all

text \<open>
  \<open>only_procs c s t ps\<close>: the only difference between \<open>s\<close> and \<open>t\<close>, apart from bookkeeping of
  locks that are free again, is that the process table of \<open>t\<close> is \<open>ps\<close>.
\<close>

definition only_procs :: "nat \<Rightarrow> 'z pmachine_scheme \<Rightarrow> 'z pmachine_scheme \<Rightarrow> proc list \<Rightarrow> bool" where
  "only_procs c s t ps \<longleftrightarrow> same_cpu c s t \<and> mem t = mem s \<and>
     machine.more t = machine.more (s\<lparr>procs := ps\<rparr>)"

lemma only_procs_procs: "only_procs c s t ps \<Longrightarrow> procs t = ps" "only_procs c s t ps \<Longrightarrow> nextpid t = nextpid s"
  using pm_of_machine(1,2) [of t "s\<lparr>procs := ps\<rparr>"] by (simp_all add: only_procs_def)

lemma more_upd_proc: "machine.more (upd_proc i f s) = machine.more (s\<lparr>procs := (procs s)[i := f (procs s ! i)]\<rparr>)"
  by (simp add: upd_proc_def)

lemma more_procs_cong:
  "machine.more t = machine.more s \<Longrightarrow> machine.more (t\<lparr>procs := ps\<rparr>) = machine.more (s\<lparr>procs := ps\<rparr>)"
  by (cases s; cases t) simp

text \<open>A critical section whose body is a change of state.\<close>

lemma locked_modify:
  assumes "cpu_ok c s" and "lock_free L s" and "same_cpu c (took c L s) (f (took c L s))"
  shows "thenK (acquire L) (thenK (modifyK f) (thenK (release L) (retK x))) s =
      Ret x (dropped c L (f (took c L s)))"
    and "same_cpu c s (dropped c L (f (took c L s)))"
proof -
  have "owns c L (f (took c L s))" using owns_same_cpu [OF assms(3) owns_took [OF assms(1)]] .
  then show "thenK (acquire L) (thenK (modifyK f) (thenK (release L) (retK x))) s =
      Ret x (dropped c L (f (took c L s)))"
    using acquire_free [OF assms(1)] assms(2) release_owned [of c L "f (took c L s)"]
    by (simp add: lock_free_def thenK_def bindK_def)
  show "same_cpu c s (dropped c L (f (took c L s)))" by (rule same_cpu_dropped [OF assms])
qed

lemma ptable_section:
  assumes "cpu_ok c s" and "lock_free PtableLock s"
  shows "\<exists>t. thenK (acquire PtableLock) (thenK (modifyK (\<lambda>s. s\<lparr>procs := h (procs s)\<rparr>))
      (thenK (release PtableLock) (retK x))) s = Ret x t \<and> only_procs c s t (h (procs s))"
proof -
  let ?s1 = "took c PtableLock s"
  have sc: "same_cpu c ?s1 (?s1\<lparr>procs := h (procs ?s1)\<rparr>)" by (rule same_cpuI) simp_all
  have "machine.more (dropped c PtableLock (?s1\<lparr>procs := h (procs ?s1)\<rparr>)) =
      machine.more (s\<lparr>procs := h (procs s)\<rparr>)"
    using more_procs_cong [of ?s1 s] by simp
  then show ?thesis
    using locked_modify(1) [OF assms, of "\<lambda>s. s\<lparr>procs := h (procs s)\<rparr>" x]
      locked_modify(2) [OF assms, of "\<lambda>s. s\<lparr>procs := h (procs s)\<rparr>"] sc
    by (simp add: only_procs_def)
qed

lemma thenK_retK_unit: "thenK f (retK ()) = f"
  by (rule ext) (simp add: thenK_def bindK_def split: outcome.split)

section \<open>wakeup and kill\<close>

definition woken :: "chan option \<Rightarrow> proc \<Rightarrow> proc" where
  "woken ch p = (if pstate p = SLEEPING \<and> chan p = ch then p\<lparr>pstate := RUNNABLE\<rparr> else p)"

lemma procs_wakeup1 [simp]: "procs (wakeup1 ch s) = map (woken ch) (procs s)"
  by (simp add: wakeup1_def woken_def)

lemma wakeup1_eq: "wakeup1 ch = (\<lambda>s. s\<lparr>procs := map (woken ch) (procs s)\<rparr>)"
  by (rule ext) (simp add: wakeup1_def woken_def)

lemma wakeup_eq:
  assumes "cpu_ok c s" and "lock_free PtableLock s"
  shows "\<exists>t. wakeup ch s = Ret () t \<and> only_procs c s t (map (woken (Some ch)) (procs s))"
  using ptable_section [OF assms, of "map (woken (Some ch))" "()"]
  by (simp add: wakeup_def wakeup1_eq thenK_retK_unit)

definition killed_proc :: "proc \<Rightarrow> proc" where
  "killed_proc p = p\<lparr>killed := 1, pstate := (if pstate p = SLEEPING then RUNNABLE else pstate p)\<rparr>"

lemma kill_eq:
  assumes "cpu_ok c s" and "lock_free PtableLock s"
  shows "\<exists>t. kill n s =
      Ret (case first_index (\<lambda>p. pid p = n) (procs s) of None \<Rightarrow> - 1 | Some i \<Rightarrow> 0) t \<and>
    only_procs c s t (case first_index (\<lambda>p. pid p = n) (procs s) of None \<Rightarrow> procs s
      | Some i \<Rightarrow> (procs s)[i := killed_proc (procs s ! i)])"
proof (cases "first_index (\<lambda>p. pid p = n) (procs s)")
  case None
  have "kill n s = thenK (acquire PtableLock) (thenK (modifyK (\<lambda>s. s\<lparr>procs := id (procs s)\<rparr>))
      (thenK (release PtableLock) (retK (- 1)))) s"
    using None acquire_free [OF assms(1), of PtableLock] assms(2)
    by (simp add: kill_def thenK_def bindK_def lock_free_def)
  then show ?thesis using ptable_section [OF assms, of id "- 1 :: int"] None by simp
next
  case (Some i)
  have "kill n s = thenK (acquire PtableLock)
      (thenK (modifyK (\<lambda>s. s\<lparr>procs := (\<lambda>ps. ps[i := killed_proc (ps ! i)]) (procs s)\<rparr>))
      (thenK (release PtableLock) (retK 0))) s"
    using Some acquire_free [OF assms(1), of PtableLock] assms(2)
    by (simp add: kill_def thenK_def bindK_def lock_free_def upd_proc_def killed_proc_def)
  then show ?thesis
    using ptable_section [OF assms, of "\<lambda>ps. ps[i := killed_proc (ps ! i)]" "0 :: int"] Some by simp
qed

section \<open>Giving up the CPU\<close>

lemma sched_eq:
  assumes "owns c PtableLock s" and "ncli (cpus s ! c) = 1" and "cproc (cpus s ! c) = Some i"
    and "pstate (procs s ! i) \<noteq> RUNNING"
  shows "sched s = Block (upd_proc i (\<lambda>q. q\<lparr>sv_intena := intena (cpus s ! c)\<rparr>) s)"
proof -
  have ok: "cpu_ok c s" using assms(1) by (rule owns_cpu_ok)
  have h: "holding PtableLock s = Ret True s"
    using holding_eq [OF ok, of PtableLock] touch_owned [OF assms(1)] assms(1) by (simp add: owns_def)
  have p: "myproc s = Ret (Some i) s"
    using myproc_eq [OF ok] touch_owned [OF assms(1)] assms(3) by simp
  have m: "mycpu s = Ret c s" using assms(1) by (simp add: mycpu_eq owns_def)
  show ?thesis
    using h p m assms by (simp add: sched_def bindK_def derefK_def owns_def)
qed

lemma owns_upd_proc [simp]: "owns c L (upd_proc i f s) = owns c L s"
  using cur_cpu_cong [of "upd_proc i f s" s] by (simp add: owns_def)

text \<open>Handing over from the lock of the condition to the lock of the process table.\<close>

lemma lock_handover:
  assumes "owns c l s" and "ncli (cpus s ! c) = 1" and "lock_free PtableLock s" and "l \<noteq> PtableLock"
  defines "t \<equiv> dropped c l (took c PtableLock s)"
  shows "thenK (acquire PtableLock) (release l) s = Ret () t"
    and "owns c PtableLock t" "ncli (cpus t ! c) = 1" "intena (cpus t ! c) = intena (cpus s ! c)"
    and "cproc (cpus t ! c) = cproc (cpus s ! c)" "lock_free l t"
    and "\<And>L. L \<noteq> l \<Longrightarrow> L \<noteq> PtableLock \<Longrightarrow> locks t L = locks s L"
proof -
  let ?s1 = "took c PtableLock s"
  have cur: "cur_cpu s = Some c" and ef: "eflags s AND FL_IF = 0" using assms(1) by (simp_all add: owns_def)
  have c: "c < length (cpus s)" using cur by (rule cur_cpu_bound)
  have ok: "cpu_ok c s" using assms(1) by (rule owns_cpu_ok)
  have acq: "acquire PtableLock s = Ret () ?s1"
    using acquire_free [OF ok] assms(3) by (simp add: lock_free_def)
  have own: "owns c l ?s1" using assms(1,2,4) c by (simp add: owns_def)
  show "thenK (acquire PtableLock) (release l) s = Ret () t"
    using acq release_owned [OF own] by (simp add: thenK_def bindK_def t_def)
  have cp: "cpus t ! c = (push_cpu (eflags s) (cpus s ! c))\<lparr>ncli := 1\<rparr>"
    using assms(2) c by (simp add: t_def)
  then show "ncli (cpus t ! c) = 1" "intena (cpus t ! c) = intena (cpus s ! c)"
    "cproc (cpus t ! c) = cproc (cpus s ! c)"
    using assms(2) by (simp_all add: push_cpu_def)
  show "lock_free l t" using assms(4) by (simp add: lock_free_def t_def)
  show "\<And>L. L \<noteq> l \<Longrightarrow> L \<noteq> PtableLock \<Longrightarrow> locks t L = locks s L" by (simp add: t_def)
  have "eflags t = eflags s AND - 513"
    using assms(2) c by (simp add: t_def dropped_def popped_def Let_def)
  then have "eflags t AND FL_IF = 0" by simp
  then show "owns c PtableLock t"
    using cur assms(4) cp by (simp add: owns_def) (simp add: t_def)
qed

definition asleep :: "chan \<Rightarrow> uint32 \<Rightarrow> proc \<Rightarrow> proc" where
  "asleep ch e q = q\<lparr>chan := Some ch, pstate := SLEEPING, sv_intena := e\<rparr>"

lemma sleep_eq:
  assumes "owns c l s" and "ncli (cpus s ! c) = 1" and "lock_free PtableLock s" and "l \<noteq> PtableLock"
    and "cproc (cpus s ! c) = Some i" and "i < length (procs s)"
  shows "\<exists>t. sleep ch (Some l) s = Block t \<and> lock_free l t \<and> owns c PtableLock t \<and>
    ncli (cpus t ! c) = 1 \<and> cproc (cpus t ! c) = Some i \<and> mem t = mem s \<and>
    (\<forall>L. L \<noteq> l \<longrightarrow> L \<noteq> PtableLock \<longrightarrow> locks t L = locks s L) \<and>
    machine.more t = machine.more (s\<lparr>procs := (procs s)[i := asleep ch (intena (cpus s ! c)) (procs s ! i)]\<rparr>)"
proof -
  note ho = lock_handover [OF assms(1-4)]
  let ?t = "dropped c l (took c PtableLock s)"
  let ?u = "upd_proc i (\<lambda>q. q\<lparr>chan := Some ch, pstate := SLEEPING\<rparr>) ?t"
  have p: "myproc s = Ret (Some i) s"
    using myproc_eq [OF owns_cpu_ok [OF assms(1)]] touch_owned [OF assms(1)] assms(5) by simp
  have sch: "sched ?u = Block (upd_proc i (\<lambda>q. q\<lparr>sv_intena := intena (cpus s ! c)\<rparr>) ?u)"
    using sched_eq [of c ?u i] ho(2-5) assms(5,6) by simp
  have eq: "sleep ch (Some l) s = Block (upd_proc i (\<lambda>q. q\<lparr>sv_intena := intena (cpus s ! c)\<rparr>) ?u)"
  proof -
    have "sleep ch (Some l) s = (thenK (thenK (acquire PtableLock) (release l))
        (thenK (modifyK (upd_proc i (\<lambda>q. q\<lparr>chan := Some ch, pstate := SLEEPING\<rparr>))) sched)) s"
      using p assms(4) by (simp add: sleep_def bindK_Ret)
    also have "\<dots> = sched ?u" 
      by (simp add: thenK_Ret [where f = "thenK (acquire PtableLock) (release l)" and s = s
            and s' = ?t and x = "()", OF ho(1)])
    finally show ?thesis using sch by simp
  qed
  moreover have "machine.more (upd_proc i (\<lambda>q. q\<lparr>sv_intena := intena (cpus s ! c)\<rparr>) ?u) =
      machine.more (s\<lparr>procs := (procs s)[i := asleep ch (intena (cpus s ! c)) (procs s ! i)]\<rparr>)"
    using more_procs_cong [of ?t s] assms(6) by (simp add: upd_proc_def asleep_def)
  ultimately show ?thesis using ho assms(5) by (simp add: lock_free_def)
qed

lemma sleep_ptable_eq:
  assumes "owns c PtableLock s" and "ncli (cpus s ! c) = 1" and "cproc (cpus s ! c) = Some i"
    and "i < length (procs s)"
  shows "sleep ch (Some PtableLock) s = Block (upd_proc i (asleep ch (intena (cpus s ! c))) s)"
proof -
  let ?u = "upd_proc i (\<lambda>q. q\<lparr>chan := Some ch, pstate := SLEEPING\<rparr>) s"
  have p: "myproc s = Ret (Some i) s"
    using myproc_eq [OF owns_cpu_ok [OF assms(1)]] touch_owned [OF assms(1)] assms(3) by simp
  have "sched ?u = Block (upd_proc i (\<lambda>q. q\<lparr>sv_intena := intena (cpus s ! c)\<rparr>) ?u)"
    using sched_eq [of c ?u i] assms by simp
  moreover have "sleep ch (Some PtableLock) s = sched ?u"
    using p by (simp add: sleep_def bindK_Ret)
  ultimately show ?thesis using assms(4) by (simp add: upd_proc_def asleep_def)
qed

lemma yield_eq:
  assumes "cpu_ok c s" and "ncli (cpus s ! c) = 0" and "lock_free PtableLock s"
    and "cproc (cpus s ! c) = Some i" and "i < length (procs s)"
  shows "\<exists>t e. yield s = Block t \<and> owns c PtableLock t \<and> ncli (cpus t ! c) = 1 \<and> mem t = mem s \<and>
    machine.more t = machine.more (s\<lparr>procs := (procs s)[i := (procs s ! i)\<lparr>pstate := RUNNABLE, sv_intena := e\<rparr>]\<rparr>)"
proof -
  let ?s1 = "took c PtableLock s"
  have c: "c < length (cpus s)" using assms(1) by (auto simp: cpu_ok_def dest: cur_cpu_bound)
  have acq: "acquire PtableLock s = Ret () ?s1"
    using acquire_free [OF assms(1)] assms(3) by (simp add: lock_free_def)
  have own: "owns c PtableLock ?s1" by (rule owns_took [OF assms(1)])
  have p: "myproc ?s1 = Ret (Some i) ?s1"
    using myproc_eq [OF owns_cpu_ok [OF own]] touch_owned [OF own] assms(4) c by simp
  let ?u = "upd_proc i (\<lambda>q. q\<lparr>pstate := RUNNABLE\<rparr>) ?s1"
  have sch: "sched ?u = Block (upd_proc i (\<lambda>q. q\<lparr>sv_intena := intena (cpus ?s1 ! c)\<rparr>) ?u)"
    using sched_eq [of c ?u i] own assms(2,4,5) c by simp
  have "yield s = sched ?u"
    using acq p by (simp add: yield_def thenK_Ret bindK_Ret derefK_def)
  moreover have "machine.more (upd_proc i (\<lambda>q. q\<lparr>sv_intena := intena (cpus ?s1 ! c)\<rparr>) ?u) =
      machine.more (s\<lparr>procs := (procs s)[i := (procs s ! i)\<lparr>pstate := RUNNABLE,
        sv_intena := intena (cpus ?s1 ! c)\<rparr>]\<rparr>)"
    using more_procs_cong [of ?s1 s] assms(5) by (simp add: upd_proc_def)
  ultimately show ?thesis using sch own assms(2) c by auto
qed

section \<open>Allocating a process\<close>

lemma init_kstack_eq:
  "init_kstack ks tret fret m =
     store32 (fill (store32 m (ks + 4 * 1004) tret) (ks + 4 * 999) 0 20) (ks + 4 * 1003) fret"
  by (simp add: init_kstack_def Let_def memset_fill add.commute [of _ ks])

lemma init_kstack_out:
  assumes "frame ks" and "\<not> in_range b ks 4096"
  shows "init_kstack ks tret fret m b = m b"
proof -
  have r: "\<not> in_range b (ks + 4 * i) 4" if "i < 1024" for i
    using slot_in_frame [OF assms(1) that] assms(2) by blast
  have "\<not> in_range b (ks + 4 * 999) 20"
  proof
    assume "in_range b (ks + 4 * 999) 20"
    moreover have "unat (ks + 4 * 999) = unat ks + 3996" using unat_slot [OF assms(1), of 999] by simp
    ultimately have "in_range b ks 4096"
      using in_range_unat [of "ks + 4 * 999" 20 b] in_range_unat [of ks 4096 b] assms(1)
      by (simp add: frame_def)
    with assms(2) show False by simp
  qed
  then show ?thesis
    using r [of 1004] r [of 1003] unfolding init_kstack_eq by (simp add: store32_other fill_def)
qed

lemma init_kstack_words:
  assumes "frame ks"
  shows "load32 (init_kstack ks tret fret m) (ks + KSTACKSIZE - 76 - 4 - 20 + 16) = fret"
    and "load32 (init_kstack ks tret fret m) (ks + KSTACKSIZE - 76 - 4) = tret"
proof -
  have sp: "ks + KSTACKSIZE - 76 - 4 - 20 + 16 = ks + 4 * 1003" "ks + KSTACKSIZE - 76 - 4 = ks + 4 * 1004"
    by simp_all
  show "load32 (init_kstack ks tret fret m) (ks + KSTACKSIZE - 76 - 4 - 20 + 16) = fret"
    unfolding init_kstack_eq sp(1) by (rule load32_store32)
  have "load32 (fill m' (ks + 4 * 999) 0 20) (ks + 4 * 1004) = load32 m' (ks + 4 * 1004)" for m'
  proof (rule load32_cong)
    fix b assume "in_range b (ks + 4 * 1004) 4"
    then have "unat ks + 4016 \<le> unat b"
      using in_range_unat [of "ks + 4 * 1004" 4 b] unat_slot [OF assms, of 1004] assms by (simp add: frame_def)
    then have "\<not> in_range b (ks + 4 * 999) 20"
      using in_range_unat [of "ks + 4 * 999" 20 b] unat_slot [OF assms, of 999] assms by (simp add: frame_def)
    then show "fill m' (ks + 4 * 999) 0 20 b = m' b" by (simp add: fill_def)
  qed
  then show "load32 (init_kstack ks tret fret m) (ks + KSTACKSIZE - 76 - 4) = tret"
    unfolding init_kstack_eq sp(2)
    using load_store_slot [OF assms assms, of 1003 1004] by simp
qed

definition embryo :: "'z pmachine_scheme \<Rightarrow> proc \<Rightarrow> proc" where
  "embryo s p = p\<lparr>pstate := EMBRYO, pid := nextpid s\<rparr>"

text \<open>The first half of \<^verbatim>\<open>allocproc\<close>: the slot is taken under the lock.\<close>

lemma allocproc_claim:
  assumes "cpu_ok c s" and "lock_free PtableLock s"
    and "first_index (\<lambda>p. pstate p = UNUSED) (procs s) = Some i"
  obtains t where "same_cpu c s t" "mem t = mem s" "procs t = (procs s)[i := embryo s (procs s ! i)]"
    "nextpid t = nextpid s + 1" "kend t = kend s" "use_lock t = use_lock s" "freelist t = freelist s"
    "trapret t = trapret s" "forkret_addr t = forkret_addr s"
    "allocproc s = bindK kalloc (\<lambda>ks.
       thenK (modifyK (upd_proc i (\<lambda>p. p\<lparr>kstack := ks\<rparr>)))
       (if ks = 0 then thenK (modifyK (upd_proc i (\<lambda>p. p\<lparr>pstate := UNUSED\<rparr>))) (retK None)
        else thenK (modifyK (\<lambda>s. (upd_proc i (\<lambda>p. p\<lparr>tf := ks + KSTACKSIZE - 76,
                 ctx := ks + KSTACKSIZE - 76 - 4 - 20\<rparr>) s)
               \<lparr>mem := init_kstack ks (trapret s) (forkret_addr s) (mem s)\<rparr>))
          (retK (Some i)))) t"
proof -
  let ?s1 = "took c PtableLock s"
  let ?s2 = "(upd_proc i (\<lambda>p. p\<lparr>pstate := EMBRYO, pid := nextpid ?s1\<rparr>) ?s1)\<lparr>nextpid := nextpid ?s1 + 1\<rparr>"
  let ?t = "dropped c PtableLock ?s2"
  have acq: "acquire PtableLock s = Ret () ?s1"
    using acquire_free [OF assms(1)] assms(2) by (simp add: lock_free_def)
  have sc: "same_cpu c ?s1 ?s2" by (rule same_cpuI) simp_all
  have own: "owns c PtableLock ?s2" by (rule owns_same_cpu [OF sc owns_took [OF assms(1)]])
  have rel: "release PtableLock ?s2 = Ret () ?t" by (rule release_owned [OF own])
  have m: "machine.more ?t = machine.more ?s2" by simp
  have tr: "trapret ?s1 = trapret s" "forkret_addr ?s1 = forkret_addr s"
    by (rule pm_of_machine, simp)+
  show thesis
  proof (rule that [of ?t])
    show "same_cpu c s ?t" by (rule same_cpu_dropped [OF assms(1,2) sc])
    show "mem ?t = mem s" "procs ?t = (procs s)[i := embryo s (procs s ! i)]" "nextpid ?t = nextpid s + 1"
      "kend ?t = kend s" "use_lock ?t = use_lock s" "freelist ?t = freelist s"
      by (simp_all add: embryo_def)
    show "trapret ?t = trapret s" "forkret_addr ?t = forkret_addr s"
      using pm_of_machine(9,10) [OF m] tr by simp_all
  qed (use acq rel assms(3) in \<open>simp add: allocproc_def thenK_Ret\<close>)
qed

lemma kready_of_locks:
  "cpu_ok c s \<Longrightarrow> lock_free KmemLock s \<Longrightarrow> kready c s"
  by (simp add: kready_def)

lemma allocproc_full:
  assumes "cpu_ok c s" and "lock_free PtableLock s"
    and "first_index (\<lambda>p. pstate p = UNUSED) (procs s) = None"
  shows "\<exists>t. allocproc s = Ret None t \<and> only_procs c s t (procs s)"
proof -
  have "allocproc s = thenK (acquire PtableLock) (thenK (modifyK (\<lambda>s. s\<lparr>procs := id (procs s)\<rparr>))
      (thenK (release PtableLock) (retK None))) s"
    using assms(3) acquire_free [OF assms(1), of PtableLock] assms(2)
    by (simp add: allocproc_def thenK_def bindK_def lock_free_def)
  then show ?thesis using ptable_section [OF assms(1,2), of id "None :: nat option"] by simp
qed

lemma allocproc_nomem:
  assumes "cpu_ok c s" and "lock_free PtableLock s" and "kready c s" and "kmem_inv s []"
    and i: "first_index (\<lambda>p. pstate p = UNUSED) (procs s) = Some i"
  shows "\<exists>t. allocproc s = Ret None t \<and> same_cpu c s t \<and> nextpid t = nextpid s + 1 \<and>
    procs t = (procs s)[i := (procs s ! i)\<lparr>pid := nextpid s, kstack := 0, pstate := UNUSED\<rparr>]"
proof -
  obtain t where t: "same_cpu c s t" "mem t = mem s" "procs t = (procs s)[i := embryo s (procs s ! i)]"
    "nextpid t = nextpid s + 1" "kend t = kend s" "use_lock t = use_lock s" "freelist t = freelist s"
    and eq: "allocproc s = bindK kalloc (\<lambda>ks.
       thenK (modifyK (upd_proc i (\<lambda>p. p\<lparr>kstack := ks\<rparr>)))
       (if ks = 0 then thenK (modifyK (upd_proc i (\<lambda>p. p\<lparr>pstate := UNUSED\<rparr>))) (retK None)
        else thenK (modifyK (\<lambda>s. (upd_proc i (\<lambda>p. p\<lparr>tf := ks + KSTACKSIZE - 76,
                 ctx := ks + KSTACKSIZE - 76 - 4 - 20\<rparr>) s)
               \<lparr>mem := init_kstack ks (trapret s) (forkret_addr s) (mem s)\<rparr>))
          (retK (Some i)))) t"
    by (rule allocproc_claim [OF assms(1,2) i])
  have "kready c t" using kready_same_cpu [OF t(1,6) assms(3)] .
  moreover have "kmem_inv t []" using assms(4) t(2,5,7) by (simp add: kmem_inv_def)
  ultimately obtain u where u: "kalloc t = Ret 0 u" "same_cpu c t u" "kmachine.more u = kmachine.more t"
    using kalloc_inv_Nil [of t c] by blast
  have il: "i < length (procs s)" using first_index_SomeD [OF i] by simp
  let ?w = "upd_proc i (\<lambda>p. p\<lparr>pstate := UNUSED\<rparr>) (upd_proc i (\<lambda>p. p\<lparr>kstack := 0\<rparr>) u)"
  have "same_cpu c u ?w" by (rule same_cpuI) simp_all
  then have "same_cpu c s ?w" by (rule same_cpu_trans [OF same_cpu_trans [OF t(1) u(2)]])
  moreover have "allocproc s = Ret None ?w" using eq u(1) by (simp add: bindK_def)
  ultimately show ?thesis
    using pm_of_kmachine(1,2) [OF u(3)] t(3,4) il by (simp add: embryo_def)
qed

lemma allocproc_ok:
  assumes "cpu_ok c s" and "lock_free PtableLock s" and "kready c s" and kinv: "kmem_inv s (ks # xs)"
    and i: "first_index (\<lambda>p. pstate p = UNUSED) (procs s) = Some i"
  shows "\<exists>t. allocproc s = Ret (Some i) t \<and> same_cpu c s t \<and> nextpid t = nextpid s + 1 \<and> kmem_inv t xs \<and>
    procs t = (procs s)[i := (embryo s (procs s ! i))\<lparr>kstack := ks, tf := ks + KSTACKSIZE - 76,
       ctx := ks + KSTACKSIZE - 76 - 4 - 20\<rparr>] \<and>
    mem t = init_kstack ks (trapret s) (forkret_addr s) (mem s)"
proof -
  obtain t where t: "same_cpu c s t" "mem t = mem s" "procs t = (procs s)[i := embryo s (procs s ! i)]"
    "nextpid t = nextpid s + 1" "kend t = kend s" "use_lock t = use_lock s" "freelist t = freelist s"
    "trapret t = trapret s" "forkret_addr t = forkret_addr s"
    and eq: "allocproc s = bindK kalloc (\<lambda>ks.
       thenK (modifyK (upd_proc i (\<lambda>p. p\<lparr>kstack := ks\<rparr>)))
       (if ks = 0 then thenK (modifyK (upd_proc i (\<lambda>p. p\<lparr>pstate := UNUSED\<rparr>))) (retK None)
        else thenK (modifyK (\<lambda>s. (upd_proc i (\<lambda>p. p\<lparr>tf := ks + KSTACKSIZE - 76,
                 ctx := ks + KSTACKSIZE - 76 - 4 - 20\<rparr>) s)
               \<lparr>mem := init_kstack ks (trapret s) (forkret_addr s) (mem s)\<rparr>))
          (retK (Some i)))) t"
    by (rule allocproc_claim [OF assms(1,2) i])
  have "kready c t" using kready_same_cpu [OF t(1,6) assms(3)] .
  moreover have "kmem_inv t (ks # xs)"
    using kinv t(2,5,7) kpage_cong [OF t(5)] by (simp add: kmem_inv_def)
  ultimately obtain u where u: "kalloc t = Ret ks u" "kmem_inv u xs" "same_cpu c t u" "mem u = mem t"
      "kmachine.more u = kmachine.more t" "kend u = kend t"
    using kalloc_inv_Cons [of t ks xs c] by blast
  have il: "i < length (procs s)" using first_index_SomeD [OF i] by simp
  have kp: "kpage s ks" "ks \<notin> set xs" using kinv by (auto simp: kmem_inv_def)
  have fr: "frame ks" by (rule kpage_frame [OF kp(1)])
  note pm = pm_of_kmachine [OF u(5)]
  let ?v = "upd_proc i (\<lambda>p. p\<lparr>kstack := ks\<rparr>) u"
  let ?w = "(upd_proc i (\<lambda>p. p\<lparr>tf := ks + KSTACKSIZE - 76, ctx := ks + KSTACKSIZE - 76 - 4 - 20\<rparr>) ?v)
      \<lparr>mem := init_kstack ks (trapret s) (forkret_addr s) (mem s)\<rparr>"
  have "same_cpu c u ?w" by (rule same_cpuI) simp_all
  then have "same_cpu c s ?w" by (rule same_cpu_trans [OF same_cpu_trans [OF t(1) u(3)]])
  moreover have "allocproc s = Ret (Some i) ?w"
    using eq u(1,4) kpage_nonzero [OF kp(1)] t(2,8,9) pm(9,10) by (simp add: bindK_def)
  moreover have "kmem_inv ?w xs"
  proof (rule kmem_inv_mem [OF u(2)])
    fix x b assume x: "x \<in> set xs" and b: "in_range b x 4096"
    have "frame x" "x \<noteq> ks" using x kp(2) kinv by (auto simp: kmem_inv_def intro: kpage_frame)
    then have "\<not> in_range b ks 4096" using frame_disjoint [of x ks b] fr b by blast
    then show "mem ?w b = mem u b" using init_kstack_out [OF fr] u(4) t(2) by simp
  qed simp_all
  ultimately show ?thesis
    using pm(1,2) t(3,4) il by (simp add: embryo_def)
qed

section \<open>A concrete machine\<close>

text \<open>
  One CPU that runs the process in slot 0; all other slots are unused and two pages are
  free.
\<close>

definition blank_proc :: proc where
  "blank_proc = \<lparr>sz = 0, pgdir = 0, kstack = 0, pstate = UNUSED, pid = 0, parent = None, tf = 0, ctx = 0,
     chan = None, killed = 0, ofile = replicate 16 None, cwd = None, pname = replicate 16 0, ustack = 0,
     refs = 0, tickets = 0, sv_intena = 0\<rparr>"

definition pm_demo :: pmachine where
  "pm_demo = machine.extend
     (one_cpu\<lparr>mem := store32 (\<lambda>a. 0) 0x80200000 0x80300000, cpus := map (\<lambda>k. k\<lparr>cproc := Some 0\<rparr>) (cpus one_cpu)\<rparr>)
     \<lparr>kend = 0x80110000, use_lock = 1, freelist = 0x80200000,
      kdata = 0x80108000, kpgdir = 0, cr3 = 0, tr = 0, kout = [],
      procs = blank_proc\<lparr>pstate := RUNNING, pid := 1, tickets := 1\<rparr> # replicate 63 blank_proc,
      initproc = Some 0, nextpid = 2, mutexes = replicate 5 \<lparr>mid = 0, mstate = LOCKED\<rparr>, nextmid = 1,
      zs = (12345, 12345, 12345, 12345), bcount = 0, proc_count = 0, trapret = 0x80105000,
      forkret_addr = 0x80103000, ts_addr = (\<lambda>c. 0x80112000)\<rparr>"

lemma pm_demo_sel:
  "cpus pm_demo = map (\<lambda>k. k\<lparr>cproc := Some 0\<rparr>) (cpus one_cpu)" "eflags pm_demo = 0x202"
  "lock_free L pm_demo" "cproc (cpus pm_demo ! 0) = Some 0" "ncli (cpus pm_demo ! 0) = 0"
  "procs pm_demo = blank_proc\<lparr>pstate := RUNNING, pid := 1, tickets := 1\<rparr> # replicate 63 blank_proc"
  "use_lock pm_demo = 1" "nextpid pm_demo = 2" "length (procs pm_demo) = 64"
  by (simp_all add: pm_demo_def machine.defs one_cpu_def lock_free_def)

lemma pm_demo_ok: "cpu_ok 0 pm_demo" "kready 0 pm_demo" "kmem_inv pm_demo [0x80200000, 0x80300000]"
proof -
  show ok: "cpu_ok 0 pm_demo"
    by (simp add: cpu_ok_def pm_demo_def machine.defs one_cpu_def cur_cpu_def lapicid_def)
  show "kready 0 pm_demo" using ok by (simp add: kready_def pm_demo_sel)
  show "kmem_inv pm_demo [0x80200000, 0x80300000]"
    by (simp add: kmem_inv_def pm_demo_def kpage_def V2P_def machine.defs)
      (simp add: load32_def store32_def)
qed

section \<open>Main properties\<close>



text \<open>
  C21. \<^verbatim>\<open>allocproc\<close> returns null when the table is full, leaving it as it was. Otherwise it takes
  the first unused slot and a new process id. When no page is left for the kernel stack it
  returns null with the slot unused again; otherwise the slot is an embryo whose saved
  context returns to \<^verbatim>\<open>forkret\<close>, and from there to \<^verbatim>\<open>trapret\<close>.
\<close>

theorem allocproc_correct:
  assumes "cpu_ok c s" and "lock_free PtableLock s" and "kready c s" and "kmem_inv s xs"
  shows "case first_index (\<lambda>p. pstate p = UNUSED) (procs s) of
      None \<Rightarrow> \<exists>t. allocproc s = Ret None t \<and> procs t = procs s \<and> nextpid t = nextpid s
    | Some i \<Rightarrow>
       (case xs of
          [] \<Rightarrow> \<exists>t. allocproc s = Ret None t \<and> pstate (procs t ! i) = UNUSED \<and> nextpid t = nextpid s + 1
        | ks # ys \<Rightarrow> \<exists>t. allocproc s = Ret (Some i) t \<and> pstate (procs t ! i) = EMBRYO \<and>
            pid (procs t ! i) = nextpid s \<and> nextpid t = nextpid s + 1 \<and> kstack (procs t ! i) = ks \<and>
            kmem_inv t ys \<and> load32 (mem t) (ctx (procs t ! i) + 16) = forkret_addr s \<and>
            load32 (mem t) (ctx (procs t ! i) + 20) = trapret s \<and>
            (\<forall>j. j \<noteq> i \<longrightarrow> procs t ! j = procs s ! j))"
proof (cases "first_index (\<lambda>p. pstate p = UNUSED) (procs s)")
  case None
  then show ?thesis using allocproc_full [OF assms(1,2)] only_procs_procs by fastforce
next
  case i: (Some i)
  have il: "i < length (procs s)" using first_index_SomeD [OF i] by simp
  show ?thesis
  proof (cases xs)
    case Nil
    then show ?thesis using allocproc_nomem [OF assms(1-3) _ i] assms(4) i il by fastforce
  next
    case (Cons ks ys)
    obtain t where t: "allocproc s = Ret (Some i) t" "nextpid t = nextpid s + 1" "kmem_inv t ys"
      "procs t = (procs s)[i := (embryo s (procs s ! i))\<lparr>kstack := ks, tf := ks + KSTACKSIZE - 76,
         ctx := ks + KSTACKSIZE - 76 - 4 - 20\<rparr>]"
      "mem t = init_kstack ks (trapret s) (forkret_addr s) (mem s)"
      using allocproc_ok [OF assms(1-3) assms(4) [unfolded Cons] i] by blast
    have "frame ks" using assms(4) Cons by (auto simp: kmem_inv_def intro: kpage_frame)
    from init_kstack_words [OF this, of "trapret s" "forkret_addr s" "mem s"] t il show ?thesis
      using i Cons by (simp add: embryo_def)
  qed
qed

theorem allocproc_correct_witness:
  "\<exists>t. allocproc pm_demo = Ret (Some 1) t \<and> pid (procs t ! 1) = 2"
proof -
  have "first_index (\<lambda>p. pstate p = UNUSED) (procs pm_demo) = Some 1"
    by (simp add: pm_demo_sel blank_proc_def numeral_eq_Suc)
  then show ?thesis
    using allocproc_correct [OF pm_demo_ok(1) _ pm_demo_ok(2,3)] by (auto simp: pm_demo_sel)
qed

text \<open>
  C22. \<^verbatim>\<open>kill\<close> marks the first slot with the given process id as killed and makes it runnable if
  it was sleeping, and changes no other slot; without such a slot it returns -1 and the
  table is as it was.
\<close>

theorem kill_correct:
  assumes "cpu_ok c s" and "lock_free PtableLock s"
  shows "\<exists>r t. kill n s = Ret r t \<and> same_cpu c s t \<and> nextpid t = nextpid s \<and>
    (case first_index (\<lambda>p. pid p = n) (procs s) of
       None \<Rightarrow> r = - 1 \<and> procs t = procs s
     | Some i \<Rightarrow> r = 0 \<and> procs t = (procs s)[i := (procs s ! i)\<lparr>killed := 1,
         pstate := (if pstate (procs s ! i) = SLEEPING then RUNNABLE else pstate (procs s ! i))\<rparr>])"
  using kill_eq [OF assms, of n] only_procs_procs [of c s] unfolding only_procs_def killed_proc_def
  by (fastforce split: option.splits)

theorem kill_correct_witness:
  "\<exists>t. kill 1 pm_demo = Ret 0 t \<and> killed (procs t ! 0) = 1"
  using kill_correct [OF pm_demo_ok(1), of 1] by (auto simp: pm_demo_sel)

end
