(* ===== verification/Proc_Keep.thy ===== *)
theory Proc_Keep
  imports Proc_Inv
begin

text \<open>
  The invariant of the process table. Every operation of \<open>Proc_Table\<close> keeps it, in every
  outcome and without any condition on the state it is called in.
\<close>

section \<open>The invariant of the process table\<close>

text \<open>
  The table has its fixed size, process ids are below \<^verbatim>\<open>nextpid\<close>, and no two slots have the same
  process id unless it is 0, the id of a slot that was reaped or never used.
\<close>

definition proc_inv :: "proc list \<Rightarrow> int \<Rightarrow> bool" where
  "proc_inv ps n \<longleftrightarrow> length ps = NPROC \<and> 0 < n \<and>
     (\<forall>p\<in>set ps. 0 \<le> pid p \<and> pid p < n \<and> length (ofile p) = NOFILE \<and> length (pname p) = 16) \<and>
     (\<forall>i<length ps. \<forall>j<length ps. pid (ps ! i) = pid (ps ! j) \<longrightarrow> pid (ps ! i) \<noteq> 0 \<longrightarrow> i = j)"

definition table_ok :: "'z pmachine_scheme \<Rightarrow> bool" where
  "table_ok s \<longleftrightarrow> proc_inv (procs s) (nextpid s)"

lemma proc_inv_iff:
  "proc_inv ps n \<longleftrightarrow> length ps = NPROC \<and> 0 < n \<and>
     (\<forall>i<length ps. 0 \<le> pid (ps ! i) \<and> pid (ps ! i) < n \<and> length (ofile (ps ! i)) = NOFILE \<and>
        length (pname (ps ! i)) = 16) \<and>
     (\<forall>i<length ps. \<forall>j<length ps. pid (ps ! i) = pid (ps ! j) \<longrightarrow> pid (ps ! i) \<noteq> 0 \<longrightarrow> i = j)"
  unfolding proc_inv_def all_set_conv_all_nth by simp

lemma proc_inv_entry:
  "proc_inv ps n \<Longrightarrow> i < length ps \<Longrightarrow> 0 \<le> pid (ps ! i) \<and> pid (ps ! i) < n \<and>
     length (ofile (ps ! i)) = NOFILE \<and> length (pname (ps ! i)) = 16"
  by (simp add: proc_inv_iff)

lemma proc_inv_distinct:
  "proc_inv ps n \<Longrightarrow> i < length ps \<Longrightarrow> j < length ps \<Longrightarrow> pid (ps ! i) = pid (ps ! j) \<Longrightarrow>
   pid (ps ! i) \<noteq> 0 \<Longrightarrow> i = j"
  by (simp add: proc_inv_iff)

text \<open>Changing one entry: the entry is well formed, and its process id is 0 or not used elsewhere.\<close>

lemma proc_inv_entryI:
  assumes inv: "proc_inv ps n" and m: "n \<le> m" and i: "i < length ps" and q: "0 \<le> pid q" "pid q < m"
    "length (ofile q) = NOFILE" "length (pname q) = 16"
    and new: "\<And>j. j < length ps \<Longrightarrow> j \<noteq> i \<Longrightarrow> pid q \<noteq> 0 \<Longrightarrow> pid (ps ! j) \<noteq> pid q"
  shows "proc_inv (ps[i := q]) m"
  unfolding proc_inv_iff length_list_update
proof (intro conjI allI impI)
  show "length ps = NPROC" "0 < m" using inv m by (simp_all add: proc_inv_iff)
  fix a assume a: "a < length ps"
  show "0 \<le> pid (ps[i := q] ! a)" "pid (ps[i := q] ! a) < m" "length (ofile (ps[i := q] ! a)) = NOFILE"
    "length (pname (ps[i := q] ! a)) = 16"
    using proc_inv_entry [OF inv a] q m i by (auto simp: nth_list_update)
  fix b assume b: "b < length ps" and e: "pid (ps[i := q] ! a) = pid (ps[i := q] ! b)" "pid (ps[i := q] ! a) \<noteq> 0"
  show "a = b"
  proof (cases "a = i"; cases "b = i")
    assume "a = i" "b \<noteq> i"
    then show ?thesis using e new [OF b] a by simp
  next
    assume "a \<noteq> i" "b = i"
    then show ?thesis using e new [OF a] b by simp
  next
    assume "a \<noteq> i" "b \<noteq> i"
    then show ?thesis using e proc_inv_distinct [OF inv a b] by simp
  qed simp
qed

lemma proc_inv_upd:
  assumes "proc_inv ps n" and "pid q = pid (ps ! i) \<or> pid q = 0"
    and "length (ofile q) = length (ofile (ps ! i))" and "length (pname q) = length (pname (ps ! i))"
  shows "proc_inv (ps[i := q]) n"
proof (cases "i < length ps")
  case True
  have "pid (ps ! j) \<noteq> pid q" if "j < length ps" "j \<noteq> i" "pid q \<noteq> 0" for j
    using proc_inv_distinct [OF assms(1) that(1) True] that assms(2) by auto
  moreover have "0 \<le> pid q" "pid q < n"
    using assms(1,2) proc_inv_entry [OF assms(1) True] by (auto simp: proc_inv_def)
  ultimately show ?thesis
    using proc_inv_entry [OF assms(1) True] assms(3,4)
    by (intro proc_inv_entryI [OF assms(1) order_refl True]) simp_all
qed (use assms(1) in \<open>simp add: list_update_beyond\<close>)

lemma proc_inv_fresh:
  assumes "proc_inv ps n" and "pid q = n" and "i < length ps"
    and "length (ofile q) = length (ofile (ps ! i))" and "length (pname q) = length (pname (ps ! i))"
  shows "proc_inv (ps[i := q]) (n + 1)"
proof (rule proc_inv_entryI [OF assms(1) _ assms(3)])
  show "pid (ps ! j) \<noteq> pid q" if "j < length ps" for j
    using proc_inv_entry [OF assms(1) that] assms(2) by simp
  show "0 \<le> pid q" using assms(1,2) by (simp add: proc_inv_iff)
qed (use proc_inv_entry [OF assms(1,3)] assms(2,4,5) in simp_all)

lemma proc_inv_map:
  assumes "proc_inv ps n"
    and "\<And>p. pid (h p) = pid p \<and> length (ofile (h p)) = length (ofile p) \<and> length (pname (h p)) = length (pname p)"
  shows "proc_inv (map h ps) n"
  using assms by (simp add: proc_inv_iff)

lemma table_ok_upd:
  assumes "table_ok s"
    and "\<And>p. (pid (f p) = pid p \<or> pid (f p) = 0) \<and> length (ofile (f p)) = length (ofile p) \<and>
      length (pname (f p)) = length (pname p)"
  shows "table_ok (upd_proc i f s)"
  using assms(1) proc_inv_upd [of "procs s" "nextpid s" "f (procs s ! i)" i] assms(2)
  by (simp add: table_ok_def)

lemma procs_of_vmachine:
  assumes "vmachine.more t = vmachine.more s"
  shows "procs t = procs s" "nextpid t = nextpid s"
  using assms by (cases s; cases t; simp)+

lemma table_ok_tables [keep_intros]: "tables_only table_ok"
  unfolding tables_only_def
proof (intro allI impI)
  fix s t :: "'z pmachine_scheme"
  assume e: "vmachine.more t = vmachine.more s"
  show "table_ok s = table_ok t" using procs_of_vmachine [OF e] by (simp add: table_ok_def)
qed

lemma keep_upd_proc:
  "(\<And>p. (pid (f p) = pid p \<or> pid (f p) = 0) \<and> length (ofile (f p)) = length (ofile p) \<and>
      length (pname (f p)) = length (pname p)) \<Longrightarrow> preservesK table_ok (modifyK (upd_proc i f))"
  by (intro keep_intros table_ok_upd)

lemma keep_wakeup1: "table_ok s \<Longrightarrow> table_ok (wakeup1 ch s)"
  using proc_inv_map [of "procs s" "nextpid s" "woken ch"] by (simp add: table_ok_def woken_def)

lemma keep_wakeup [keep_intros]: "preservesK table_ok (wakeup ch)"
  unfolding wakeup_def by (intro keep_intros keep_wakeup1)

lemma keep_kill [keep_intros]: "preservesK table_ok (kill n)"
  unfolding kill_def by (intro keep_intros keep_upd_proc) auto

lemma keep_derefK [keep_intros]: "(\<And>i. preservesK I (f i)) \<Longrightarrow> preservesK I (derefK p f)"
  unfolding derefK_def by (intro keep_intros)

lemma keep_switchuvm [keep_intros]: "tables_only I \<Longrightarrow> preservesK I (switchuvm p)"
proof -
  assume t: "tables_only I"
  have "okK I (switchuvm p s)" if "I s" for s
  proof (cases p)
    case (Some i)
    let ?q = "procs s ! i"
    let ?f = "thenK pushcli (bindK mycpu (\<lambda>c. thenK (modifyK (\<lambda>s. upd_cpu c (\<lambda>k. k\<lparr>
        gdt := (gdt k)[SEG_TSS := (SEG16 9 (ts_addr s c) 103 0)\<lparr>sd_s := 0\<rparr>],
        ts_ss0 := 0x10, ts_esp0 := kstack ?q + KSTACKSIZE, ts_iomb := 0xFFFF\<rparr>) s))
        (thenK (ltr 0x28) (thenK (lcr3 (V2P (pgdir ?q))) popcli))))"
    have "preservesK I ?f" by (intro keep_intros t) (simp add: tables_only_eq [OF t])
    then have "okK I (?f s)" using that by (simp add: preservesK_def)
    then show ?thesis using Some by (simp add: switchuvm_def Let_def)
  qed (simp add: switchuvm_def)
  then show ?thesis by (simp add: preservesK_def)
qed

lemma keep_growproc [keep_intros]: "preservesK table_ok (growproc n)"
  unfolding growproc_def by (intro keep_intros keep_upd_proc) auto

lemma keep_sched [keep_intros]: "preservesK table_ok sched"
  unfolding sched_def
  by (intro keep_intros) (auto simp: preservesK_def derefK_def intro!: table_ok_upd split: option.splits)

lemma keep_sched_resume [keep_intros]: "tables_only I \<Longrightarrow> preservesK I (sched_resume i)"
  unfolding sched_resume_def by (intro keep_intros) (simp add: tables_only_eq)

lemma keep_yield [keep_intros]: "preservesK table_ok yield" "preservesK table_ok (yield_resume i)"
  unfolding yield_def yield_resume_def by (intro keep_intros keep_upd_proc; simp)+

lemma keep_sleep [keep_intros]: "preservesK table_ok (sleep ch lk)" "preservesK table_ok (sleep_resume i l)"
  unfolding sleep_def sleep_resume_def by (intro keep_intros keep_upd_proc; simp)+

lemma keep_wait_iter [keep_intros]: "preservesK table_ok (wait_iter cur)"
  unfolding wait_iter_def by (intro keep_intros keep_upd_proc) (auto simp: reaped_def)

lemma keep_wait [keep_intros]: "preservesK table_ok wait" "preservesK table_ok (wait_resume cur)"
  unfolding wait_def wait_resume_def by (intro keep_intros)+

lemma keep_join_iter [keep_intros]: "preservesK table_ok (join_iter st cur)"
  unfolding join_iter_def by (intro keep_intros keep_upd_proc) (auto simp: reaped_def)

lemma keep_join [keep_intros]: "preservesK table_ok (join st)" "preservesK table_ok (join_resume st cur)"
  unfolding join_def join_resume_def by (intro keep_intros)+

lemma table_ok_fresh:
  assumes ok: "table_ok s"
  shows "table_ok ((upd_proc i (\<lambda>p. p\<lparr>pstate := EMBRYO, pid := nextpid s\<rparr>) s)\<lparr>nextpid := nextpid s + 1\<rparr>)"
proof (cases "i < length (procs s)")
  case True
  then show ?thesis
    using ok proc_inv_fresh [of "procs s" "nextpid s" "(procs s ! i)\<lparr>pstate := EMBRYO, pid := nextpid s\<rparr>" i]
    by (simp add: table_ok_def)
next
  case False
  then show ?thesis using ok by (fastforce simp: table_ok_def proc_inv_iff list_update_beyond)
qed

lemma keep_allocproc [keep_intros]: "preservesK table_ok allocproc"
  unfolding allocproc_def
  by (intro keep_intros keep_upd_proc)
    (auto simp: tables_only_eq [OF table_ok_tables] intro!: table_ok_upd table_ok_fresh)

section \<open>What the process table is not part of\<close>

text \<open>
  A property of the tables of other components that does not look at the process table is kept
  by everything in \<^verbatim>\<open>proc.c\<close> that sleeps or wakes up.
\<close>

named_theorems blind_keep \<open>operations of the process table keep what does not look at it\<close>

definition procs_blind :: "('z pmachine_scheme \<Rightarrow> bool) \<Rightarrow> bool" where
  "procs_blind I \<longleftrightarrow> tables_only I \<and> (\<forall>s ps. I s \<longrightarrow> I (s\<lparr>procs := ps\<rparr>))"

lemma procs_blindD:
  assumes "procs_blind I"
  shows "tables_only I" "I s \<Longrightarrow> I (upd_proc i f s)" "I s \<Longrightarrow> I (wakeup1 ch s)"
  using assms by (simp_all add: procs_blind_def upd_proc_def wakeup1_def)

lemma blind_tables [blind_keep]: "procs_blind I \<Longrightarrow> tables_only I"
  by (rule procs_blindD)

lemma keep_blind_upd_proc [blind_keep]: "procs_blind I \<Longrightarrow> preservesK I (modifyK (upd_proc i f))"
  by (simp add: preservesK_def procs_blindD)

lemma keep_blind_wakeup1 [blind_keep]: "procs_blind I \<Longrightarrow> preservesK I (modifyK (wakeup1 ch))"
  by (simp add: preservesK_def procs_blindD)

lemma keep_blind_sched [blind_keep]:
  assumes "procs_blind I"
  shows "preservesK I sched"
proof -
  have t: "tables_only I" using assms by (rule procs_blindD)
  show ?thesis
    unfolding sched_def
    by (intro keep_intros t)
      (auto simp: preservesK_def derefK_def intro!: procs_blindD(2) [OF assms] split: option.splits)
qed

lemma keep_blind_wakeup [blind_keep]: "procs_blind I \<Longrightarrow> preservesK I (wakeup ch)"
  unfolding wakeup_def by (intro keep_intros blind_keep)

lemma keep_blind_sleep [blind_keep]:
  "procs_blind I \<Longrightarrow> preservesK I (sleep ch lk)" "procs_blind I \<Longrightarrow> preservesK I (sleep_resume i l)"
  "procs_blind I \<Longrightarrow> preservesK I yield" "procs_blind I \<Longrightarrow> preservesK I (yield_resume i)"
  unfolding sleep_def sleep_resume_def yield_def yield_resume_def
  by (intro keep_intros blind_keep; assumption)+

section \<open>Main properties\<close>


end
