(* ===== verification/Scheduler.thy ===== *)
theory Scheduler
  imports Proc_Keep
begin

text \<open>
  The ticket scheduler of \<^verbatim>\<open>proc.c\<close>: \<^verbatim>\<open>get_tickets\<close>, \<^verbatim>\<open>change_tickets\<close>, the pseudo-random generator
  \<^verbatim>\<open>random\<close> and the loop of \<^verbatim>\<open>scheduler\<close>. The loop is cut at its \<^verbatim>\<open>swtch\<close>: \<open>scheduler_scan\<close> runs over
  the table until it switches to a process (its result is that process) or reaches the end;
  \<open>scheduler_back\<close> is what follows when the process has switched back.
\<close>

section \<open>Tickets\<close>

text \<open>The sum is a C \<^verbatim>\<open>int\<close>: 32 bits, read as a signed number.\<close>

definition get_tickets :: "'z pmachine_scheme \<Rightarrow> int" where
  "get_tickets s =
     sint (sum_list (map (\<lambda>p. if pstate p = RUNNABLE then of_int (tickets p) else 0) (procs s)) :: uint32)"

definition change_tickets :: "int \<Rightarrow> int \<Rightarrow> (int, 'z pmachine_scheme) kern" where
  "change_tickets n t =
     thenK (cprint ''process: %d, set tickets to: %d\<newline>'' [PInt n, PInt t])
     (thenK (acquire PtableLock)
     (bindK (getsK (\<lambda>s. first_index (\<lambda>p. pid p = n) (procs s))) (\<lambda>f.
      thenK (case f of None \<Rightarrow> retK () | Some i \<Rightarrow> modifyK (upd_proc i (\<lambda>p. p\<lparr>tickets := t\<rparr>)))
      (thenK (release PtableLock) (retK n)))))"

section \<open>The random numbers\<close>

text \<open>
  One component generator: \<^verbatim>\<open>b = ((z << s1) ^ z) >> s2; z = ((z & m) << s3) ^ b\<close>. The shifts of
  the first line are on \<^verbatim>\<open>int\<close> (\<^verbatim>\<open>>>\<close> keeps the sign); the masks are too big for an \<^verbatim>\<open>int\<close>, so
  the second line is computed in 64 bits and cut off when it is stored.
\<close>

definition lfsr :: "nat \<Rightarrow> nat \<Rightarrow> longlong \<Rightarrow> nat \<Rightarrow> uint32 \<Rightarrow> uint32" where
  "lfsr s1 s2 m s3 z =
     (let b = signed_drop_bit s2 (push_bit s1 z XOR z)
      in ucast (push_bit s3 (scast z AND m) XOR (scast b :: longlong)))"

definition random :: "int \<Rightarrow> 'z pmachine_scheme \<Rightarrow> int \<times> 'z pmachine_scheme" where
  "random mx s =
     (if mx \<le> 0 then (1, s)
      else
        (let (z1, z2, z3, z4) = zs s;
             z1' = lfsr 6 13 4294967294 18 z1;
             z2' = lfsr 2 27 4294967288 2 z2;
             z3' = lfsr 13 21 4294967280 7 z3;
             z4' = lfsr 3 12 4294967168 13 z4;
             num = sint (z1' XOR z2' XOR z3' XOR z4') smod mx
         in (if num < 0 then num * - 1 else num, s\<lparr>zs := (z1', z2', z3', z4')\<rparr>)))"

section \<open>The scheduler\<close>

definition set_cproc :: "nat \<Rightarrow> nat option \<Rightarrow> 'z pmachine_scheme \<Rightarrow> 'z pmachine_scheme" where
  "set_cproc c p = upd_cpu c (\<lambda>k. k\<lparr>cproc := p\<rparr>)"

definition draw :: "'z pmachine_scheme \<Rightarrow> int \<times> 'z pmachine_scheme" where
  "draw s = (if get_tickets s > 0 then random (get_tickets s) s else (- 1, s))"

fun scheduler_scan :: "nat \<Rightarrow> nat list \<Rightarrow> (nat option, 'z pmachine_scheme) kern" where
  "scheduler_scan c [] s = thenK (release PtableLock) (retK None) s"
| "scheduler_scan c (i # is) s =
     (if pstate (procs s ! i) \<noteq> RUNNABLE then scheduler_scan c is s
      else
        (let (choice, s') = draw s
         in if choice \<ge> tickets (procs s' ! i) then scheduler_scan c is s'
            else thenK (modifyK (set_cproc c (Some i)))
              (thenK (switchuvm (Some i))
              (thenK (modifyK (upd_proc i (\<lambda>p. p\<lparr>pstate := RUNNING\<rparr>))) (retK (Some i)))) s'))"

definition scheduler_round :: "nat \<Rightarrow> (nat option, 'z pmachine_scheme) kern" where
  "scheduler_round c =
     thenK (modifyK sti) (thenK (acquire PtableLock) (scheduler_scan c [0..<NPROC]))"

definition scheduler_back :: "nat \<Rightarrow> nat \<Rightarrow> (nat option, 'z pmachine_scheme) kern" where
  "scheduler_back c i =
     thenK switchkvm (thenK (modifyK (set_cproc c None)) (scheduler_scan c [Suc i..<NPROC]))"

definition scheduler :: "(nat option, 'z pmachine_scheme) kern" where
  "scheduler = bindK mycpu (\<lambda>c. thenK (modifyK (set_cproc c None)) (scheduler_round c))"

section \<open>Lemmas\<close>

text \<open>The 64-bit computation of the second line has the same low 32 bits as a 32-bit one.\<close>

lemma lfsr_32:
  "lfsr s1 s2 m s3 z =
     push_bit s3 (z AND ucast m) XOR signed_drop_bit s2 (push_bit s1 z XOR z)"
proof (rule bit_word_eqI)
  fix n assume n: "n < LENGTH(32)"
  show "bit (lfsr s1 s2 m s3 z) n =
      bit (push_bit s3 (z AND ucast m) XOR signed_drop_bit s2 (push_bit s1 z XOR z)) n"
    unfolding lfsr_def Let_def
    using n by (simp add: bit_xor_iff bit_push_bit_iff bit_and_iff bit_unsigned_iff bit_signed_iff) auto
qed

lemma smod_bounds:
  fixes a b :: int
  assumes "0 < b"
  shows "\<bar>a smod b\<bar> < b"
proof -
  have "a smod b = sgn a * (\<bar>a\<bar> mod b)"
    using assms by (simp add: signed_modulo_int_def)
  moreover have "0 \<le> \<bar>a\<bar> mod b" "\<bar>a\<bar> mod b < b" using assms by auto
  ultimately show ?thesis using assms by (simp add: abs_mult sgn_if)
qed

lemma random_pos:
  assumes "0 < mx" and "random mx s = (n, t)"
  shows "0 \<le> n \<and> n < mx"
proof -
  obtain a b c d where z: "zs s = (a, b, c, d)" by (cases "zs s")
  define k where "k = sint (lfsr 6 13 4294967294 18 a XOR lfsr 2 27 4294967288 2 b XOR
      lfsr 13 21 4294967280 7 c XOR lfsr 3 12 4294967168 13 d) smod mx"
  have "\<bar>k\<bar> < mx" unfolding k_def by (rule smod_bounds [OF assms(1)])
  moreover have "n = \<bar>k\<bar>" using assms by (auto simp: random_def z k_def Let_def)
  ultimately show ?thesis by simp
qed

lemma random_state:
  assumes "random mx s = (n, t)"
  shows "t = s\<lparr>zs := zs t\<rparr>"
  using assms by (auto simp: random_def Let_def split: if_splits prod.splits)

lemma random_next:
  assumes "0 < mx" and "zs s = (z1, z2, z3, z4)"
  shows "snd (random mx s) = s\<lparr>zs := (lfsr 6 13 4294967294 18 z1, lfsr 2 27 4294967288 2 z2,
      lfsr 13 21 4294967280 7 z3, lfsr 3 12 4294967168 13 z4)\<rparr>"
  using assms by (simp add: random_def Let_def)

lemma draw_state:
  assumes "draw s = (n, t)"
  shows "t = s\<lparr>zs := zs t\<rparr>"
  using assms random_state unfolding draw_def by (auto split: if_splits)

lemma draw_range:
  assumes "draw s = (n, t)"
  shows "if 0 < get_tickets s then 0 \<le> n \<and> n < get_tickets s else n = - 1"
  using assms random_pos unfolding draw_def by (auto split: if_splits)

lemma draw_sel:
  assumes "draw s = (n, t)"
  shows "procs t = procs s" "table_ok t = table_ok s" "owns c L t = owns c L s" "cpus t = cpus s"
proof -
  obtain z where t: "t = s\<lparr>zs := z\<rparr>" using draw_state [OF assms] by blast
  show "procs t = procs s" "table_ok t = table_ok s" "owns c L t = owns c L s" "cpus t = cpus s"
    by (simp_all add: t table_ok_def owns_def cur_cpu_def lapicid_def)
qed

text \<open>The table is not touched by the locks and by \<^verbatim>\<open>switchuvm\<close>.\<close>

lemma procs_tables: "tables_only (\<lambda>s. procs s = ps)"
  unfolding tables_only_def
proof (intro allI impI)
  fix s t :: "'z pmachine_scheme"
  assume e: "vmachine.more t = vmachine.more s"
  show "(procs s = ps) = (procs t = ps)" using procs_of_vmachine [OF e] by simp
qed

lemma procs_kept:
  assumes "\<And>ps. preservesK (\<lambda>s. procs s = ps) f" and "f s = Ret x t"
  shows "procs t = procs s"
  using assms(1) [of "procs s"] assms(2) by (auto simp: preservesK_def dest: spec [of _ s])

lemma scheduler_scan_result:
  fixes s :: "'z pmachine_scheme"
  assumes "scheduler_scan c is s = Ret r t"
  shows "case r of None \<Rightarrow> procs t = procs s
     | Some i \<Rightarrow> i \<in> set is \<and> pstate (procs s ! i) = RUNNABLE \<and>
         (\<exists>n. n < tickets (procs s ! i) \<and>
            (if 0 < get_tickets s then 0 \<le> n \<and> n < get_tickets s else n = - 1)) \<and>
         procs t = (procs s)[i := (procs s ! i)\<lparr>pstate := RUNNING\<rparr>]"
  using assms
proof (induction c "is" s arbitrary: r rule: scheduler_scan.induct)
  case (1 c s)
  have "preservesK (\<lambda>s. procs s = ps) (thenK (release PtableLock) (retK None) :: (nat option, 'z pmachine_scheme) kern)"
    for ps
    by (intro keep_intros procs_tables)
  from procs_kept [OF this] 1 have "procs t = procs s" by simp
  moreover have "r = None" using 1 by (auto simp: thenK_def bindK_def split: outcome.splits)
  ultimately show ?case by simp
next
  case (2 c i "is" s)
  obtain n s' where d: "draw s = (n, s')" by (cases "draw s")
  note same = draw_sel(1) [OF d]
  have gt: "get_tickets s' = get_tickets s" by (simp add: get_tickets_def same)
  consider (skip) "pstate (procs s ! i) \<noteq> RUNNABLE" | (lose) "pstate (procs s ! i) = RUNNABLE" "n \<ge> tickets (procs s ! i)"
    | (win) "pstate (procs s ! i) = RUNNABLE" "n < tickets (procs s ! i)" by linarith
  then show ?case
  proof cases
    case skip
    then show ?thesis using 2(1) 2(3) by (auto split: option.splits)
  next
    case lose
    then have "scheduler_scan c is s' = Ret r t" using 2(3) d same by simp
    from 2(2) [OF _ d [symmetric] _ _ this] lose same gt show ?thesis by (auto split: option.splits)
  next
    case win
    let ?f = "thenK (modifyK (set_cproc c (Some i))) (switchuvm (Some i)) :: (unit, 'z pmachine_scheme) kern"
    have e: "thenK ?f (thenK (modifyK (upd_proc i (\<lambda>p. p\<lparr>pstate := RUNNING\<rparr>))) (retK (Some i))) s' = Ret r t"
      using win d same 2(3) by (auto simp: thenK_def bindK_def split: outcome.splits)
    then obtain u where u: "?f s' = Ret () u" "t = upd_proc i (\<lambda>p. p\<lparr>pstate := RUNNING\<rparr>) u" "r = Some i"
      by (cases "?f s'") (auto simp: thenK_def bindK_def)
    have "preservesK (\<lambda>s. procs s = ps) ?f" for ps
      by (intro keep_intros procs_tables) (simp add: set_cproc_def upd_cpu_def)
    from procs_kept [OF this u(1)] have "procs u = procs s" using same by simp
    then show ?thesis using u win draw_range [OF d] by auto
  qed
qed

section \<open>Progress\<close>

lemma pushed_owned:
  assumes "owns c L s"
  shows "owns c L (pushed c s)" "1 < ncli (cpus (pushed c s) ! c)"
  using assms cpu_ok_pushed [OF owns_cpu_ok [OF assms]] cur_cpu_bound [of s c]
  by (auto simp: owns_def cpu_ok_def)

lemma switchuvm_runs:
  assumes "owns c L s" and "kstack (procs s ! i) \<noteq> 0" and "pgdir (procs s ! i) \<noteq> 0"
  shows "\<exists>t. switchuvm (Some i) s = Ret () t \<and> cr3 t = V2P (pgdir (procs s ! i)) \<and>
      cproc (cpus t ! c) = cproc (cpus s ! c) \<and> ts_esp0 (cpus t ! c) = kstack (procs s ! i) + KSTACKSIZE"
proof -
  let ?q = "procs s ! i"
  let ?s1 = "pushed c s"
  let ?s2 = "upd_cpu c (\<lambda>k. k\<lparr>gdt := (gdt k)[SEG_TSS := (SEG16 9 (ts_addr ?s1 c) 103 0)\<lparr>sd_s := 0\<rparr>],
      ts_ss0 := 0x10, ts_esp0 := kstack ?q + KSTACKSIZE, ts_iomb := 0xFFFF\<rparr>) ?s1"
  let ?s3 = "?s2\<lparr>tr := 0x28, cr3 := V2P (pgdir ?q)\<rparr>"
  have c: "cur_cpu s = Some c" "c < length (cpus s)" using assms(1) by (auto simp: owns_def dest: cur_cpu_bound)
  note p = pushed_owned [OF assms(1)]
  have p1: "cur_cpu ?s1 = Some c" "eflags ?s1 AND FL_IF = 0" using p(1) by (simp_all add: owns_def)
  have len: "c < length (cpus ?s1)" using p1(1) by (rule cur_cpu_bound)
  have "map apicid (cpus ?s3) = map apicid (cpus ?s1)" using c(2) by (simp add: map_update)
  then have p3: "cur_cpu ?s3 = Some c" "eflags ?s3 AND FL_IF = 0" "1 < ncli (cpus ?s3 ! c)"
    using p1 p(2) len cur_cpu_cong [of ?s1 ?s3] by (simp_all add: upd_cpu_def)
  have "switchuvm (Some i) s = popcli ?s3"
    using assms(2,3) pushcli_eq [OF c(1)] mycpu_eq [OF p1]
    by (simp add: switchuvm_def Let_def thenK_def bindK_def ltr_def lcr3_def)
  also have "\<dots> = Ret () (popped c ?s3)" using popcli_eq [OF p3(1,2)] p3(3) by simp
  finally have r: "switchuvm (Some i) s = Ret () (popped c ?s3)" .
  have "cproc (cpus ?s1 ! c) = cproc (cpus s ! c)" using c(2) by (simp add: pushed_def push_cpu_def)
  then show ?thesis using r p3(3) len by (simp add: popped_def Let_def upd_cpu_def)
qed

lemma owns_set_cproc: "owns c L (set_cproc d p s) = owns c L s"
  using cur_cpu_cong [of "set_cproc d p s" s]
  by (cases "d < length (cpus s)")
    (simp_all add: set_cproc_def owns_def map_apicid_upd nth_list_update list_update_beyond)

lemma scheduler_scan_only:
  fixes s :: "'z pmachine_scheme"
  assumes "owns c PtableLock s" and "i \<in> set is" and "pstate (procs s ! i) = RUNNABLE"
    and "kstack (procs s ! i) \<noteq> 0" and "pgdir (procs s ! i) \<noteq> 0"
    and "\<forall>j\<in>set is. j \<noteq> i \<longrightarrow> pstate (procs s ! j) \<noteq> RUNNABLE"
    and "0 \<le> tickets (procs s ! i)" and "get_tickets s = tickets (procs s ! i)"
  shows "\<exists>t. scheduler_scan c is s = Ret (Some i) t \<and> cproc (cpus t ! c) = Some i \<and>
      cr3 t = V2P (pgdir (procs s ! i))"
  using assms(2,6)
proof (induction "is")
  case (Cons j "is")
  show ?case
  proof (cases "j = i")
    case False
    then show ?thesis using Cons by simp
  next
    case True
    obtain n s' where d: "draw s = (n, s')" by (cases "draw s")
    have n: "n < tickets (procs s ! i)"
      using draw_range [OF d] assms(7,8) by (auto split: if_splits)
    note same = draw_sel(1,3) [OF d]
    let ?u = "set_cproc c (Some i) s'"
    have u: "procs ?u = procs s" "owns c PtableLock ?u"
      using same assms(1) by (simp_all add: owns_set_cproc) (simp add: set_cproc_def upd_cpu_def)
    then have "c < length (cpus s')" by (auto simp: owns_def set_cproc_def dest: cur_cpu_bound)
    then have cp: "cproc (cpus ?u ! c) = Some i" by (simp add: set_cproc_def)
    obtain t where t: "switchuvm (Some i) ?u = Ret () t" "cr3 t = V2P (pgdir (procs s ! i))"
        "cproc (cpus t ! c) = Some i"
      using switchuvm_runs [OF u(2), of i] u(1) assms(4,5) cp by auto
    have "scheduler_scan c (j # is) s = Ret (Some i) (upd_proc i (\<lambda>p. p\<lparr>pstate := RUNNING\<rparr>) t)"
      using True d n t(1) same assms(3) by (simp add: thenK_def bindK_def)
    then show ?thesis using t by simp
  qed
qed simp

lemma get_tickets_only:
  assumes "i < length (procs s)" and "pstate (procs s ! i) = RUNNABLE"
    and "\<forall>j<length (procs s). j \<noteq> i \<longrightarrow> pstate (procs s ! j) \<noteq> RUNNABLE"
    and "0 \<le> tickets (procs s ! i)" and "tickets (procs s ! i) < 2 ^ 31"
  shows "get_tickets s = tickets (procs s ! i)"
proof -
  let ?f = "\<lambda>p. if pstate p = RUNNABLE then of_int (tickets p) else 0 :: uint32"
  have "sum_list (map ?f (procs s)) = (\<Sum>j = 0..<length (procs s). ?f (procs s ! j))"
    by (simp add: sum_list_sum_nth)
  also have "\<dots> = (\<Sum>j = 0..<length (procs s). if j = i then ?f (procs s ! i) else 0)"
    using assms(3) by (intro sum.cong) auto
  also have "\<dots> = of_int (tickets (procs s ! i))" using assms(1,2) by simp
  finally show ?thesis
    using assms(4,5) by (simp add: get_tickets_def sint_sbintrunc' signed_take_bit_int_eq_self)
qed

lemma scheduler_round_acquired:
  assumes "cur_cpu s = Some c" and "ncli (cpus s ! c) = 0" and "lock_free PtableLock s"
  shows "scheduler_round c s = scheduler_scan c [0..<NPROC] (took c PtableLock (sti s))"
    and "owns c PtableLock (took c PtableLock (sti s))"
proof -
  have "cur_cpu (sti s) = Some c" using assms(1) cur_cpu_cong [of "sti s" s] by simp
  then have ok: "cpu_ok c (sti s)" using assms(2) by (simp add: cpu_ok_def)
  then show "scheduler_round c s = scheduler_scan c [0..<NPROC] (took c PtableLock (sti s))"
    using acquire_free [OF ok, of PtableLock] assms(3)
    by (simp add: scheduler_round_def thenK_def bindK_def lock_free_def)
  show "owns c PtableLock (took c PtableLock (sti s))" by (rule owns_took [OF ok])
qed

lemma procs_sti [simp]: "procs (sti s) = procs s"
  by (simp add: sti_def)

lemma keep_draw: "draw s = (n, t) \<Longrightarrow> table_ok s \<Longrightarrow> table_ok t"
  using draw_sel(2) by blast

lemma keep_any_scan:
  assumes "tables_only I" and "\<And>s z. I s \<Longrightarrow> I (s\<lparr>zs := z\<rparr>)" and "\<And>s i. I s \<Longrightarrow> I (upd_proc i (\<lambda>p. p\<lparr>pstate := RUNNING\<rparr>) s)"
  shows "preservesK I (scheduler_scan c js)"
proof (induction js)
  case Nil
  have "preservesK I (thenK (release PtableLock) (retK None))" by (intro keep_intros assms(1))
  then show ?case by (simp add: preservesK_def scheduler_scan.simps)
next
  case (Cons j js)
  let ?run = "thenK (modifyK (set_cproc c (Some j))) (thenK (switchuvm (Some j))
              (thenK (modifyK (upd_proc j (\<lambda>p. p\<lparr>pstate := RUNNING\<rparr>))) (retK (Some j))))"
  have r: "preservesK I ?run"
    by (intro keep_intros assms) (simp add: set_cproc_def tables_only_eq [OF assms(1)])
  show ?case unfolding preservesK_def
  proof (intro allI impI)
    fix s assume "I s"
    obtain n t where d: "draw s = (n, t)" by (cases "draw s")
    then obtain z where "t = s\<lparr>zs := z\<rparr>" using draw_state [OF d] by blast
    then have "I t" using assms(2) [OF \<open>I s\<close>] by simp
    show "okK I (scheduler_scan c (j # js) s)"
      using Cons r \<open>I s\<close> \<open>I t\<close> d by (simp add: preservesK_def scheduler_scan.simps)
  qed
qed

lemma keep_scheduler_scan [keep_intros]: "preservesK table_ok (scheduler_scan c js)"
proof (rule keep_any_scan [OF table_ok_tables])
  show "table_ok s \<Longrightarrow> table_ok (upd_proc i (\<lambda>p. p\<lparr>pstate := RUNNING\<rparr>) s)" for s :: "'a pmachine_scheme" and i
    by (rule table_ok_upd) simp_all
qed (simp add: table_ok_def)

declare scheduler_scan.simps [simp del]

lemma keep_set_cproc: "table_ok s \<Longrightarrow> table_ok (set_cproc c p s)"
  by (simp add: set_cproc_def upd_cpu_def table_ok_def)

lemma keep_sti: "table_ok s \<Longrightarrow> table_ok (sti s)"
  by (simp add: sti_def table_ok_def)

lemma keep_scheduler [keep_intros]:
  "preservesK table_ok (scheduler_round c)" "preservesK table_ok (scheduler_back c i)"
  "preservesK table_ok scheduler" "preservesK table_ok (change_tickets n k)"
  unfolding scheduler_def scheduler_round_def scheduler_back_def change_tickets_def switchkvm_def
  by (intro keep_intros keep_set_cproc keep_sti keep_upd_proc; simp)+

section \<open>Main properties\<close>

text \<open>
  A table with one runnable process, in slot 5, whose kernel stack and page table exist.
\<close>

definition sched_demo :: pmachine where
  "sched_demo = pm_demo\<lparr>procs := (procs pm_demo)
     [0 := (procs pm_demo ! 0)\<lparr>pstate := SLEEPING\<rparr>,
      5 := blank_proc\<lparr>pstate := RUNNABLE, pid := 2, tickets := 3, kstack := 0x80400000, pgdir := 0x80500000\<rparr>]\<rparr>"

lemma sched_demo_sel:
  "procs sched_demo ! 5 = blank_proc\<lparr>pstate := RUNNABLE, pid := 2, tickets := 3, kstack := 0x80400000, pgdir := 0x80500000\<rparr>"
  "length (procs sched_demo) = 64" "\<forall>j<64. j \<noteq> 5 \<longrightarrow> pstate (procs sched_demo ! j) \<noteq> RUNNABLE"
proof -
  have "procs sched_demo = (blank_proc\<lparr>pstate := SLEEPING, pid := 1, tickets := 1\<rparr> # replicate 63 blank_proc)
      [5 := blank_proc\<lparr>pstate := RUNNABLE, pid := 2, tickets := 3, kstack := 0x80400000, pgdir := 0x80500000\<rparr>]"
    by (simp add: sched_demo_def pm_demo_sel)
  then show "procs sched_demo ! 5 = blank_proc\<lparr>pstate := RUNNABLE, pid := 2, tickets := 3, kstack := 0x80400000, pgdir := 0x80500000\<rparr>"
    "length (procs sched_demo) = 64" "\<forall>j<64. j \<noteq> 5 \<longrightarrow> pstate (procs sched_demo ! j) \<noteq> RUNNABLE"
    by (auto simp: nth_Cons blank_proc_def split: nat.split)
qed

lemma sched_demo_ok:
  "cpu_ok 0 sched_demo" "lock_free PtableLock sched_demo" "ncli (cpus sched_demo ! 0) = 0"
  "cur_cpu sched_demo = Some 0"
  using pm_demo_ok(1) pm_demo_sel(3) [of PtableLock] pm_demo_sel(5)
  by (simp_all add: cpu_ok_def sched_demo_def cur_cpu_def lapicid_def lock_free_def)

text \<open>
  C35. The pseudo-random number lies in the range \<open>0 \<le> n < max\<close> when \<open>max\<close> is positive, although
  the remainder of C is negative for a negative state; only the four state words of the
  generator change, each by a 32-bit shift-register step, although the second line of
  each step is computed in 64 bits. For \<open>max \<le> 0\<close> the result is 1 and nothing changes.
\<close>

theorem random_correct:
  "if 0 < mx then 0 \<le> fst (random mx s) \<and> fst (random mx s) < mx \<and>
      (case zs s of (z1, z2, z3, z4) \<Rightarrow> snd (random mx s) = s\<lparr>zs :=
        (push_bit 18 (z1 AND 0xFFFFFFFE) XOR signed_drop_bit 13 (push_bit 6 z1 XOR z1),
         push_bit 2 (z2 AND 0xFFFFFFF8) XOR signed_drop_bit 27 (push_bit 2 z2 XOR z2),
         push_bit 7 (z3 AND 0xFFFFFFF0) XOR signed_drop_bit 21 (push_bit 13 z3 XOR z3),
         push_bit 13 (z4 AND 0xFFFFFF80) XOR signed_drop_bit 12 (push_bit 3 z4 XOR z4))\<rparr>)
   else random mx s = (1, s)"
proof (cases "0 < mx")
  case True
  obtain a b c d where z: "zs s = (a, b, c, d)" by (cases "zs s")
  have "0 \<le> fst (random mx s) \<and> fst (random mx s) < mx" by (rule random_pos [OF True prod.collapse [symmetric]])
  moreover have m: "ucast (4294967294 :: longlong) = (0xFFFFFFFE :: uint32)"
    "ucast (4294967288 :: longlong) = (0xFFFFFFF8 :: uint32)"
    "ucast (4294967280 :: longlong) = (0xFFFFFFF0 :: uint32)"
    "ucast (4294967168 :: longlong) = (0xFFFFFF80 :: uint32)" by simp_all
  ultimately show ?thesis
    by (simp only: True if_True z prod.case random_next [OF True z] lfsr_32 m simp_thms)
qed (simp add: random_def)



text \<open>
  C15. The scheduler makes progress: if a CPU starts its pass with no lock held and exactly one
  process is runnable, with a number of tickets that is not negative, the pass switches to that process, with its
  page table loaded and the CPU recorded as running it.
\<close>

theorem scheduler_progress:
  assumes "cur_cpu s = Some c" and "ncli (cpus s ! c) = 0" and "lock_free PtableLock s"
    and "length (procs s) = NPROC" and "i < NPROC" and "pstate (procs s ! i) = RUNNABLE"
    and "\<forall>j<NPROC. j \<noteq> i \<longrightarrow> pstate (procs s ! j) \<noteq> RUNNABLE"
    and "kstack (procs s ! i) \<noteq> 0" and "pgdir (procs s ! i) \<noteq> 0"
    and "0 \<le> tickets (procs s ! i)" and "tickets (procs s ! i) < 2 ^ 31"
  shows "\<exists>t. scheduler_round c s = Ret (Some i) t \<and> cproc (cpus t ! c) = Some i \<and>
      cr3 t = V2P (pgdir (procs s ! i)) \<and> procs t = (procs s)[i := (procs s ! i)\<lparr>pstate := RUNNING\<rparr>]"
proof -
  let ?s = "took c PtableLock (sti s)"
  note r = scheduler_round_acquired [OF assms(1-3)]
  have "get_tickets ?s = tickets (procs s ! i)"
    using get_tickets_only [of i ?s] assms by simp
  then obtain t where t: "scheduler_scan c [0..<NPROC] ?s = Ret (Some i) t" "cproc (cpus t ! c) = Some i"
      "cr3 t = V2P (pgdir (procs s ! i))"
    using scheduler_scan_only [OF r(2), of i "[0..<NPROC]"] assms by auto
  then show ?thesis using r(1) scheduler_scan_result [OF t(1)] by simp
qed

theorem scheduler_progress_witness:
  "\<exists>t. scheduler_round 0 sched_demo = Ret (Some 5) t \<and> cproc (cpus t ! 0) = Some 5 \<and>
     cr3 t = V2P 0x80500000"
proof -
  have "\<exists>t. scheduler_round 0 sched_demo = Ret (Some 5) t \<and> cproc (cpus t ! 0) = Some 5 \<and>
      cr3 t = V2P (pgdir (procs sched_demo ! 5)) \<and>
      procs t = (procs sched_demo)[5 := (procs sched_demo ! 5)\<lparr>pstate := RUNNING\<rparr>]"
    by (rule scheduler_progress [OF sched_demo_ok(4,3,2)])
      (simp_all add: sched_demo_sel(1,2), rule sched_demo_sel(3))
  then show ?thesis by (auto simp: sched_demo_sel(1))
qed

end
