(* ===== verification/Proc_Sync.thy ===== *)
theory Proc_Sync
  imports Scheduler Exclusion
begin

text \<open>
  The kernel mutexes and the barrier of \<^verbatim>\<open>proc.c\<close>. The first part translates the operations,
  the second is any number of threads that lock and unlock one mutex: the steps are runs of
  the operations themselves, between which the rest of the kernel may do anything that
  leaves the table of mutexes alone.
\<close>

section \<open>Mutexes\<close>

definition upd_mutex :: "nat \<Rightarrow> (mutex_struct \<Rightarrow> mutex_struct) \<Rightarrow> 'z pmachine_scheme \<Rightarrow> 'z pmachine_scheme" where
  "upd_mutex i f s = s\<lparr>mutexes := (mutexes s)[i := f (mutexes s ! i)]\<rparr>"

text \<open>
  The scans of the table read the entry before they test the bound; past the end the scan
  stops in any case, so its result is that of \<open>first_index\<close>.
\<close>

definition mutex_init :: "(int, 'z pmachine_scheme) kern" where
  "mutex_init =
     thenK (acquire MtableLock)
     (bindK (getsK (\<lambda>s. first_index (\<lambda>m. mstate m = LOCKED) (mutexes s))) (\<lambda>f.
      case f of
        None \<Rightarrow> thenK (release MtableLock) (retK (- 1))
      | Some i \<Rightarrow>
          thenK (modifyK (\<lambda>s. (upd_mutex i (\<lambda>m. m\<lparr>mid := nextmid s\<rparr>) s)\<lparr>nextmid := nextmid s + 1\<rparr>))
          (thenK (modifyK (upd_mutex i (\<lambda>m. m\<lparr>mstate := UNLOCKED\<rparr>)))
          (thenK (release MtableLock)
            (getsK (\<lambda>s. mid (mutexes s ! i)))))))"

text \<open>
  \<open>mutex_wait\<close> is the loop of \<^verbatim>\<open>mutex_lock\<close>: a turn that finds the mutex locked ends in the \<open>Block\<close> of
  \<^verbatim>\<open>sleep\<close>, and the thread goes on with \<open>mutex_lock_resume\<close>.
\<close>

definition mutex_wait :: "nat \<Rightarrow> (int, 'z pmachine_scheme) kern" where
  "mutex_wait i =
     bindK (getsK (\<lambda>s. mstate (mutexes s ! i))) (\<lambda>st.
     if st = LOCKED then thenK (sleep (ChanMutex i) (Some MtableLock)) (retK 0)
     else thenK (modifyK (upd_mutex i (\<lambda>m. m\<lparr>mstate := LOCKED\<rparr>)))
       (thenK (release MtableLock) (retK 0)))"

definition mutex_lock :: "int \<Rightarrow> (int, 'z pmachine_scheme) kern" where
  "mutex_lock mutex_id =
     thenK (acquire MtableLock)
     (bindK (getsK (\<lambda>s. first_index (\<lambda>m. mid m = mutex_id) (mutexes s))) (\<lambda>f.
      case f of
        None \<Rightarrow> thenK (release MtableLock) (retK (- 1))
      | Some i \<Rightarrow> mutex_wait i))"

definition mutex_lock_resume :: "nat \<Rightarrow> nat \<Rightarrow> (int, 'z pmachine_scheme) kern" where
  "mutex_lock_resume cur i = thenK (sleep_resume cur MtableLock) (mutex_wait i)"

definition mutex_unlock :: "int \<Rightarrow> (int, 'z pmachine_scheme) kern" where
  "mutex_unlock mutex_id =
     thenK (acquire MtableLock)
     (bindK (getsK (\<lambda>s. first_index (\<lambda>m. mid m = mutex_id) (mutexes s))) (\<lambda>f.
      case f of
        None \<Rightarrow> thenK (release MtableLock) (retK (- 1))
      | Some i \<Rightarrow>
          bindK (getsK (\<lambda>s. mstate (mutexes s ! i))) (\<lambda>st.
          if st \<noteq> LOCKED then thenK (release MtableLock) (retK (- 1))
          else thenK (modifyK (upd_mutex i (\<lambda>m. m\<lparr>mstate := UNLOCKED\<rparr>)))
            (thenK (modifyK (wakeup1 (Some (ChanMutex i))))
            (thenK (release MtableLock) (retK 0))))))"

section \<open>Barrier\<close>

definition barrier_init :: "int \<Rightarrow> (int, 'z pmachine_scheme) kern" where
  "barrier_init n =
     thenK (modifyK (\<lambda>s. s\<lparr>bcount := 0\<rparr>))
     (thenK (modifyK (initlock BarrierLock ''barrier_lock''))
     (thenK (modifyK (\<lambda>s. s\<lparr>proc_count := n\<rparr>)) (retK 0)))"

definition barrier_wait :: "(int, 'z pmachine_scheme) kern" where
  "barrier_wait =
     bindK (getsK (\<lambda>s. bcount s < proc_count s)) (\<lambda>b.
     if b then thenK (sleep ChanBarrier (Some BarrierLock)) (retK 0)
     else thenK (wakeup ChanBarrier) (thenK (release BarrierLock) (retK 0)))"

definition barrier_lock :: "(int, 'z pmachine_scheme) kern" where
  "barrier_lock =
     thenK (acquire BarrierLock)
     (thenK (modifyK (\<lambda>s. s\<lparr>bcount := bcount s + 1\<rparr>)) barrier_wait)"

definition barrier_lock_resume :: "nat \<Rightarrow> (int, 'z pmachine_scheme) kern" where
  "barrier_lock_resume cur = thenK (sleep_resume cur BarrierLock) barrier_wait"

section \<open>Calls that a component sees as no-ops\<close>

text \<open>
  For a part \<open>\<pi>\<close> of the state that is neither a lock nor the process table: taking and giving back
  locks and waking up processes leave it as it is, and \<^verbatim>\<open>sleep\<close> blocks with it unchanged.
\<close>

lemma sched_no_return: "sched s \<noteq> Ret x t"
  by (auto simp: sched_def bindK_def derefK_def split: outcome.splits option.splits if_splits)

lemma sleep_no_return: "sleep ch lk s \<noteq> Ret x t"
  using sched_no_return
  by (auto simp: sleep_def bindK_def thenK_def split: outcome.splits option.splits if_splits)

lemma nonblock_resume [nonblock_intros]:
  "nonblockK (sched_resume i)" "nonblockK (sleep_resume i l)" "nonblockK (wakeup ch)"
  unfolding sleep_resume_def sched_resume_def wakeup_def by (intro nonblock_intros)+

lemma wp_blind:
  fixes s :: "'z pmachine_scheme"
  assumes b: "\<And>v. procs_blind (\<lambda>t :: 'z pmachine_scheme. \<pi> t = v)"
  shows "(\<And>t. \<pi> t = \<pi> s \<Longrightarrow> Q () t) \<Longrightarrow> wpK (acquire l) Q R s"
    and "(\<And>t. \<pi> t = \<pi> s \<Longrightarrow> Q () t) \<Longrightarrow> wpK (release l) Q R s"
    and "(\<And>t. \<pi> t = \<pi> s \<Longrightarrow> Q () t) \<Longrightarrow> wpK (wakeup ch) Q R s"
    and "(\<And>t. \<pi> t = \<pi> s \<Longrightarrow> Q () t) \<Longrightarrow> wpK (sleep_resume i l) Q R s"
    and "(\<And>p t. \<pi> t = \<pi> s \<Longrightarrow> Q' p t) \<Longrightarrow> wpK myproc Q' R s"
    and "(\<And>t. \<pi> t = \<pi> s \<Longrightarrow> R t) \<Longrightarrow> wpK (sleep ch lk) Q R s"
proof -
  note so = tables_sees_only [OF procs_blindD(1) [OF b]]
  show "wpK (acquire l) Q R s" if "\<And>t. \<pi> t = \<pi> s \<Longrightarrow> Q () t"
    using that by (intro wpK_frame [where \<pi> = \<pi>] preservesK_acquire nonblock_intros so) simp
  show "wpK (release l) Q R s" if "\<And>t. \<pi> t = \<pi> s \<Longrightarrow> Q () t"
    using that by (intro wpK_frame [where \<pi> = \<pi>] preservesK_release nonblock_intros so) simp
  show "wpK (wakeup ch) Q R s" if "\<And>t. \<pi> t = \<pi> s \<Longrightarrow> Q () t"
    using that by (intro wpK_frame [where \<pi> = \<pi>] keep_blind_wakeup nonblock_intros b) simp
  show "wpK (sleep_resume i l) Q R s" if "\<And>t. \<pi> t = \<pi> s \<Longrightarrow> Q () t"
    using that by (intro wpK_frame [where \<pi> = \<pi>] keep_blind_sleep nonblock_intros b) simp
  show "wpK myproc Q' R s" if "\<And>p t. \<pi> t = \<pi> s \<Longrightarrow> Q' p t"
    using that by (intro wpK_frame [where \<pi> = \<pi>] preservesK_myproc nonblock_intros so) simp
  show "wpK (sleep ch lk) Q R s" if "\<And>t. \<pi> t = \<pi> s \<Longrightarrow> R t"
    using that by (intro wpK_frame_block [where \<pi> = \<pi>] keep_blind_sleep sleep_no_return b) simp
qed

section \<open>Every run of a mutex operation\<close>

lemma mutexes_of_vmachine: "vmachine.more t = vmachine.more s \<Longrightarrow> mutexes t = mutexes s"
  by (cases s; cases t) simp

lemma mutexes_blind: "procs_blind (\<lambda>s. mutexes s = ms)"
  unfolding procs_blind_def tables_only_def
proof (intro conjI allI impI)
  fix s t :: "'z pmachine_scheme"
  assume "vmachine.more t = vmachine.more s"
  from mutexes_of_vmachine [OF this] show "(mutexes s = ms) = (mutexes t = ms)" by simp
qed simp

lemmas wp_mutexes = wp_blind [where \<pi> = mutexes, OF mutexes_blind]

definition entry_lock :: "nat \<Rightarrow> mutex_struct list \<Rightarrow> mutex_struct list" where
  "entry_lock j ms = ms[j := (ms ! j)\<lparr>mstate := LOCKED\<rparr>]"

definition entry_unlock :: "nat \<Rightarrow> mutex_struct list \<Rightarrow> mutex_struct list" where
  "entry_unlock j ms = ms[j := (ms ! j)\<lparr>mstate := UNLOCKED\<rparr>]"

abbreviation slot :: "int \<Rightarrow> mutex_struct list \<Rightarrow> nat option" where
  "slot n ms \<equiv> first_index (\<lambda>m. mid m = n) ms"

lemma mutex_wait_wp:
  "wpK (mutex_wait j) (\<lambda>r t. mstate (mutexes s ! j) = UNLOCKED \<and> mutexes t = entry_lock j (mutexes s) \<and> r = 0)
     (\<lambda>t. mutexes t = mutexes s) s"
proof (cases "mstate (mutexes s ! j)")
  case LOCKED
  then show ?thesis by (simp add: mutex_wait_def) (rule wp_mutexes)
next
  case UNLOCKED
  then show ?thesis
    by (simp add: mutex_wait_def entry_lock_def upd_mutex_def) (rule wp_mutexes, simp)
qed

lemma mutex_lock_wp:
  fixes s :: "'z pmachine_scheme"
  shows "wpK (mutex_lock n) (\<lambda>r t. case slot n (mutexes s) of
       None \<Rightarrow> r = - 1 \<and> mutexes t = mutexes s
     | Some j \<Rightarrow> r = 0 \<and> mstate (mutexes s ! j) = UNLOCKED \<and> mutexes t = entry_lock j (mutexes s))
   (\<lambda>t. mutexes t = mutexes s \<and> slot n (mutexes s) \<noteq> None) s"
proof -
  have "wpK (case slot n (mutexes s) of None \<Rightarrow> thenK (release MtableLock) (retK (- 1)) | Some i \<Rightarrow> mutex_wait i)
      (\<lambda>r t. case slot n (mutexes s) of None \<Rightarrow> r = - 1 \<and> mutexes t = mutexes s
        | Some j \<Rightarrow> r = 0 \<and> mstate (mutexes s ! j) = UNLOCKED \<and> mutexes t = entry_lock j (mutexes s))
      (\<lambda>t. mutexes t = mutexes s \<and> slot n (mutexes s) \<noteq> None) t" if "mutexes t = mutexes s"
    for t :: "'z pmachine_scheme"
  proof (cases "slot n (mutexes s)")
    case None
    then show ?thesis by simp (rule wp_mutexes, simp add: that)
  next
    case (Some j)
    then show ?thesis by simp (rule wpK_mono [OF mutex_wait_wp]; simp add: that)
  qed
  then show ?thesis
    by (simp add: mutex_lock_def) (rule wp_mutexes, simp)
qed

lemma mutex_resume_wp:
  fixes s :: "'z pmachine_scheme"
  shows "wpK (mutex_lock_resume cur j)
     (\<lambda>r t. r = 0 \<and> mstate (mutexes s ! j) = UNLOCKED \<and> mutexes t = entry_lock j (mutexes s))
     (\<lambda>t. mutexes t = mutexes s) s"
proof -
  have "wpK (mutex_wait j)
     (\<lambda>r t. r = 0 \<and> mstate (mutexes s ! j) = UNLOCKED \<and> mutexes t = entry_lock j (mutexes s))
     (\<lambda>t. mutexes t = mutexes s) t" if "mutexes t = mutexes s"
    for t :: "'z pmachine_scheme"
    by (rule wpK_mono [OF mutex_wait_wp]; simp add: that)
  then show ?thesis by (simp add: mutex_lock_resume_def) (rule wp_mutexes, simp)
qed

lemma mutex_unlock_wp:
  fixes s :: "'z pmachine_scheme"
  shows "wpK (mutex_unlock n) (\<lambda>r t. case slot n (mutexes s) of
       None \<Rightarrow> r = - 1 \<and> mutexes t = mutexes s
     | Some j \<Rightarrow> if mstate (mutexes s ! j) = LOCKED then r = 0 \<and> mutexes t = entry_unlock j (mutexes s)
         else r = - 1 \<and> mutexes t = mutexes s)
   (\<lambda>t. False) s"
proof (cases "slot n (mutexes s)")
  case None
  have "wpK (release MtableLock) (\<lambda>x t. mutexes t = mutexes s) (\<lambda>t. False) t" if "mutexes t = mutexes s"
    for t :: "'z pmachine_scheme"
    by (rule wp_mutexes) (simp add: that)
  then show ?thesis using None by (simp add: mutex_unlock_def) (rule wp_mutexes, simp)
next
  case (Some j)
  show ?thesis
  proof (cases "mstate (mutexes s ! j)")
    case LOCKED
    have "wpK (release MtableLock) (\<lambda>x t. mutexes t = entry_unlock j (mutexes s)) (\<lambda>t. False)
        (wakeup1 (Some (ChanMutex j)) (upd_mutex j (mstate_update (\<lambda>_. UNLOCKED)) t))"
      if "mutexes t = mutexes s" for t :: "'z pmachine_scheme"
      by (rule wp_mutexes) (simp add: that entry_unlock_def upd_mutex_def)
    then show ?thesis using Some LOCKED
      by (simp add: mutex_unlock_def) (rule wp_mutexes, simp)
  next
    case UNLOCKED
    have "wpK (release MtableLock) (\<lambda>x t. mutexes t = mutexes s) (\<lambda>t. False) t" if "mutexes t = mutexes s"
      for t :: "'z pmachine_scheme"
      by (rule wp_mutexes) (simp add: that)
    then show ?thesis using Some UNLOCKED by (simp add: mutex_unlock_def) (rule wp_mutexes, simp)
  qed
qed

section \<open>Threads that share a mutex\<close>

text \<open>
  A thread is outside, asleep in \<^verbatim>\<open>mutex_lock\<close> on the entry it found, or between the return of
  \<^verbatim>\<open>mutex_lock\<close> and its call of \<^verbatim>\<open>mutex_unlock\<close>. The rule \<open>other\<close> is everything else the kernel does,
  with any effect on the state except on the table of mutexes.
\<close>

datatype mutex_pc = MOut | MWaiting nat | MIn

record 'k mutex_sys =
  kst :: 'k
  mpc :: "nat \<Rightarrow> mutex_pc"

inductive mutex_step :: "int \<Rightarrow> 'z pmachine_scheme mutex_sys \<Rightarrow> 'z pmachine_scheme mutex_sys \<Rightarrow> bool"
  for n where
  lock_ok: "mpc m i = MOut \<Longrightarrow> mutex_lock n (kst m) = Ret r k \<Longrightarrow>
    mutex_step n m (m\<lparr>kst := k, mpc := (mpc m)(i := if r = 0 then MIn else MOut)\<rparr>)"
| lock_wait: "mpc m i = MOut \<Longrightarrow> mutex_lock n (kst m) = Block k \<Longrightarrow> slot n (mutexes (kst m)) = Some j \<Longrightarrow>
    mutex_step n m (m\<lparr>kst := k, mpc := (mpc m)(i := MWaiting j)\<rparr>)"
| resume_ok: "mpc m i = MWaiting j \<Longrightarrow> mutex_lock_resume cur j (kst m) = Ret r k \<Longrightarrow>
    mutex_step n m (m\<lparr>kst := k, mpc := (mpc m)(i := MIn)\<rparr>)"
| resume_wait: "mpc m i = MWaiting j \<Longrightarrow> mutex_lock_resume cur j (kst m) = Block k \<Longrightarrow>
    mutex_step n m (m\<lparr>kst := k\<rparr>)"
| unlock: "mpc m i = MIn \<Longrightarrow> mutex_unlock n (kst m) = Ret r k \<Longrightarrow>
    mutex_step n m (m\<lparr>kst := k, mpc := (mpc m)(i := MOut)\<rparr>)"
| other: "mutexes k = mutexes (kst m) \<Longrightarrow> mutex_step n m (m\<lparr>kst := k\<rparr>)"

definition mutex_start :: "int \<Rightarrow> 'z pmachine_scheme mutex_sys \<Rightarrow> bool" where
  "mutex_start n m \<longleftrightarrow> (\<exists>j. slot n (mutexes (kst m)) = Some j \<and> mstate (mutexes (kst m) ! j) = UNLOCKED) \<and>
     (\<forall>i. mpc m i = MOut)"

text \<open>The invariant names the entry \<open>j\<close> of the mutex and the thread \<open>w\<close> inside, if any.\<close>

definition mutex_holder :: "int \<Rightarrow> nat \<Rightarrow> nat option \<Rightarrow> 'z pmachine_scheme mutex_sys \<Rightarrow> bool" where
  "mutex_holder n j w m \<longleftrightarrow> slot n (mutexes (kst m)) = Some j \<and>
     (mstate (mutexes (kst m) ! j) = LOCKED \<longleftrightarrow> w \<noteq> None) \<and>
     (\<forall>i. mpc m i = MIn \<longleftrightarrow> w = Some i) \<and> (\<forall>i k. mpc m i = MWaiting k \<longrightarrow> k = j)"

definition mutex_inv :: "int \<Rightarrow> 'z pmachine_scheme mutex_sys \<Rightarrow> bool" where
  "mutex_inv n m \<longleftrightarrow> (\<exists>j w. mutex_holder n j w m)"

lemma slot_entry:
  assumes "slot n ms = Some j"
  shows "slot n (entry_lock j ms) = Some j" "slot n (entry_unlock j ms) = Some j"
    "mstate (entry_lock j ms ! j) = LOCKED" "mstate (entry_unlock j ms ! j) = UNLOCKED"
  using assms by (auto simp: first_index_Some_iff entry_lock_def entry_unlock_def nth_list_update)

lemma mutex_holder_step:
  assumes "mutex_step n m m'" and "mutex_holder n j w m"
  shows "\<exists>w'. mutex_holder n j w' m'"
  using assms
proof (induction rule: mutex_step.induct)
  case (lock_ok m i r k)
  then have "slot n (mutexes (kst m)) = Some j" by (simp add: mutex_holder_def)
  moreover from this have "r = 0 \<and> mstate (mutexes (kst m) ! j) = UNLOCKED \<and> mutexes k = entry_lock j (mutexes (kst m))"
    using wpK_Ret [OF mutex_lock_wp lock_ok.hyps(2)] by simp
  ultimately show ?case
    using lock_ok.prems by (intro exI [of _ "Some i"]) (auto simp: mutex_holder_def slot_entry)
next
  case (lock_wait m i k j')
  then have "w \<noteq> Some i" by (auto simp: mutex_holder_def dest: spec [of _ i])
  then show ?case using lock_wait wpK_Block [OF mutex_lock_wp lock_wait.hyps(2)]
    by (intro exI [of _ w]) (auto simp: mutex_holder_def)
next
  case (resume_ok m i j' cur r k)
  then have "j' = j" "slot n (mutexes (kst m)) = Some j" by (auto simp: mutex_holder_def)
  then show ?case using resume_ok.prems wpK_Ret [OF mutex_resume_wp resume_ok.hyps(2)]
    by (intro exI [of _ "Some i"]) (auto simp: mutex_holder_def slot_entry)
next
  case (resume_wait m i j' cur k)
  have "mutexes k = mutexes (kst m)" by (rule wpK_Block [OF mutex_resume_wp resume_wait.hyps(2)])
  then have "mutex_holder n j w (m\<lparr>kst := k\<rparr>) = mutex_holder n j w m" by (simp add: mutex_holder_def)
  then show ?case using resume_wait.prems by blast
next
  case (unlock m i r k)
  then have "slot n (mutexes (kst m)) = Some j" "mstate (mutexes (kst m) ! j) = LOCKED" "w = Some i"
    by (auto simp: mutex_holder_def)
  then show ?case using unlock.prems wpK_Ret [OF mutex_unlock_wp unlock.hyps(2)]
    by (intro exI [of _ None]) (auto simp: mutex_holder_def slot_entry)
next
  case (other k m)
  then show ?case by (intro exI [of _ w]) (auto simp: mutex_holder_def)
qed

interpretation mutex: exclusion "mutex_start n" "mutex_step n" "mutex_inv n" "\<lambda>m i. mpc m i = MIn" for n
proof unfold_locales
  fix s t :: "'a pmachine_scheme mutex_sys"
  show "mutex_start n s \<Longrightarrow> mutex_inv n s"
    by (auto simp: mutex_start_def mutex_inv_def mutex_holder_def)
  show "mutex_inv n s \<Longrightarrow> mutex_step n s t \<Longrightarrow> mutex_inv n t"
    using mutex_holder_step unfolding mutex_inv_def by blast
  show "mutex_inv n s \<Longrightarrow> mpc s i = MIn \<Longrightarrow> mpc s j = MIn \<Longrightarrow> i = j" for i j
    by (auto simp: mutex_inv_def mutex_holder_def)
qed

section \<open>The barrier\<close>

lemma barrier_state:
  assumes "machine.more t = machine.more (s\<lparr>procs := ps\<rparr>)"
  shows "procs t = ps" "bcount t = bcount s" "proc_count t = proc_count s"
  using pm_of_machine [OF assms] by simp_all

lemma barrier_enter:
  assumes "cpu_ok c s" and "lock_free BarrierLock s"
  defines "t \<equiv> (took c BarrierLock s)\<lparr>bcount := bcount s + 1\<rparr>"
  shows "barrier_lock s = barrier_wait t" and "owns c BarrierLock t"
    and "L \<noteq> BarrierLock \<Longrightarrow> locks t L = locks s L" and "procs t = procs s" and "bcount t = bcount s + 1"
    and "proc_count t = proc_count s" and "cproc (cpus t ! c) = cproc (cpus s ! c)"
    and "ncli (cpus t ! c) = ncli (cpus s ! c) + 1" and "same_cpu c (took c BarrierLock s) t"
proof -
  have c: "c < length (cpus s)" using assms(1) by (auto simp: cpu_ok_def dest: cur_cpu_bound)
  show "barrier_lock s = barrier_wait t"
    using acquire_free [OF assms(1)] assms(2)
    by (simp add: barrier_lock_def thenK_Ret lock_free_def t_def)
  show sc: "same_cpu c (took c BarrierLock s) t" unfolding t_def by (rule same_cpuI) simp_all
  show "owns c BarrierLock t" by (rule owns_same_cpu [OF sc owns_took [OF assms(1)]])
  show "L \<noteq> BarrierLock \<Longrightarrow> locks t L = locks s L" "procs t = procs s" "bcount t = bcount s + 1"
    "proc_count t = proc_count s" "cproc (cpus t ! c) = cproc (cpus s ! c)"
    "ncli (cpus t ! c) = ncli (cpus s ! c) + 1"
    using c by (simp_all add: t_def)
qed

lemma barrier_sleeps:
  assumes "owns c BarrierLock s" and "ncli (cpus s ! c) = 1" and "lock_free PtableLock s"
    and "cproc (cpus s ! c) = Some i" and "i < length (procs s)" and "bcount s < proc_count s"
  shows "\<exists>t. barrier_wait s = Block t \<and> lock_free BarrierLock t \<and> owns c PtableLock t \<and>
      bcount t = bcount s \<and> proc_count t = proc_count s \<and>
      procs t = (procs s)[i := asleep ChanBarrier (intena (cpus s ! c)) (procs s ! i)]"
proof -
  obtain t where t: "sleep ChanBarrier (Some BarrierLock) s = Block t" "lock_free BarrierLock t" "owns c PtableLock t"
      "machine.more t = machine.more (s\<lparr>procs := (procs s)[i := asleep ChanBarrier (intena (cpus s ! c)) (procs s ! i)]\<rparr>)"
    using sleep_eq [OF assms(1-3) _ assms(4,5), of ChanBarrier] by auto
  have "barrier_wait s = Block t" using t(1) assms(6) by (simp add: barrier_wait_def thenK_def bindK_Block)
  then show ?thesis using t(2,3) barrier_state [OF t(4)] by simp
qed

lemma barrier_opens:
  assumes "owns c BarrierLock s" and "lock_free PtableLock s" and "proc_count s \<le> bcount s"
  shows "\<exists>u. barrier_wait s = Ret 0 (dropped c BarrierLock u) \<and> same_cpu c s u \<and> bcount u = bcount s \<and>
      proc_count u = proc_count s \<and> procs u = map (woken (Some ChanBarrier)) (procs s)"
proof -
  obtain u where u: "wakeup ChanBarrier s = Ret () u" "only_procs c s u (map (woken (Some ChanBarrier)) (procs s))"
    using wakeup_eq [OF owns_cpu_ok [OF assms(1)] assms(2), of ChanBarrier] by blast
  then have sc: "same_cpu c s u" and m: "machine.more u = machine.more (s\<lparr>procs := map (woken (Some ChanBarrier)) (procs s)\<rparr>)"
    by (simp_all add: only_procs_def)
  have "release BarrierLock u = Ret () (dropped c BarrierLock u)"
    by (rule release_owned [OF owns_same_cpu [OF sc assms(1)]])
  then show ?thesis using u(1) sc barrier_state [OF m] assms(3)
    by (intro exI [of _ u]) (simp add: barrier_wait_def thenK_Ret)
qed

section \<open>Mutex calls that find the table's lock free\<close>

lemma mutex_init_eq:
  assumes "cpu_ok c s" and "lock_free MtableLock s"
  shows "\<exists>t. same_cpu c s t \<and> procs t = procs s \<and>
    (case first_index (\<lambda>m. mstate m = LOCKED) (mutexes s) of
       None \<Rightarrow> mutex_init s = Ret (- 1) t \<and> mutexes t = mutexes s \<and> nextmid t = nextmid s
     | Some i \<Rightarrow> mutex_init s = Ret (nextmid s) t \<and> nextmid t = nextmid s + 1 \<and>
         mutexes t = (mutexes s)[i := \<lparr>mid = nextmid s, mstate = UNLOCKED\<rparr>])"
proof -
  let ?s1 = "took c MtableLock s"
  have a: "acquire MtableLock s = Ret () ?s1" using acquire_free [OF assms(1)] assms(2) by (simp add: lock_free_def)
  have own: "owns c MtableLock ?s1" by (rule owns_took [OF assms(1)])
  show ?thesis
  proof (cases "first_index (\<lambda>m. mstate m = LOCKED) (mutexes s)")
    case None
    then have "mutex_init s = Ret (- 1) (dropped c MtableLock ?s1)"
      using a release_owned [OF own] by (simp add: mutex_init_def thenK_Ret)
    then show ?thesis using None same_cpu_dropped [OF assms same_cpu_refl]
      by (intro exI [of _ "dropped c MtableLock ?s1"]) simp
  next
    case (Some i)
    let ?t = "upd_mutex i (\<lambda>m. m\<lparr>mstate := UNLOCKED\<rparr>)
        ((upd_mutex i (\<lambda>m. m\<lparr>mid := nextmid s\<rparr>) ?s1)\<lparr>nextmid := nextmid s + 1\<rparr>)"
    have i: "i < length (mutexes s)" using first_index_SomeD [OF Some] by simp
    have sc: "same_cpu c ?s1 ?t" by (rule same_cpuI) (simp_all add: upd_mutex_def)
    have e: "(m\<lparr>mid := a\<rparr>)\<lparr>mstate := b\<rparr> = \<lparr>mid = a, mstate = b\<rparr>" for m :: mutex_struct and a b by (cases m) simp
    have t: "mutexes ?t = (mutexes s)[i := \<lparr>mid = nextmid s, mstate = UNLOCKED\<rparr>]" "nextmid ?t = nextmid s + 1"
      "procs ?t = procs s"
      using i by (simp_all add: upd_mutex_def e)
    have "mutex_init s = Ret (nextmid s) (dropped c MtableLock ?t)"
      using a Some release_owned [OF owns_same_cpu [OF sc own]] t(1) i
      by (simp add: mutex_init_def thenK_Ret)
    then show ?thesis using Some t same_cpu_dropped [OF assms sc]
      by (intro exI [of _ "dropped c MtableLock ?t"]) simp
  qed
qed

lemma mutex_lock_eq:
  assumes "cpu_ok c s" and "lock_free MtableLock s" and "slot n (mutexes s) = Some j"
    and "mstate (mutexes s ! j) = UNLOCKED"
  shows "\<exists>t. mutex_lock n s = Ret 0 t \<and> same_cpu c s t \<and> mutexes t = entry_lock j (mutexes s) \<and> procs t = procs s"
proof -
  let ?s1 = "took c MtableLock s"
  let ?t = "upd_mutex j (\<lambda>m. m\<lparr>mstate := LOCKED\<rparr>) ?s1"
  have a: "acquire MtableLock s = Ret () ?s1" using acquire_free [OF assms(1)] assms(2) by (simp add: lock_free_def)
  have sc: "same_cpu c ?s1 ?t" by (rule same_cpuI) (simp_all add: upd_mutex_def)
  have "mutex_lock n s = Ret 0 (dropped c MtableLock ?t)"
    using a assms(3,4) release_owned [OF owns_same_cpu [OF sc owns_took [OF assms(1)]]]
    by (simp add: mutex_lock_def thenK_Ret mutex_wait_def)
  then show ?thesis using same_cpu_dropped [OF assms(1,2) sc]
    by (intro exI [of _ "dropped c MtableLock ?t"]) (simp add: entry_lock_def upd_mutex_def)
qed

section \<open>Main properties\<close>

text \<open>
  The machine of \<open>pm_demo\<close> with mutex 1 initialised in the first entry, and a barrier for two
  threads that none has reached.
\<close>

definition sync_demo :: pmachine where
  "sync_demo = pm_demo\<lparr>mutexes := (mutexes pm_demo)[0 := \<lparr>mid = 1, mstate = UNLOCKED\<rparr>], nextmid := 2,
     proc_count := 2\<rparr>"

lemma sync_demo_ok:
  "cpu_ok 0 sync_demo" "lock_free L sync_demo" "ncli (cpus sync_demo ! 0) = 0" "cproc (cpus sync_demo ! 0) = Some 0"
  "procs sync_demo = procs pm_demo"
  using pm_demo_ok(1) pm_demo_sel(3) [of L] pm_demo_sel(4,5)
  by (simp_all add: sync_demo_def cpu_ok_def cur_cpu_def lapicid_def lock_free_def)

lemma sync_demo_sel:
  "mutexes sync_demo = \<lparr>mid = 1, mstate = UNLOCKED\<rparr> # replicate 4 \<lparr>mid = 0, mstate = LOCKED\<rparr>"
  "nextmid sync_demo = 2" "bcount sync_demo = 0" "proc_count sync_demo = 2"
proof -
  have "replicate 5 x = x # replicate 4 x" for x :: mutex_struct
    using replicate_Suc [of 4 x] by simp
  moreover have "mutexes pm_demo = replicate 5 \<lparr>mid = 0, mstate = LOCKED\<rparr>" by (simp add: pm_demo_def machine.defs)
  ultimately show "mutexes sync_demo = \<lparr>mid = 1, mstate = UNLOCKED\<rparr> # replicate 4 \<lparr>mid = 0, mstate = LOCKED\<rparr>"
    by (simp add: sync_demo_def)
qed (simp_all add: sync_demo_def pm_demo_def machine.defs)

lemma sync_demo_slot: "first_index (\<lambda>m. mstate m = LOCKED) (mutexes sync_demo) = Some 1"
  using replicate_Suc [of 3 "\<lparr>mid = 0, mstate = LOCKED\<rparr>"] by (simp add: sync_demo_sel)





text \<open>
  C31. The barrier: a thread that is not yet the last one goes to sleep on the barrier with
  the barrier's lock given back; the thread that completes the count wakes up every
  thread that sleeps there and returns, with the lock given back.
\<close>

theorem barrier_correct:
  assumes "cpu_ok c s" and "ncli (cpus s ! c) = 0" and "lock_free BarrierLock s" and "lock_free PtableLock s"
    and "cproc (cpus s ! c) = Some i" and "i < length (procs s)"
  shows "if bcount s + 1 < proc_count s
    then \<exists>t e. barrier_lock s = Block t \<and> lock_free BarrierLock t \<and> bcount t = bcount s + 1 \<and>
      procs t = (procs s)[i := asleep ChanBarrier e (procs s ! i)]
    else \<exists>t. barrier_lock s = Ret 0 t \<and> same_cpu c s t \<and> bcount t = bcount s + 1 \<and>
      procs t = map (woken (Some ChanBarrier)) (procs s)"
proof -
  let ?t = "(took c BarrierLock s)\<lparr>bcount := bcount s + 1\<rparr>"
  note e = barrier_enter [OF assms(1,3)]
  have free: "lock_free PtableLock ?t" using e(3) [of PtableLock] assms(4) by (simp add: lock_free_def)
  show ?thesis
  proof (cases "bcount s + 1 < proc_count s")
    case True
    then show ?thesis
      using barrier_sleeps [OF e(2) _ free, of i] e(1,4-8) assms(2,5,6) by auto
  next
    case False
    then obtain u where u: "barrier_lock s = Ret 0 (dropped c BarrierLock u)" "same_cpu c ?t u" "bcount u = bcount s + 1"
        "procs u = map (woken (Some ChanBarrier)) (procs s)"
      using barrier_opens [OF e(2) free] e(1,4-6) by auto
    have "same_cpu c s (dropped c BarrierLock u)"
      by (rule same_cpu_dropped [OF assms(1,3) same_cpu_trans [OF e(9) u(2)]])
    then show ?thesis using u False by auto
  qed
qed

theorem barrier_correct_witness:
  "\<exists>t e. barrier_lock sync_demo = Block t \<and> bcount t = 1 \<and>
     procs t = (procs pm_demo)[0 := asleep ChanBarrier e (procs pm_demo ! 0)]"
proof -
  have "bcount sync_demo + 1 < proc_count sync_demo" "0 < length (procs sync_demo)"
    by (simp_all add: sync_demo_sel sync_demo_ok(5) pm_demo_sel(9))
  then obtain t e where "barrier_lock sync_demo = Block t" "bcount t = bcount sync_demo + 1"
      "procs t = (procs sync_demo)[0 := asleep ChanBarrier e (procs sync_demo ! 0)]"
    using barrier_correct [OF sync_demo_ok(1,3) sync_demo_ok(2) sync_demo_ok(2) sync_demo_ok(4)] by auto
  then show ?thesis by (auto simp: sync_demo_sel sync_demo_ok(5))
qed

end
