(* ===== verification/Sleeplock.thy ===== *)
theory Sleeplock
  imports Proc_Sync
begin

text \<open>
  The sleep locks of \<^verbatim>\<open>sleeplock.c\<close>. A sleep lock is named by the structure it is part of; its
  spin lock is the lock \<open>SleepLk\<close> of that name.
\<close>

record sleeplock =
  sl_locked :: uint32
  sl_name :: string
  sl_pid :: int

record slmachine = pmachine +
  sleeplks :: "sleepid \<Rightarrow> sleeplock"

definition upd_sleep :: "sleepid \<Rightarrow> (sleeplock \<Rightarrow> sleeplock) \<Rightarrow> 'z slmachine_scheme \<Rightarrow> 'z slmachine_scheme" where
  "upd_sleep l f s = s\<lparr>sleeplks := (sleeplks s)(l := f (sleeplks s l))\<rparr>"

definition initsleeplock :: "sleepid \<Rightarrow> string \<Rightarrow> (unit, 'z slmachine_scheme) kern" where
  "initsleeplock l nm =
     thenK (modifyK (initlock (SleepLk l) ''sleep lock''))
       (modifyK (upd_sleep l (\<lambda>k. k\<lparr>sl_name := nm, sl_locked := 0, sl_pid := 0\<rparr>)))"

text \<open>The loop of \<^verbatim>\<open>acquiresleep\<close>: a turn that finds the lock taken ends in the \<open>Block\<close> of \<^verbatim>\<open>sleep\<close>.\<close>

definition acquiresleep_loop :: "sleepid \<Rightarrow> (unit, 'z slmachine_scheme) kern" where
  "acquiresleep_loop l =
     bindK (getsK (\<lambda>s. sl_locked (sleeplks s l) \<noteq> 0)) (\<lambda>b.
     if b then sleep (ChanSleeplock l) (Some (SleepLk l))
     else thenK (modifyK (upd_sleep l (\<lambda>k. k\<lparr>sl_locked := 1\<rparr>)))
       (bindK myproc (\<lambda>p. derefK p (\<lambda>i.
        thenK (modifyK (\<lambda>s. upd_sleep l (\<lambda>k. k\<lparr>sl_pid := pid (procs s ! i)\<rparr>) s))
          (release (SleepLk l))))))"

definition acquiresleep :: "sleepid \<Rightarrow> (unit, 'z slmachine_scheme) kern" where
  "acquiresleep l = thenK (acquire (SleepLk l)) (acquiresleep_loop l)"

definition acquiresleep_resume :: "nat \<Rightarrow> sleepid \<Rightarrow> (unit, 'z slmachine_scheme) kern" where
  "acquiresleep_resume cur l = thenK (sleep_resume cur (SleepLk l)) (acquiresleep_loop l)"

definition releasesleep :: "sleepid \<Rightarrow> (unit, 'z slmachine_scheme) kern" where
  "releasesleep l =
     thenK (acquire (SleepLk l))
     (thenK (modifyK (upd_sleep l (\<lambda>k. k\<lparr>sl_locked := 0, sl_pid := 0\<rparr>)))
     (thenK (wakeup (ChanSleeplock l)) (release (SleepLk l))))"

definition holdingsleep :: "sleepid \<Rightarrow> (bool, 'z slmachine_scheme) kern" where
  "holdingsleep l =
     thenK (acquire (SleepLk l))
     (bindK (getsK (\<lambda>s. sl_locked (sleeplks s l) \<noteq> 0)) (\<lambda>b.
      if \<not> b then thenK (release (SleepLk l)) (retK False)
      else bindK myproc (\<lambda>p. derefK p (\<lambda>i.
        bindK (getsK (\<lambda>s. sl_pid (sleeplks s l) = pid (procs s ! i))) (\<lambda>r.
        thenK (release (SleepLk l)) (retK r))))))"

end
