(* ===== verification/Bio.thy ===== *)
theory Bio
  imports Sleeplock
begin

text \<open>
  The buffer cache of \<^verbatim>\<open>bio.c\<close> and the disk in memory of \<^verbatim>\<open>memide.c\<close>. A buffer is its index in
  \<^verbatim>\<open>bcache.buf\<close>; the links \<^verbatim>\<open>prev\<close> and \<^verbatim>\<open>next\<close> of the circular list are those of the code, with \<open>Head\<close>
  for \<^verbatim>\<open>&bcache.head\<close>. The scans follow the links with fuel: they spin when they do not
  come back to the head after as many steps as there are buffers, which the invariant of
  the list excludes.

  The disk is a list of blocks. \<open>dwrites\<close> records the writes in the order they reach the disk; the
  code does not read it.
\<close>

section \<open>State\<close>

abbreviation (input) NBUF :: nat where "NBUF \<equiv> 30"
abbreviation (input) BSIZE :: nat where "BSIZE \<equiv> 512"
abbreviation (input) B_VALID :: uint32 where "B_VALID \<equiv> 2"
abbreviation (input) B_DIRTY :: uint32 where "B_DIRTY \<equiv> 4"

datatype blink = Head | Blk nat

record buf =
  bflags :: uint32
  bdev :: uint32
  blockno :: uint32
  refcnt :: uint32
  bprev :: blink
  bnext :: blink
  qnext :: "nat option"
  bdata :: "uchar list"

record bmachine = slmachine +
  bufs :: "buf list"
  head_prev :: blink
  head_next :: blink
  memdisk :: "uchar list list"
  disksize :: uint32
  dwrites :: "(nat \<times> uchar list) list"

definition upd_buf :: "nat \<Rightarrow> (buf \<Rightarrow> buf) \<Rightarrow> 'z bmachine_scheme \<Rightarrow> 'z bmachine_scheme" where
  "upd_buf i f s = s\<lparr>bufs := (bufs s)[i := f (bufs s ! i)]\<rparr>"

fun next_of :: "'z bmachine_scheme \<Rightarrow> blink \<Rightarrow> blink" where
  "next_of s Head = head_next s"
| "next_of s (Blk i) = bnext (bufs s ! i)"

fun prev_of :: "'z bmachine_scheme \<Rightarrow> blink \<Rightarrow> blink" where
  "prev_of s Head = head_prev s"
| "prev_of s (Blk i) = bprev (bufs s ! i)"

fun set_next :: "blink \<Rightarrow> blink \<Rightarrow> 'z bmachine_scheme \<Rightarrow> 'z bmachine_scheme" where
  "set_next Head v s = s\<lparr>head_next := v\<rparr>"
| "set_next (Blk i) v s = upd_buf i (\<lambda>b. b\<lparr>bnext := v\<rparr>) s"

fun set_prev :: "blink \<Rightarrow> blink \<Rightarrow> 'z bmachine_scheme \<Rightarrow> 'z bmachine_scheme" where
  "set_prev Head v s = s\<lparr>head_prev := v\<rparr>"
| "set_prev (Blk i) v s = upd_buf i (\<lambda>b. b\<lparr>bprev := v\<rparr>) s"

section \<open>The disk\<close>

definition ideinit :: "uchar list list \<Rightarrow> uint32 \<Rightarrow> (unit, 'z bmachine_scheme) kern" where
  "ideinit img imgsize = modifyK (\<lambda>s. s\<lparr>memdisk := img, disksize := imgsize div 512\<rparr>)"

definition disk_write :: "nat \<Rightarrow> uchar list \<Rightarrow> 'z bmachine_scheme \<Rightarrow> 'z bmachine_scheme" where
  "disk_write k d s = s\<lparr>memdisk := (memdisk s)[k := d], dwrites := dwrites s @ [(k, d)]\<rparr>"

definition iderw :: "nat \<Rightarrow> (unit, 'z bmachine_scheme) kern" where
  "iderw b =
     bindK (holdingsleep (BufLock b)) (\<lambda>h.
     if \<not> h then panicK ''iderw: buf not locked''
     else bindK (getsK (\<lambda>s. bufs s ! b)) (\<lambda>bb.
       if bflags bb AND (B_VALID OR B_DIRTY) = B_VALID then panicK ''iderw: nothing to do''
       else if bdev bb \<noteq> 1 then panicK ''iderw: request not for disk 1''
       else bindK (getsK disksize) (\<lambda>dsz.
         if blockno bb \<ge> dsz then panicK ''iderw: block out of range''
         else let p = unat (blockno bb) in
           thenK (if bflags bb AND B_DIRTY \<noteq> 0
                  then thenK (modifyK (upd_buf b (\<lambda>x. x\<lparr>bflags := bflags x AND NOT B_DIRTY\<rparr>)))
                         (modifyK (disk_write p (bdata bb)))
                  else modifyK (\<lambda>s. upd_buf b (\<lambda>x. x\<lparr>bdata := memdisk s ! p\<rparr>) s))
             (modifyK (upd_buf b (\<lambda>x. x\<lparr>bflags := bflags x OR B_VALID\<rparr>))))))"

section \<open>The cache\<close>

definition link_front :: "nat \<Rightarrow> 'z bmachine_scheme \<Rightarrow> 'z bmachine_scheme" where
  "link_front b s =
     (let s1 = set_prev (Blk b) Head (set_next (Blk b) (head_next s) s);
          s2 = set_prev (head_next s1) (Blk b) s1
      in set_next Head (Blk b) s2)"

definition binit :: "(unit, 'z bmachine_scheme) kern" where
  "binit =
     thenK (modifyK (initlock BcacheLock ''bcache''))
     (thenK (modifyK (\<lambda>s. s\<lparr>head_prev := Head, head_next := Head\<rparr>))
     (forK [0..<NBUF] (\<lambda>b.
        thenK (modifyK (\<lambda>s. set_prev (Blk b) Head (set_next (Blk b) (head_next s) s)))
        (thenK (initsleeplock (BufLock b) ''buffer'')
        (modifyK (\<lambda>s. set_next Head (Blk b) (set_prev (head_next s) (Blk b) s)))))))"

fun scan :: "('z bmachine_scheme \<Rightarrow> blink \<Rightarrow> blink) \<Rightarrow> (buf \<Rightarrow> bool) \<Rightarrow> nat \<Rightarrow> blink \<Rightarrow>
    (nat option, 'z bmachine_scheme) kern" where
  "scan go P fuel Head s = Ret None s"
| "scan go P 0 (Blk i) s = Spin"
| "scan go P (Suc n) (Blk i) s = (if P (bufs s ! i) then Ret (Some i) s else scan go P n (go s (Blk i)) s)"

definition bget :: "uint32 \<Rightarrow> uint32 \<Rightarrow> (nat, 'z bmachine_scheme) kern" where
  "bget dv bno =
     thenK (acquire BcacheLock)
     (bindK (getsK head_next) (\<lambda>h.
      bindK (scan next_of (\<lambda>b. bdev b = dv \<and> blockno b = bno) NBUF h) (\<lambda>f.
      case f of
        Some b \<Rightarrow>
          thenK (modifyK (upd_buf b (\<lambda>x. x\<lparr>refcnt := refcnt x + 1\<rparr>)))
          (thenK (release BcacheLock)
          (thenK (acquiresleep (BufLock b)) (retK b)))
      | None \<Rightarrow>
          bindK (getsK head_prev) (\<lambda>h.
          bindK (scan prev_of (\<lambda>b. refcnt b = 0 \<and> bflags b AND B_DIRTY = 0) NBUF h) (\<lambda>f.
          case f of
            Some b \<Rightarrow>
              thenK (modifyK (upd_buf b (\<lambda>x. x\<lparr>bdev := dv, blockno := bno, bflags := 0, refcnt := 1\<rparr>)))
              (thenK (release BcacheLock)
              (thenK (acquiresleep (BufLock b)) (retK b)))
          | None \<Rightarrow> panicK ''bget: no buffers'')))))"

definition bread :: "uint32 \<Rightarrow> uint32 \<Rightarrow> (nat, 'z bmachine_scheme) kern" where
  "bread dv bno =
     bindK (bget dv bno) (\<lambda>b.
     thenK (condK (\<lambda>s. bflags (bufs s ! b) AND B_VALID = 0) (iderw b)) (retK b))"

definition bwrite :: "nat \<Rightarrow> (unit, 'z bmachine_scheme) kern" where
  "bwrite b =
     bindK (holdingsleep (BufLock b)) (\<lambda>h.
     if \<not> h then panicK ''bwrite''
     else thenK (modifyK (upd_buf b (\<lambda>x. x\<lparr>bflags := bflags x OR B_DIRTY\<rparr>))) (iderw b))"

definition unlink :: "nat \<Rightarrow> 'z bmachine_scheme \<Rightarrow> 'z bmachine_scheme" where
  "unlink b s =
     (let s1 = set_prev (bnext (bufs s ! b)) (bprev (bufs s ! b)) s
      in set_next (bprev (bufs s1 ! b)) (bnext (bufs s1 ! b)) s1)"

definition brelse :: "nat \<Rightarrow> (unit, 'z bmachine_scheme) kern" where
  "brelse b =
     bindK (holdingsleep (BufLock b)) (\<lambda>h.
     if \<not> h then panicK ''brelse''
     else thenK (releasesleep (BufLock b))
       (thenK (acquire BcacheLock)
       (thenK (modifyK (upd_buf b (\<lambda>x. x\<lparr>refcnt := refcnt x - 1\<rparr>)))
       (thenK (condK (\<lambda>s. refcnt (bufs s ! b) = 0) (modifyK (\<lambda>s. link_front b (unlink b s))))
         (release BcacheLock)))))"

end
