(* ===== verification/Log.thy ===== *)
theory Log
  imports Bio
begin

text \<open>
  The redo log of \<^verbatim>\<open>log.c\<close>: the header block and its format, transactions, commit and recovery.
\<close>

section \<open>Little-endian integers in a block\<close>

definition get32 :: "uchar list \<Rightarrow> nat \<Rightarrow> uint32" where
  "get32 d i = ucast (d ! i) OR push_bit 8 (ucast (d ! (i + 1))) OR push_bit 16 (ucast (d ! (i + 2)))
     OR push_bit 24 (ucast (d ! (i + 3)))"

definition put32 :: "nat \<Rightarrow> uint32 \<Rightarrow> uchar list \<Rightarrow> uchar list" where
  "put32 i v d = d[i := ucast v, i + 1 := ucast (drop_bit 8 v), i + 2 := ucast (drop_bit 16 v),
     i + 3 := ucast (drop_bit 24 v)]"

definition get16 :: "uchar list \<Rightarrow> nat \<Rightarrow> ushort" where
  "get16 d i = ucast (d ! i) OR push_bit 8 (ucast (d ! (i + 1)))"

definition put16 :: "nat \<Rightarrow> ushort \<Rightarrow> uchar list \<Rightarrow> uchar list" where
  "put16 i v d = d[i := ucast v, i + 1 := ucast (drop_bit 8 v)]"

section \<open>State\<close>

abbreviation (input) MAXOPBLOCKS :: int where "MAXOPBLOCKS \<equiv> 10"
abbreviation (input) LOGSIZE :: nat where "LOGSIZE \<equiv> 30"

record logheader =
  lh_n :: int
  lh_block :: "uint32 list"

record log_struct =
  lstart :: int
  lsize :: int
  outstanding :: int
  committing :: int
  ldev :: uint32
  lh :: logheader

record superblock =
  sb_size :: uint32
  sb_nblocks :: uint32
  sb_ninodes :: uint32
  sb_nlog :: uint32
  sb_logstart :: uint32
  sb_inodestart :: uint32
  sb_bmapstart :: uint32

record lmachine = bmachine +
  log :: log_struct

definition upd_log :: "(log_struct \<Rightarrow> log_struct) \<Rightarrow> 'z lmachine_scheme \<Rightarrow> 'z lmachine_scheme" where
  "upd_log f s = s\<lparr>log := f (log s)\<rparr>"

definition upd_lh :: "(logheader \<Rightarrow> logheader) \<Rightarrow> 'z lmachine_scheme \<Rightarrow> 'z lmachine_scheme" where
  "upd_lh f = upd_log (\<lambda>l. l\<lparr>lh := f (lh l)\<rparr>)"

definition log_block :: "'z lmachine_scheme \<Rightarrow> nat \<Rightarrow> uint32" where
  "log_block s tail = of_int (lstart (log s) + int tail + 1)"

definition tails :: "'z lmachine_scheme \<Rightarrow> nat list" where
  "tails s = [0..<nat (lh_n (lh (log s)))]"

section \<open>The on-disk header\<close>

text \<open>\<^verbatim>\<open>readsb\<close> of \<^verbatim>\<open>fs.c\<close>: the super block is the first 28 bytes of block 1.\<close>

definition dec_sb :: "uchar list \<Rightarrow> superblock" where
  "dec_sb d = \<lparr>sb_size = get32 d 0, sb_nblocks = get32 d 4, sb_ninodes = get32 d 8, sb_nlog = get32 d 12,
     sb_logstart = get32 d 16, sb_inodestart = get32 d 20, sb_bmapstart = get32 d 24\<rparr>"

definition readsb :: "uint32 \<Rightarrow> (superblock, 'z bmachine_scheme) kern" where
  "readsb dev =
     bindK (bread dev 1) (\<lambda>bp.
     bindK (getsK (\<lambda>s. dec_sb (bdata (bufs s ! bp)))) (\<lambda>sb.
     thenK (brelse bp) (retK sb)))"

text \<open>
  The loop of \<^verbatim>\<open>read_head\<close> writes \<^verbatim>\<open>log.lh.block[i]\<close> for every \<open>i\<close> below the number found on
  the disk; a number above \<^verbatim>\<open>LOGSIZE\<close> writes past the array.
\<close>

definition read_head :: "(unit, 'z lmachine_scheme) kern" where
  "read_head =
     bindK (getsK log) (\<lambda>l.
     bindK (bread (ldev l) (of_int (lstart l))) (\<lambda>bf.
     bindK (getsK (\<lambda>s. bdata (bufs s ! bf))) (\<lambda>d.
     thenK (modifyK (upd_lh (\<lambda>h. h\<lparr>lh_n := sint (get32 d 0)\<rparr>)))
     (thenK (forK [0..<nat (sint (get32 d 0))] (\<lambda>i s.
        if i < LOGSIZE then Ret () (upd_lh (\<lambda>h. h\<lparr>lh_block := (lh_block h)[i := get32 d (4 + 4 * i)]\<rparr>) s)
        else Fault))
       (brelse bf)))))"

fun put_blocks :: "nat \<Rightarrow> uint32 list \<Rightarrow> uchar list \<Rightarrow> uchar list" where
  "put_blocks i [] d = d"
| "put_blocks i (x # xs) d = put_blocks (i + 1) xs (put32 (4 + 4 * i) x d)"

definition write_head :: "(unit, 'z lmachine_scheme) kern" where
  "write_head =
     bindK (getsK log) (\<lambda>l.
     bindK (bread (ldev l) (of_int (lstart l))) (\<lambda>bf.
     thenK (modifyK (\<lambda>s. let h = lh (log s) in upd_buf bf (\<lambda>b. b\<lparr>bdata :=
        put_blocks 0 (take (nat (lh_n h)) (lh_block h)) (put32 0 (of_int (lh_n h)) (bdata b))\<rparr>) s))
     (thenK (bwrite bf) (brelse bf))))"

section \<open>Commit and recovery\<close>

definition copy_buf :: "nat \<Rightarrow> nat \<Rightarrow> 'z bmachine_scheme \<Rightarrow> 'z bmachine_scheme" where
  "copy_buf to from s = upd_buf to (\<lambda>b. b\<lparr>bdata := bdata (bufs s ! from)\<rparr>) s"

definition install_one :: "nat \<Rightarrow> (unit, 'z lmachine_scheme) kern" where
  "install_one tail =
     bindK (getsK (\<lambda>s. (ldev (log s), log_block s tail))) (\<lambda>(dev, lb).
     bindK (bread dev lb) (\<lambda>lbuf.
     bindK (getsK (\<lambda>s. (ldev (log s), lh_block (lh (log s)) ! tail))) (\<lambda>(dev, db).
     bindK (bread dev db) (\<lambda>dbuf.
     thenK (modifyK (copy_buf dbuf lbuf))
     (thenK (bwrite dbuf) (thenK (brelse lbuf) (brelse dbuf)))))))"

definition install_trans :: "(unit, 'z lmachine_scheme) kern" where
  "install_trans = bindK (getsK tails) (\<lambda>ts. forK ts install_one)"

definition recover_from_log :: "(unit, 'z lmachine_scheme) kern" where
  "recover_from_log =
     thenK read_head
     (thenK install_trans
     (thenK (modifyK (upd_lh (\<lambda>h. h\<lparr>lh_n := 0\<rparr>))) write_head))"

text \<open>The size test of \<^verbatim>\<open>initlog\<close> is a constant: the header has 124 bytes.\<close>

definition initlog :: "uint32 \<Rightarrow> (unit, 'z lmachine_scheme) kern" where
  "initlog dev =
     thenK (modifyK (initlock LogLock ''log''))
     (bindK (readsb dev) (\<lambda>sb.
      thenK (modifyK (upd_log (\<lambda>l. l\<lparr>lstart := sint (sb_logstart sb), lsize := sint (sb_nlog sb), ldev := dev\<rparr>)))
        recover_from_log))"

definition write_log_one :: "nat \<Rightarrow> (unit, 'z lmachine_scheme) kern" where
  "write_log_one tail =
     bindK (getsK (\<lambda>s. (ldev (log s), log_block s tail))) (\<lambda>(dev, lb).
     bindK (bread dev lb) (\<lambda>to.
     bindK (getsK (\<lambda>s. (ldev (log s), lh_block (lh (log s)) ! tail))) (\<lambda>(dev, fb).
     bindK (bread dev fb) (\<lambda>from.
     thenK (modifyK (copy_buf to from))
     (thenK (bwrite to) (thenK (brelse from) (brelse to)))))))"

definition write_log :: "(unit, 'z lmachine_scheme) kern" where
  "write_log = bindK (getsK tails) (\<lambda>ts. forK ts write_log_one)"

definition commit :: "(unit, 'z lmachine_scheme) kern" where
  "commit =
     condK (\<lambda>s. lh_n (lh (log s)) > 0)
       (thenK write_log
       (thenK write_head
       (thenK install_trans
       (thenK (modifyK (upd_lh (\<lambda>h. h\<lparr>lh_n := 0\<rparr>))) write_head))))"

section \<open>Operations\<close>

text \<open>
  The loop of \<^verbatim>\<open>begin_op\<close>: a turn that must wait ends in the \<open>Block\<close> of \<^verbatim>\<open>sleep\<close>.
\<close>

definition begin_op_loop :: "(unit, 'z lmachine_scheme) kern" where
  "begin_op_loop =
     bindK (getsK log) (\<lambda>l.
     if committing l \<noteq> 0 then sleep ChanLog (Some LogLock)
     else if lh_n (lh l) + (outstanding l + 1) * MAXOPBLOCKS > int LOGSIZE then sleep ChanLog (Some LogLock)
     else thenK (modifyK (upd_log (\<lambda>l. l\<lparr>outstanding := outstanding l + 1\<rparr>))) (release LogLock))"

definition begin_op :: "(unit, 'z lmachine_scheme) kern" where
  "begin_op = thenK (acquire LogLock) begin_op_loop"

definition begin_op_resume :: "nat \<Rightarrow> (unit, 'z lmachine_scheme) kern" where
  "begin_op_resume cur = thenK (sleep_resume cur LogLock) begin_op_loop"

definition end_op :: "(unit, 'z lmachine_scheme) kern" where
  "end_op =
     thenK (acquire LogLock)
     (thenK (modifyK (upd_log (\<lambda>l. l\<lparr>outstanding := outstanding l - 1\<rparr>)))
     (bindK (getsK log) (\<lambda>l.
      if committing l \<noteq> 0 then panicK ''log.committing''
      else if outstanding l = 0 then
        thenK (modifyK (upd_log (\<lambda>l. l\<lparr>committing := 1\<rparr>)))
        (thenK (release LogLock)
        (thenK commit
        (thenK (acquire LogLock)
        (thenK (modifyK (upd_log (\<lambda>l. l\<lparr>committing := 0\<rparr>)))
        (thenK (wakeup ChanLog) (release LogLock))))))
      else thenK (wakeup ChanLog) (release LogLock))))"

text \<open>\<open>absorb n bs b\<close> is the index at which \<^verbatim>\<open>log_write\<close> records block \<open>b\<close>.\<close>

definition absorb :: "nat \<Rightarrow> uint32 list \<Rightarrow> uint32 \<Rightarrow> nat" where
  "absorb n bs b = (case first_index (\<lambda>x. x = b) (take n bs) of Some i \<Rightarrow> i | None \<Rightarrow> n)"

definition log_write :: "nat \<Rightarrow> (unit, 'z lmachine_scheme) kern" where
  "log_write b =
     bindK (getsK log) (\<lambda>l.
     if lh_n (lh l) \<ge> int LOGSIZE \<or> lh_n (lh l) \<ge> lsize l - 1 then panicK ''too big a transaction''
     else if outstanding l < 1 then panicK ''log_write outside of trans''
     else thenK (acquire LogLock)
       (thenK (modifyK (\<lambda>s.
          let h = lh (log s); bno = blockno (bufs s ! b); i = absorb (nat (lh_n h)) (lh_block h) bno
          in upd_lh (\<lambda>h. h\<lparr>lh_block := (lh_block h)[i := bno],
               lh_n := (if int i = lh_n h then lh_n h + 1 else lh_n h)\<rparr>) s))
       (thenK (modifyK (upd_buf b (\<lambda>x. x\<lparr>bflags := bflags x OR B_DIRTY\<rparr>)))
         (release LogLock))))"

end
