(* ===== verification/Fs.thy ===== *)
theory Fs
  imports Log
begin

text \<open>
  The file system of \<^verbatim>\<open>fs.c\<close>: block allocation, the inode cache, inode contents, directories and
  path names. A pointer to an inode is its index in \<^verbatim>\<open>icache.inode\<close>. A path is the list of its
  characters before the terminating NUL; the array \<^verbatim>\<open>name[DIRSIZ]\<close> is a list of 14 bytes.

  The bytes that \<^verbatim>\<open>readi\<close> puts at \<^verbatim>\<open>dst\<close> are part of its result, and those that \<^verbatim>\<open>writei\<close> takes
  from \<^verbatim>\<open>src\<close> an argument. The device switch is a table of functions that work on inodes, so it is
  an argument too: \<open>dr\<close> and \<open>dw\<close> give the read and write entries of \<^verbatim>\<open>devsw\<close>.

  A call that has to wait for a sleep lock or for the log ends in \<open>Block\<close>.
\<close>

section \<open>State\<close>

abbreviation (input) NINODE :: nat where "NINODE \<equiv> 50"
abbreviation (input) NDIRECT :: nat where "NDIRECT \<equiv> 12"
abbreviation (input) NINDIRECT :: nat where "NINDIRECT \<equiv> 128"
abbreviation (input) MAXFILE :: nat where "MAXFILE \<equiv> 140"
abbreviation (input) DIRSIZ :: nat where "DIRSIZ \<equiv> 14"
abbreviation (input) BPB :: nat where "BPB \<equiv> 4096"
abbreviation (input) IPB :: nat where "IPB \<equiv> 8"
abbreviation (input) NDEV :: int where "NDEV \<equiv> 10"
abbreviation (input) ROOTDEV :: uint32 where "ROOTDEV \<equiv> 1"
abbreviation (input) ROOTINO :: uint32 where "ROOTINO \<equiv> 1"
abbreviation (input) T_DIR :: ushort where "T_DIR \<equiv> 1"
abbreviation (input) T_FILE :: ushort where "T_FILE \<equiv> 2"
abbreviation (input) T_DEV :: ushort where "T_DEV \<equiv> 3"

record inode =
  idev :: uint32
  inum :: uint32
  iref :: int
  ivalid :: int
  itype :: ushort
  imajor :: ushort
  iminor :: ushort
  inlink :: ushort
  isize :: uint32
  iaddrs :: "uint32 list"

record imachine = lmachine +
  sb :: superblock
  inodes :: "inode list"

type_synonym 's dev_read = "int \<Rightarrow> (nat \<Rightarrow> int \<Rightarrow> (int \<times> uchar list, 's) kern) option"
type_synonym 's dev_write = "int \<Rightarrow> (nat \<Rightarrow> uchar list \<Rightarrow> int \<Rightarrow> (int, 's) kern) option"

definition upd_inode :: "nat \<Rightarrow> (inode \<Rightarrow> inode) \<Rightarrow> 'z imachine_scheme \<Rightarrow> 'z imachine_scheme" where
  "upd_inode i f s = s\<lparr>inodes := (inodes s)[i := f (inodes s ! i)]\<rparr>"

definition upd_data :: "nat \<Rightarrow> (uchar list \<Rightarrow> uchar list) \<Rightarrow> 'z bmachine_scheme \<Rightarrow> 'z bmachine_scheme" where
  "upd_data b f = upd_buf b (\<lambda>x. x\<lparr>bdata := f (bdata x)\<rparr>)"

definition IBLOCK :: "uint32 \<Rightarrow> superblock \<Rightarrow> uint32" where
  "IBLOCK i blk = i div 8 + sb_inodestart blk"

definition BBLOCK :: "uint32 \<Rightarrow> superblock \<Rightarrow> uint32" where
  "BBLOCK b blk = b div 4096 + sb_bmapstart blk"

section \<open>Blocks\<close>

definition bzero :: "uint32 \<Rightarrow> uint32 \<Rightarrow> (unit, 'z lmachine_scheme) kern" where
  "bzero dev bno =
     bindK (bread dev bno) (\<lambda>bp.
     thenK (modifyK (upd_data bp (\<lambda>d. replicate BSIZE 0)))
     (thenK (log_write bp) (brelse bp)))"

text \<open>Bit \<open>bi\<close> of a bitmap block.\<close>

definition bmap_bit :: "nat \<Rightarrow> uchar" where
  "bmap_bit bi = push_bit (bi mod 8) 1"

definition bit_free :: "uchar list \<Rightarrow> nat \<Rightarrow> bool" where
  "bit_free d bi \<longleftrightarrow> d ! (bi div 8) AND bmap_bit bi = 0"

definition bit_set :: "nat \<Rightarrow> uchar list \<Rightarrow> uchar list" where
  "bit_set bi d = d[bi div 8 := d ! (bi div 8) OR bmap_bit bi]"

definition bit_clear :: "nat \<Rightarrow> uchar list \<Rightarrow> uchar list" where
  "bit_clear bi d = d[bi div 8 := d ! (bi div 8) AND NOT (bmap_bit bi)]"

text \<open>The inner loop of \<^verbatim>\<open>balloc\<close>: the first free bit of the block that describes block \<open>b\<close> and those after it.\<close>

definition free_bit :: "uchar list \<Rightarrow> nat \<Rightarrow> nat \<Rightarrow> nat option" where
  "free_bit d b nblks = first_index (bit_free d) [0..<min BPB (nblks - b)]"

fun balloc_loop :: "uint32 \<Rightarrow> nat list \<Rightarrow> (uint32, 'z imachine_scheme) kern" where
  "balloc_loop dev [] = panicK ''balloc: out of blocks''"
| "balloc_loop dev (b # bs) =
     bindK (getsK sb) (\<lambda>sb.
     bindK (bread dev (BBLOCK (of_nat b) sb)) (\<lambda>bp.
     bindK (getsK (\<lambda>s. free_bit (bdata (bufs s ! bp)) b (unat (sb_size sb)))) (\<lambda>f.
     case f of
       Some bi \<Rightarrow>
         thenK (modifyK (upd_data bp (bit_set bi)))
         (thenK (log_write bp)
         (thenK (brelse bp)
         (thenK (bzero dev (of_nat (b + bi))) (retK (of_nat (b + bi))))))
     | None \<Rightarrow> thenK (brelse bp) (balloc_loop dev bs))))"

definition balloc :: "uint32 \<Rightarrow> (uint32, 'z imachine_scheme) kern" where
  "balloc dev =
     bindK (getsK (\<lambda>s. unat (sb_size (sb s)))) (\<lambda>size.
     balloc_loop dev (map (\<lambda>k. k * BPB) [0..<(size + BPB - 1) div BPB]))"

definition bfree :: "uint32 \<Rightarrow> uint32 \<Rightarrow> (unit, 'z imachine_scheme) kern" where
  "bfree dev b =
     bindK (getsK sb) (\<lambda>sb.
     bindK (bread dev (BBLOCK b sb)) (\<lambda>bp.
     let bi = unat b mod BPB in
     bindK (getsK (\<lambda>s. bit_free (bdata (bufs s ! bp)) bi)) (\<lambda>fr.
     if fr then panicK ''freeing free block''
     else thenK (modifyK (upd_data bp (bit_clear bi)))
       (thenK (log_write bp) (brelse bp)))))"

section \<open>Inodes on disk\<close>

text \<open>A \<^verbatim>\<open>struct dinode\<close> has 64 bytes: four shorts, the size and 13 addresses.\<close>

definition dinode_off :: "uint32 \<Rightarrow> nat" where
  "dinode_off i = 64 * (unat i mod IPB)"

definition get_addrs :: "uchar list \<Rightarrow> nat \<Rightarrow> uint32 list" where
  "get_addrs d p = map (\<lambda>k. get32 d (p + 12 + 4 * k)) [0..<NDIRECT + 1]"

fun put_words :: "nat \<Rightarrow> uint32 list \<Rightarrow> uchar list \<Rightarrow> uchar list" where
  "put_words i [] d = d"
| "put_words i (x # xs) d = put_words (i + 4) xs (put32 i x d)"

definition put_dinode :: "nat \<Rightarrow> inode \<Rightarrow> uchar list \<Rightarrow> uchar list" where
  "put_dinode p ip d =
     put_words (p + 12) (iaddrs ip) (put32 (p + 8) (isize ip) (put16 (p + 6) (inlink ip)
       (put16 (p + 4) (iminor ip) (put16 (p + 2) (imajor ip) (put16 p (itype ip) d)))))"

definition get_dinode :: "uchar list \<Rightarrow> nat \<Rightarrow> inode \<Rightarrow> inode" where
  "get_dinode d p ip = ip\<lparr>itype := get16 d p, imajor := get16 d (p + 2), iminor := get16 d (p + 4),
     inlink := get16 d (p + 6), isize := get32 d (p + 8), iaddrs := get_addrs d p\<rparr>"

definition zero_dinode :: "nat \<Rightarrow> uchar list \<Rightarrow> uchar list" where
  "zero_dinode p d = take p d @ replicate 64 0 @ drop (p + 64) d"

definition iupdate :: "nat \<Rightarrow> (unit, 'z imachine_scheme) kern" where
  "iupdate ip =
     bindK (getsK (\<lambda>s. (inodes s ! ip, sb s))) (\<lambda>(n, sb).
     bindK (bread (idev n) (IBLOCK (inum n) sb)) (\<lambda>bp.
     thenK (modifyK (\<lambda>s. upd_data bp (put_dinode (dinode_off (inum n)) (inodes s ! ip)) s))
     (thenK (log_write bp) (brelse bp))))"

section \<open>The inode cache\<close>

text \<open>
  The scan of \<^verbatim>\<open>iget\<close> goes through the whole table when the inode is not cached and remembers the
  first entry without references.
\<close>

definition iget :: "uint32 \<Rightarrow> uint32 \<Rightarrow> (nat, 'z imachine_scheme) kern" where
  "iget dev ino =
     thenK (acquire IcacheLock)
     (bindK (getsK inodes) (\<lambda>tab.
      case first_index (\<lambda>n. iref n > 0 \<and> idev n = dev \<and> inum n = ino) tab of
        Some ip \<Rightarrow>
          thenK (modifyK (upd_inode ip (\<lambda>n. n\<lparr>iref := iref n + 1\<rparr>)))
          (thenK (release IcacheLock) (retK ip))
      | None \<Rightarrow>
          (case first_index (\<lambda>n. iref n = 0) tab of
             None \<Rightarrow> panicK ''iget: no inodes''
           | Some ip \<Rightarrow>
               thenK (modifyK (upd_inode ip (\<lambda>n. n\<lparr>idev := dev, inum := ino, iref := 1, ivalid := 0\<rparr>)))
               (thenK (release IcacheLock) (retK ip)))))"

fun ialloc_loop :: "uint32 \<Rightarrow> ushort \<Rightarrow> uint32 list \<Rightarrow> (nat, 'z imachine_scheme) kern" where
  "ialloc_loop dev ty [] = panicK ''ialloc: no inodes''"
| "ialloc_loop dev ty (ino # inos) =
     bindK (getsK sb) (\<lambda>sb.
     bindK (bread dev (IBLOCK ino sb)) (\<lambda>bp.
     let p = dinode_off ino in
     bindK (getsK (\<lambda>s. get16 (bdata (bufs s ! bp)) p)) (\<lambda>t.
     if t = 0 then
       thenK (modifyK (upd_data bp (\<lambda>d. put16 p ty (zero_dinode p d))))
       (thenK (log_write bp) (thenK (brelse bp) (iget dev ino)))
     else thenK (brelse bp) (ialloc_loop dev ty inos))))"

definition ialloc :: "uint32 \<Rightarrow> ushort \<Rightarrow> (nat, 'z imachine_scheme) kern" where
  "ialloc dev ty =
     bindK (getsK (\<lambda>s. unat (sb_ninodes (sb s)))) (\<lambda>n. ialloc_loop dev ty (map of_nat [1..<n]))"

definition idup :: "nat \<Rightarrow> (nat, 'z imachine_scheme) kern" where
  "idup ip =
     thenK (acquire IcacheLock)
     (thenK (modifyK (upd_inode ip (\<lambda>n. n\<lparr>iref := iref n + 1\<rparr>)))
     (thenK (release IcacheLock) (retK ip)))"

definition ilock :: "nat option \<Rightarrow> (unit, 'z imachine_scheme) kern" where
  "ilock p =
     (case p of
        None \<Rightarrow> panicK ''ilock''
      | Some ip \<Rightarrow>
          bindK (getsK (\<lambda>s. iref (inodes s ! ip))) (\<lambda>r.
          if r < 1 then panicK ''ilock''
          else thenK (acquiresleep (InodeLock ip))
            (bindK (getsK (\<lambda>s. (inodes s ! ip, sb s))) (\<lambda>(n, sb).
             if ivalid n = 0 then
               bindK (bread (idev n) (IBLOCK (inum n) sb)) (\<lambda>bp.
               thenK (modifyK (\<lambda>s. upd_inode ip (get_dinode (bdata (bufs s ! bp)) (dinode_off (inum n))) s))
               (thenK (brelse bp)
               (thenK (modifyK (upd_inode ip (\<lambda>n. n\<lparr>ivalid := 1\<rparr>)))
               (bindK (getsK (\<lambda>s. itype (inodes s ! ip))) (\<lambda>t.
                if t = 0 then panicK ''ilock: no type'' else retK ())))))
             else retK ()))))"

definition iunlock :: "nat option \<Rightarrow> (unit, 'z imachine_scheme) kern" where
  "iunlock p =
     (case p of
        None \<Rightarrow> panicK ''iunlock''
      | Some ip \<Rightarrow>
          bindK (holdingsleep (InodeLock ip)) (\<lambda>h.
          if \<not> h then panicK ''iunlock''
          else bindK (getsK (\<lambda>s. iref (inodes s ! ip))) (\<lambda>r.
            if r < 1 then panicK ''iunlock'' else releasesleep (InodeLock ip))))"

section \<open>Contents of an inode\<close>

definition addr_of :: "nat \<Rightarrow> nat \<Rightarrow> 'z imachine_scheme \<Rightarrow> uint32" where
  "addr_of ip k s = iaddrs (inodes s ! ip) ! k"

definition set_addr :: "nat \<Rightarrow> nat \<Rightarrow> uint32 \<Rightarrow> 'z imachine_scheme \<Rightarrow> 'z imachine_scheme" where
  "set_addr ip k a = upd_inode ip (\<lambda>n. n\<lparr>iaddrs := (iaddrs n)[k := a]\<rparr>)"

definition addr_or_alloc :: "nat \<Rightarrow> nat \<Rightarrow> (uint32, 'z imachine_scheme) kern" where
  "addr_or_alloc ip k =
     bindK (getsK (addr_of ip k)) (\<lambda>a.
     if a = 0 then
       bindK (getsK (\<lambda>s. idev (inodes s ! ip))) (\<lambda>dev.
       bindK (balloc dev) (\<lambda>a. thenK (modifyK (set_addr ip k a)) (retK a)))
     else retK a)"

definition bmap :: "nat \<Rightarrow> uint32 \<Rightarrow> (uint32, 'z imachine_scheme) kern" where
  "bmap ip bn =
     (if bn < 12 then addr_or_alloc ip (unat bn)
      else let bn = unat (bn - 12) in
        if bn < NINDIRECT then
          bindK (addr_or_alloc ip NDIRECT) (\<lambda>addr.
          bindK (getsK (\<lambda>s. idev (inodes s ! ip))) (\<lambda>dev.
          bindK (bread dev addr) (\<lambda>bp.
          bindK (getsK (\<lambda>s. get32 (bdata (bufs s ! bp)) (4 * bn))) (\<lambda>addr.
          if addr = 0 then
            bindK (balloc dev) (\<lambda>addr.
            thenK (modifyK (upd_data bp (put32 (4 * bn) addr)))
            (thenK (log_write bp) (thenK (brelse bp) (retK addr))))
          else thenK (brelse bp) (retK addr)))))
        else panicK ''bmap: out of range'')"

definition free_direct :: "nat \<Rightarrow> nat \<Rightarrow> (unit, 'z imachine_scheme) kern" where
  "free_direct ip i =
     bindK (getsK (\<lambda>s. (addr_of ip i s, idev (inodes s ! ip)))) (\<lambda>(a, dev).
     whenK (a \<noteq> 0) (thenK (bfree dev a) (modifyK (set_addr ip i 0))))"

definition itrunc :: "nat \<Rightarrow> (unit, 'z imachine_scheme) kern" where
  "itrunc ip =
     thenK (forK [0..<NDIRECT] (free_direct ip))
     (thenK
       (bindK (getsK (\<lambda>s. (addr_of ip NDIRECT s, idev (inodes s ! ip)))) (\<lambda>(ia, dev).
        whenK (ia \<noteq> 0)
          (bindK (bread dev ia) (\<lambda>bp.
           thenK (forK [0..<NINDIRECT] (\<lambda>j.
             bindK (getsK (\<lambda>s. get32 (bdata (bufs s ! bp)) (4 * j))) (\<lambda>a. whenK (a \<noteq> 0) (bfree dev a))))
           (thenK (brelse bp)
           (thenK (bfree dev ia) (modifyK (set_addr ip NDIRECT 0))))))))
     (thenK (modifyK (upd_inode ip (\<lambda>n. n\<lparr>isize := 0\<rparr>))) (iupdate ip)))"

text \<open>The part of \<^verbatim>\<open>iput\<close> that frees an inode with no links and no other reference.\<close>

definition iput_free :: "nat \<Rightarrow> (unit, 'z imachine_scheme) kern" where
  "iput_free ip =
     bindK (getsK (\<lambda>s. inodes s ! ip)) (\<lambda>n.
     whenK (ivalid n \<noteq> 0 \<and> inlink n = 0)
       (thenK (acquire IcacheLock)
       (bindK (getsK (\<lambda>s. iref (inodes s ! ip))) (\<lambda>r.
        thenK (release IcacheLock)
        (whenK (r = 1)
          (thenK (itrunc ip)
          (thenK (modifyK (upd_inode ip (\<lambda>n. n\<lparr>itype := 0\<rparr>)))
          (thenK (iupdate ip) (modifyK (upd_inode ip (\<lambda>n. n\<lparr>ivalid := 0\<rparr>)))))))))))"

definition iput :: "nat \<Rightarrow> (unit, 'z imachine_scheme) kern" where
  "iput ip =
     thenK (acquiresleep (InodeLock ip))
     (thenK (iput_free ip)
     (thenK (releasesleep (InodeLock ip))
     (thenK (acquire IcacheLock)
     (thenK (modifyK (upd_inode ip (\<lambda>n. n\<lparr>iref := iref n - 1\<rparr>)))
       (release IcacheLock)))))"

definition iunlockput :: "nat \<Rightarrow> (unit, 'z imachine_scheme) kern" where
  "iunlockput ip = thenK (iunlock (Some ip)) (iput ip)"

record stat =
  st_type :: ushort
  st_dev :: uint32
  st_ino :: uint32
  st_nlink :: ushort
  st_size :: uint32

definition stati :: "nat \<Rightarrow> (stat, 'z imachine_scheme) kern" where
  "stati ip = getsK (\<lambda>s. let n = inodes s ! ip in
     \<lparr>st_type = itype n, st_dev = idev n, st_ino = inum n, st_nlink = inlink n, st_size = isize n\<rparr>)"

text \<open>One turn of the loops of \<^verbatim>\<open>readi\<close> and \<^verbatim>\<open>writei\<close> moves \<open>m\<close> bytes, up to the end of a block.\<close>

definition chunk :: "nat \<Rightarrow> nat \<Rightarrow> nat" where
  "chunk off k = min k (BSIZE - off mod BSIZE)"

lemma chunk_pos: "0 < k \<Longrightarrow> 0 < chunk off k"
  by (simp add: chunk_def)

function readi_loop :: "nat \<Rightarrow> nat \<Rightarrow> nat \<Rightarrow> (uchar list, 'z imachine_scheme) kern" where
  "readi_loop ip off k =
     (if k = 0 then retK []
      else
        bindK (getsK (\<lambda>s. idev (inodes s ! ip))) (\<lambda>dev.
        bindK (bmap ip (of_nat (off div BSIZE))) (\<lambda>a.
        bindK (bread dev a) (\<lambda>bp.
        bindK (getsK (\<lambda>s. take (chunk off k) (drop (off mod BSIZE) (bdata (bufs s ! bp))))) (\<lambda>d.
        thenK (brelse bp)
        (bindK (readi_loop ip (off + chunk off k) (k - chunk off k)) (\<lambda>ds. retK (d @ ds))))))))"
  by pat_completeness auto
termination
  by (relation "measure (\<lambda>(ip, off, k). k)") (auto simp: chunk_pos)

declare readi_loop.simps [simp del]

definition readi :: "'z imachine_scheme dev_read \<Rightarrow> nat \<Rightarrow> uint32 \<Rightarrow> uint32 \<Rightarrow>
    (int \<times> uchar list, 'z imachine_scheme) kern" where
  "readi dr ip off n =
     bindK (getsK (\<lambda>s. inodes s ! ip)) (\<lambda>nd.
     if itype nd = T_DEV then
       (if sint (imajor nd) < 0 \<or> sint (imajor nd) \<ge> NDEV then retK (- 1, [])
        else case dr (sint (imajor nd)) of None \<Rightarrow> retK (- 1, []) | Some f \<Rightarrow> f ip (sint n))
     else if off > isize nd \<or> off + n < off then retK (- 1, [])
     else let n = (if off + n > isize nd then isize nd - off else n) in
       bindK (readi_loop ip (unat off) (unat n)) (\<lambda>d. retK (sint n, d)))"

definition put_bytes :: "nat \<Rightarrow> uchar list \<Rightarrow> uchar list \<Rightarrow> uchar list" where
  "put_bytes p xs d = take p d @ xs @ drop (p + length xs) d"

function writei_loop :: "nat \<Rightarrow> uchar list \<Rightarrow> nat \<Rightarrow> (unit, 'z imachine_scheme) kern" where
  "writei_loop ip src off =
     (if src = [] then retK ()
      else
        (let m = chunk off (length src) in
        bindK (getsK (\<lambda>s. idev (inodes s ! ip))) (\<lambda>dev.
        bindK (bmap ip (of_nat (off div BSIZE))) (\<lambda>a.
        bindK (bread dev a) (\<lambda>bp.
        thenK (modifyK (upd_data bp (put_bytes (off mod BSIZE) (take m src))))
        (thenK (log_write bp)
        (thenK (brelse bp)
          (writei_loop ip (drop m src) (off + m)))))))))"
  by pat_completeness auto
termination
proof (relation "measure (\<lambda>(ip, src, off). length src)")
  fix ip off m :: nat and src :: "uchar list"
  assume "src \<noteq> []" and "m = chunk off (length src)"
  then show "((ip, drop m src, off + m), ip, src, off) \<in> measure (\<lambda>(ip, src, off). length src)"
    using chunk_pos [of "length src" off] by simp
qed simp

declare writei_loop.simps [simp del]

text \<open>\<open>src\<close> holds the \<open>n\<close> bytes to write.\<close>

definition writei :: "'z imachine_scheme dev_write \<Rightarrow> nat \<Rightarrow> uchar list \<Rightarrow> uint32 \<Rightarrow> uint32 \<Rightarrow>
    (int, 'z imachine_scheme) kern" where
  "writei dw ip src off n =
     bindK (getsK (\<lambda>s. inodes s ! ip)) (\<lambda>nd.
     if itype nd = T_DEV then
       (if sint (imajor nd) < 0 \<or> sint (imajor nd) \<ge> NDEV then retK (- 1)
        else case dw (sint (imajor nd)) of None \<Rightarrow> retK (- 1) | Some f \<Rightarrow> f ip src (sint n))
     else if off > isize nd \<or> off + n < off then retK (- 1)
     else if off + n > of_nat (MAXFILE * BSIZE) then retK (- 1)
     else thenK (writei_loop ip (take (unat n) src) (unat off))
       (bindK (getsK (\<lambda>s. isize (inodes s ! ip))) (\<lambda>size.
        thenK (whenK (n > 0 \<and> off + n > size)
            (thenK (modifyK (upd_inode ip (\<lambda>x. x\<lparr>isize := off + n\<rparr>))) (iupdate ip)))
          (retK (sint n)))))"

section \<open>Directories\<close>

text \<open>
  \<^verbatim>\<open>strncmp\<close> and \<^verbatim>\<open>strncpy\<close> on lists; past its end a list is followed by its NUL.
\<close>

fun list_strncmp :: "nat \<Rightarrow> uchar list \<Rightarrow> uchar list \<Rightarrow> int" where
  "list_strncmp 0 p q = 0"
| "list_strncmp (Suc n) p q =
     (let a = nth_default 0 p 0; b = nth_default 0 q 0
      in if a \<noteq> 0 \<and> a = b then list_strncmp n (drop 1 p) (drop 1 q) else uint a - uint b)"

definition namecmp :: "uchar list \<Rightarrow> uchar list \<Rightarrow> int" where
  "namecmp p q = list_strncmp DIRSIZ p q"

definition list_strncpy :: "nat \<Rightarrow> uchar list \<Rightarrow> uchar list" where
  "list_strncpy n p = (let q = take n (takeWhile (\<lambda>c. c \<noteq> 0) p) in q @ replicate (n - length q) 0)"

text \<open>A directory entry: the inode number and 14 bytes of name.\<close>

definition de_inum :: "uchar list \<Rightarrow> ushort" where
  "de_inum de = get16 de 0"

definition de_name :: "uchar list \<Rightarrow> uchar list" where
  "de_name de = take DIRSIZ (drop 2 de)"

definition mk_dirent :: "ushort \<Rightarrow> uchar list \<Rightarrow> uchar list" where
  "mk_dirent ino nm = put16 0 ino [0, 0] @ list_strncpy DIRSIZ nm"

definition dir_offs :: "nat \<Rightarrow> 'z imachine_scheme \<Rightarrow> uint32 list" where
  "dir_offs dp s = map (\<lambda>k. of_nat (16 * k)) [0..<(unat (isize (inodes s ! dp)) + 15) div 16]"

fun dirlookup_loop :: "'z imachine_scheme dev_read \<Rightarrow> nat \<Rightarrow> uchar list \<Rightarrow> uint32 list \<Rightarrow>
    ((nat \<times> uint32) option, 'z imachine_scheme) kern" where
  "dirlookup_loop dr dp nm [] = retK None"
| "dirlookup_loop dr dp nm (off # offs) =
     bindK (readi dr dp off 16) (\<lambda>(r, de).
     if r \<noteq> 16 then panicK ''dirlookup read''
     else if de_inum de = 0 then dirlookup_loop dr dp nm offs
     else if namecmp nm (de_name de) = 0 then
       bindK (getsK (\<lambda>s. idev (inodes s ! dp))) (\<lambda>dev.
       bindK (iget dev (ucast (de_inum de))) (\<lambda>ip. retK (Some (ip, off))))
     else dirlookup_loop dr dp nm offs)"

definition dirlookup :: "'z imachine_scheme dev_read \<Rightarrow> nat \<Rightarrow> uchar list \<Rightarrow>
    ((nat \<times> uint32) option, 'z imachine_scheme) kern" where
  "dirlookup dr dp nm =
     bindK (getsK (\<lambda>s. itype (inodes s ! dp))) (\<lambda>t.
     if t \<noteq> T_DIR then panicK ''dirlookup not DIR''
     else bindK (getsK (dir_offs dp)) (dirlookup_loop dr dp nm))"

text \<open>The first empty entry of a directory, or the offset past its last entry.\<close>

fun dirlink_loop :: "'z imachine_scheme dev_read \<Rightarrow> nat \<Rightarrow> uint32 \<Rightarrow> uint32 list \<Rightarrow> (uint32, 'z imachine_scheme) kern" where
  "dirlink_loop dr dp past [] = retK past"
| "dirlink_loop dr dp past (off # offs) =
     bindK (readi dr dp off 16) (\<lambda>(r, de).
     if r \<noteq> 16 then panicK ''dirlink read''
     else if de_inum de = 0 then retK off
     else dirlink_loop dr dp (off + 16) offs)"

definition dirlink :: "'z imachine_scheme dev_read \<Rightarrow> 'z imachine_scheme dev_write \<Rightarrow> nat \<Rightarrow> uchar list \<Rightarrow>
    uint32 \<Rightarrow> (int, 'z imachine_scheme) kern" where
  "dirlink dr dw dp nm ino =
     bindK (dirlookup dr dp nm) (\<lambda>f.
     case f of
       Some (ip, off) \<Rightarrow> thenK (iput ip) (retK (- 1))
     | None \<Rightarrow>
         bindK (getsK (dir_offs dp)) (\<lambda>offs.
         bindK (dirlink_loop dr dp 0 offs) (\<lambda>off.
         bindK (writei dw dp (mk_dirent (ucast ino) nm) off 16) (\<lambda>r.
         if r \<noteq> 16 then panicK ''dirlink'' else retK 0))))"

section \<open>Paths\<close>

definition skipelem :: "uchar list \<Rightarrow> uchar list \<Rightarrow> (uchar list \<times> uchar list) option" where
  "skipelem path nm =
     (let p = dropWhile (\<lambda>c. c = 47) path
      in if p = [] then None
         else let s = takeWhile (\<lambda>c. c \<noteq> 47) p; rest = dropWhile (\<lambda>c. c \<noteq> 47) p
              in Some (dropWhile (\<lambda>c. c = 47) rest,
                   if length s \<ge> DIRSIZ then take DIRSIZ s
                   else s @ [0] @ drop (length s + 1) nm))"

lemma skipelem_shorter: "skipelem path nm = Some (p, nm') \<Longrightarrow> length p < length path"
proof -
  assume a: "skipelem path nm = Some (p, nm')"
  let ?p = "dropWhile (\<lambda>c. c = 47) path"
  have ne: "?p \<noteq> []" and p: "p = dropWhile (\<lambda>c. c = 47) (dropWhile (\<lambda>c. c \<noteq> 47) ?p)"
    using a by (auto simp: skipelem_def Let_def split: if_splits)
  have "hd ?p \<noteq> 47" using hd_dropWhile [OF ne] .
  then obtain x xs where x: "?p = x # xs" "x \<noteq> 47" using ne by (cases ?p) auto
  have "length p \<le> length (dropWhile (\<lambda>c. c \<noteq> 47) ?p)" unfolding p by (rule length_dropWhile_le)
  also have "\<dots> \<le> length xs" using x by (simp add: length_dropWhile_le)
  also have "\<dots> < length ?p" using x by simp
  also have "\<dots> \<le> length path" by (rule length_dropWhile_le)
  finally show ?thesis .
qed

function namex_loop :: "'z imachine_scheme dev_read \<Rightarrow> bool \<Rightarrow> nat \<Rightarrow> uchar list \<Rightarrow> uchar list \<Rightarrow>
    ((nat \<times> uchar list) option, 'z imachine_scheme) kern" where
  "namex_loop dr par ip path nm =
     (case skipelem path nm of
        None \<Rightarrow> if par then thenK (iput ip) (retK None) else retK (Some (ip, nm))
      | Some (path, nm) \<Rightarrow>
          thenK (ilock (Some ip))
          (bindK (getsK (\<lambda>s. itype (inodes s ! ip))) (\<lambda>t.
           if t \<noteq> T_DIR then thenK (iunlockput ip) (retK None)
           else if par \<and> path = [] then thenK (iunlock (Some ip)) (retK (Some (ip, nm)))
           else bindK (dirlookup dr ip nm) (\<lambda>f.
             case f of
               None \<Rightarrow> thenK (iunlockput ip) (retK None)
             | Some (nx, off) \<Rightarrow> thenK (iunlockput ip) (namex_loop dr par nx path nm)))))"
  by pat_completeness auto
termination
  by (relation "measure (\<lambda>(dr, par, ip, path, nm). length path)") (auto dest: skipelem_shorter)

declare namex_loop.simps [simp del]

text \<open>The result is the inode with the last path element in \<open>name\<close>.\<close>

definition namex :: "'z imachine_scheme dev_read \<Rightarrow> uchar list \<Rightarrow> bool \<Rightarrow> uchar list \<Rightarrow>
    ((nat \<times> uchar list) option, 'z imachine_scheme) kern" where
  "namex dr path par nm =
     bindK (if path \<noteq> [] \<and> hd path = 47 then iget ROOTDEV ROOTINO
            else bindK myproc (\<lambda>p. derefK p (\<lambda>i.
              bindK (getsK (\<lambda>s. cwd (procs s ! i))) (\<lambda>d. derefK d idup))))
       (\<lambda>ip. namex_loop dr par ip path nm)"

definition namei :: "'z imachine_scheme dev_read \<Rightarrow> uchar list \<Rightarrow> (nat option, 'z imachine_scheme) kern" where
  "namei dr path = bindK (namex dr path False (replicate DIRSIZ 0)) (\<lambda>r. retK (map_option fst r))"

definition nameiparent :: "'z imachine_scheme dev_read \<Rightarrow> uchar list \<Rightarrow> uchar list \<Rightarrow>
    ((nat \<times> uchar list) option, 'z imachine_scheme) kern" where
  "nameiparent dr path nm = namex dr path True nm"

definition iinit :: "uint32 \<Rightarrow> (unit, 'z imachine_scheme) kern" where
  "iinit dev =
     thenK (modifyK (initlock IcacheLock ''icache''))
     (thenK (forK [0..<NINODE] (\<lambda>i. initsleeplock (InodeLock i) ''inode''))
     (bindK (readsb dev) (\<lambda>b.
      thenK (modifyK (\<lambda>s. s\<lparr>sb := b\<rparr>))
        (cprint ''sb: size %d nblocks %d ninodes %d nlog %d logstart %d inodestart %d bmap start %d\<newline>''
           [PInt (sint (sb_size b)), PInt (sint (sb_nblocks b)), PInt (sint (sb_ninodes b)), PInt (sint (sb_nlog b)),
            PInt (sint (sb_logstart b)), PInt (sint (sb_inodestart b)), PInt (sint (sb_bmapstart b))]))))"

end
