(* ===== verification/File.thy ===== *)
theory File
  imports Fs
begin

text \<open>
  Pipes (\<^verbatim>\<open>pipe.c\<close>) and open files (\<^verbatim>\<open>file.c\<close>). A \<^verbatim>\<open>struct file\<close> is its index in \<^verbatim>\<open>ftable.file\<close>; a pipe
  is the address of the page it lives in, and \<open>pipes\<close> gives the contents of that page read as a
  \<^verbatim>\<open>struct pipe\<close>. The bytes that a read puts at \<^verbatim>\<open>addr\<close> are part of its result; the bytes that a
  write takes from \<^verbatim>\<open>addr\<close> are an argument.
\<close>

section \<open>State\<close>

abbreviation (input) NFILE :: nat where "NFILE \<equiv> 100"
abbreviation (input) PIPESIZE :: uint32 where "PIPESIZE \<equiv> 512"

record pipe =
  pdata :: "uchar list"
  nread :: uint32
  nwrite :: uint32
  readopen :: int
  writeopen :: int

datatype ftype = FD_NONE | FD_PIPE | FD_INODE

record file_struct =
  ftype :: ftype
  fref :: int
  readable :: bool
  writable :: bool
  fpipe :: uint32
  fip :: "nat option"
  foff :: uint32

record fmachine = imachine +
  ftable :: "file_struct list"
  pipes :: "uint32 \<Rightarrow> pipe"

definition upd_file :: "nat \<Rightarrow> (file_struct \<Rightarrow> file_struct) \<Rightarrow> 'z fmachine_scheme \<Rightarrow> 'z fmachine_scheme" where
  "upd_file i f s = s\<lparr>ftable := (ftable s)[i := f (ftable s ! i)]\<rparr>"

definition upd_pipe :: "uint32 \<Rightarrow> (pipe \<Rightarrow> pipe) \<Rightarrow> 'z fmachine_scheme \<Rightarrow> 'z fmachine_scheme" where
  "upd_pipe p f s = s\<lparr>pipes := (pipes s)(p := f (pipes s p))\<rparr>"

section \<open>Pipes\<close>

definition pipe_put :: "uchar \<Rightarrow> pipe \<Rightarrow> pipe" where
  "pipe_put x q = q\<lparr>pdata := (pdata q)[unat (nwrite q mod PIPESIZE) := x], nwrite := nwrite q + 1\<rparr>"

text \<open>
  The loop of \<^verbatim>\<open>pipewrite\<close> over the bytes still to write; when the pipe is full it ends in the \<open>Block\<close>
  of \<^verbatim>\<open>sleep\<close> and goes on with \<open>pipewrite_resume\<close>.
\<close>

definition pipewrite_full :: "uint32 \<Rightarrow> (int, 'z fmachine_scheme) kern" where
  "pipewrite_full p =
     (let fail = thenK (release (PipeLock p)) (retK (- 1)) in
      bindK (getsK (\<lambda>s. readopen (pipes s p))) (\<lambda>r.
      if r = 0 then fail
      else bindK myproc (\<lambda>m. derefK m (\<lambda>i.
        bindK (getsK (\<lambda>s. killed (procs s ! i))) (\<lambda>k.
        if k \<noteq> 0 then fail
        else thenK (wakeup (ChanPipeRead p))
          (thenK (sleep (ChanPipeWrite p) (Some (PipeLock p))) (retK 0)))))))"

fun pipewrite_loop :: "uint32 \<Rightarrow> uchar list \<Rightarrow> int \<Rightarrow> (int, 'z fmachine_scheme) kern" where
  "pipewrite_loop p [] n =
     thenK (wakeup (ChanPipeRead p)) (thenK (release (PipeLock p)) (retK n))"
| "pipewrite_loop p (x # xs) n =
     bindK (getsK (\<lambda>s. pipes s p)) (\<lambda>q.
     if nwrite q = nread q + PIPESIZE then pipewrite_full p
     else thenK (modifyK (upd_pipe p (pipe_put x))) (pipewrite_loop p xs n))"

definition pipewrite :: "uint32 \<Rightarrow> uchar list \<Rightarrow> int \<Rightarrow> (int, 'z fmachine_scheme) kern" where
  "pipewrite p xs n = thenK (acquire (PipeLock p)) (pipewrite_loop p (take (nat n) xs) n)"

definition pipewrite_resume :: "nat \<Rightarrow> uint32 \<Rightarrow> uchar list \<Rightarrow> int \<Rightarrow> (int, 'z fmachine_scheme) kern" where
  "pipewrite_resume cur p xs n = thenK (sleep_resume cur (PipeLock p)) (pipewrite_loop p xs n)"

fun pipe_take :: "nat \<Rightarrow> pipe \<Rightarrow> uchar list \<times> pipe" where
  "pipe_take 0 q = ([], q)"
| "pipe_take (Suc n) q =
     (if nread q = nwrite q then ([], q)
      else let x = pdata q ! unat (nread q mod PIPESIZE);
               (xs, q') = pipe_take n (q\<lparr>nread := nread q + 1\<rparr>)
           in (x # xs, q'))"

definition piperead_loop :: "uint32 \<Rightarrow> int \<Rightarrow> (int \<times> uchar list, 'z fmachine_scheme) kern" where
  "piperead_loop p n =
     bindK (getsK (\<lambda>s. pipes s p)) (\<lambda>q.
     if nread q = nwrite q \<and> writeopen q \<noteq> 0 then
       bindK myproc (\<lambda>m. derefK m (\<lambda>i.
       bindK (getsK (\<lambda>s. killed (procs s ! i))) (\<lambda>k.
       if k \<noteq> 0 then thenK (release (PipeLock p)) (retK (- 1, []))
       else thenK (sleep (ChanPipeRead p) (Some (PipeLock p))) (retK (0, [])))))
     else
       bindK (getsK (\<lambda>s. fst (pipe_take (nat n) (pipes s p)))) (\<lambda>xs.
       thenK (modifyK (upd_pipe p (\<lambda>q. snd (pipe_take (nat n) q))))
       (thenK (wakeup (ChanPipeWrite p))
       (thenK (release (PipeLock p)) (retK (int (length xs), xs))))))"

definition piperead :: "uint32 \<Rightarrow> int \<Rightarrow> (int \<times> uchar list, 'z fmachine_scheme) kern" where
  "piperead p n = thenK (acquire (PipeLock p)) (piperead_loop p n)"

definition piperead_resume :: "nat \<Rightarrow> uint32 \<Rightarrow> int \<Rightarrow> (int \<times> uchar list, 'z fmachine_scheme) kern" where
  "piperead_resume cur p n = thenK (sleep_resume cur (PipeLock p)) (piperead_loop p n)"

definition pipeclose :: "uint32 \<Rightarrow> bool \<Rightarrow> (unit, 'z fmachine_scheme) kern" where
  "pipeclose p wr =
     thenK (acquire (PipeLock p))
     (thenK
       (if wr then thenK (modifyK (upd_pipe p (\<lambda>q. q\<lparr>writeopen := 0\<rparr>))) (wakeup (ChanPipeRead p))
        else thenK (modifyK (upd_pipe p (\<lambda>q. q\<lparr>readopen := 0\<rparr>))) (wakeup (ChanPipeWrite p)))
     (bindK (getsK (\<lambda>s. readopen (pipes s p) = 0 \<and> writeopen (pipes s p) = 0)) (\<lambda>b.
      if b then thenK (release (PipeLock p)) (kfree p) else release (PipeLock p))))"

section \<open>Files\<close>

definition fileinit :: "(unit, 'z fmachine_scheme) kern" where
  "fileinit = modifyK (initlock FtableLock ''ftable'')"

definition filealloc :: "(nat option, 'z fmachine_scheme) kern" where
  "filealloc =
     thenK (acquire FtableLock)
     (bindK (getsK (\<lambda>s. first_index (\<lambda>f. fref f = 0) (ftable s))) (\<lambda>r.
      case r of
        Some f \<Rightarrow>
          thenK (modifyK (upd_file f (\<lambda>x. x\<lparr>fref := 1\<rparr>)))
          (thenK (release FtableLock) (retK (Some f)))
      | None \<Rightarrow> thenK (release FtableLock) (retK None)))"

definition filedup :: "nat \<Rightarrow> (nat, 'z fmachine_scheme) kern" where
  "filedup f =
     thenK (acquire FtableLock)
     (bindK (getsK (\<lambda>s. fref (ftable s ! f))) (\<lambda>r.
      if r < 1 then panicK ''filedup''
      else thenK (modifyK (upd_file f (\<lambda>x. x\<lparr>fref := fref x + 1\<rparr>)))
        (thenK (release FtableLock) (retK f))))"

definition fileclose :: "nat \<Rightarrow> (unit, 'z fmachine_scheme) kern" where
  "fileclose f =
     thenK (acquire FtableLock)
     (bindK (getsK (\<lambda>s. fref (ftable s ! f))) (\<lambda>r.
      if r < 1 then panicK ''fileclose''
      else thenK (modifyK (upd_file f (\<lambda>x. x\<lparr>fref := fref x - 1\<rparr>)))
        (bindK (getsK (\<lambda>s. ftable s ! f)) (\<lambda>ff.
         if fref ff > 0 then release FtableLock
         else thenK (modifyK (upd_file f (\<lambda>x. x\<lparr>fref := 0, ftype := FD_NONE\<rparr>)))
           (thenK (release FtableLock)
             (case ftype ff of
                FD_PIPE \<Rightarrow> pipeclose (fpipe ff) (writable ff)
              | FD_INODE \<Rightarrow> thenK begin_op (thenK (derefK (fip ff) iput) end_op)
              | FD_NONE \<Rightarrow> retK ()))))))"

definition filestat :: "nat \<Rightarrow> (stat option, 'z fmachine_scheme) kern" where
  "filestat f =
     bindK (getsK (\<lambda>s. ftable s ! f)) (\<lambda>ff.
     if ftype ff = FD_INODE then
       thenK (ilock (fip ff))
       (bindK (derefK (fip ff) stati) (\<lambda>st.
        thenK (iunlock (fip ff)) (retK (Some st))))
     else retK None)"

definition fileread :: "'z fmachine_scheme dev_read \<Rightarrow> nat \<Rightarrow> int \<Rightarrow> (int \<times> uchar list, 'z fmachine_scheme) kern" where
  "fileread dr f n =
     bindK (getsK (\<lambda>s. ftable s ! f)) (\<lambda>ff.
     if \<not> readable ff then retK (- 1, [])
     else case ftype ff of
       FD_PIPE \<Rightarrow> piperead (fpipe ff) n
     | FD_INODE \<Rightarrow>
         thenK (ilock (fip ff))
         (bindK (derefK (fip ff) (\<lambda>ip. readi dr ip (foff ff) (of_int n))) (\<lambda>(r, d).
          thenK (whenK (r > 0) (modifyK (upd_file f (\<lambda>x. x\<lparr>foff := foff x + of_int r\<rparr>))))
          (thenK (iunlock (fip ff)) (retK (r, d)))))
     | FD_NONE \<Rightarrow> panicK ''fileread'')"

text \<open>
  The loop of \<^verbatim>\<open>filewrite\<close> over the bytes still to write, with the result \<^verbatim>\<open>i == n\<close>. A turn writes at
  most \<^verbatim>\<open>max\<close> bytes.
\<close>

abbreviation (input) filewrite_max :: nat where "filewrite_max \<equiv> ((10 - 1 - 1 - 2) div 2) * 512"

function filewrite_loop :: "'z fmachine_scheme dev_write \<Rightarrow> nat \<Rightarrow> uchar list \<Rightarrow> (bool, 'z fmachine_scheme) kern" where
  "filewrite_loop dw f src =
     (if src = [] then retK True
      else
        (let n1 = min (length src) filewrite_max in
         bindK (getsK (\<lambda>s. ftable s ! f)) (\<lambda>ff.
         thenK begin_op
         (thenK (ilock (fip ff))
         (bindK (derefK (fip ff) (\<lambda>ip. writei dw ip (take n1 src) (foff ff) (of_nat n1))) (\<lambda>r.
          thenK (whenK (r > 0) (modifyK (upd_file f (\<lambda>x. x\<lparr>foff := foff x + of_int r\<rparr>))))
          (thenK (iunlock (fip ff))
          (thenK end_op
            (if r < 0 then retK False
             else if r \<noteq> int n1 then panicK ''short filewrite''
             else filewrite_loop dw f (drop n1 src))))))))))"
  by pat_completeness auto
termination
  by (relation "measure (\<lambda>(dw, f, src). length src)") auto

declare filewrite_loop.simps [simp del]

definition filewrite :: "'z fmachine_scheme dev_write \<Rightarrow> nat \<Rightarrow> uchar list \<Rightarrow> int \<Rightarrow> (int, 'z fmachine_scheme) kern" where
  "filewrite dw f src n =
     bindK (getsK (\<lambda>s. ftable s ! f)) (\<lambda>ff.
     if \<not> writable ff then retK (- 1)
     else case ftype ff of
       FD_PIPE \<Rightarrow> pipewrite (fpipe ff) src n
     | FD_INODE \<Rightarrow>
         (if n < 0 then retK (- 1)
          else bindK (filewrite_loop dw f (take (nat n) src)) (\<lambda>b. retK (if b then n else - 1)))
     | FD_NONE \<Rightarrow> panicK ''filewrite'')"

section \<open>Making a pipe\<close>

definition pipealloc_bad :: "uint32 \<Rightarrow> nat option \<Rightarrow> nat option \<Rightarrow> ((nat \<times> nat) option, 'z fmachine_scheme) kern" where
  "pipealloc_bad p f0 f1 =
     thenK (whenK (p \<noteq> 0) (kfree p))
     (thenK (case f0 of None \<Rightarrow> retK () | Some f \<Rightarrow> fileclose f)
     (thenK (case f1 of None \<Rightarrow> retK () | Some f \<Rightarrow> fileclose f)
       (retK None)))"

definition pipealloc :: "((nat \<times> nat) option, 'z fmachine_scheme) kern" where
  "pipealloc =
     bindK filealloc (\<lambda>r0.
     case r0 of
       None \<Rightarrow> pipealloc_bad 0 None None
     | Some f0 \<Rightarrow>
         bindK filealloc (\<lambda>r1.
         case r1 of
           None \<Rightarrow> pipealloc_bad 0 (Some f0) None
         | Some f1 \<Rightarrow>
             bindK kalloc (\<lambda>p.
             if p = 0 then pipealloc_bad 0 (Some f0) (Some f1)
             else
               thenK (modifyK (upd_pipe p (\<lambda>q. q\<lparr>readopen := 1, writeopen := 1, nwrite := 0, nread := 0\<rparr>)))
               (thenK (modifyK (initlock (PipeLock p) ''pipe''))
               (thenK (modifyK (upd_file f0 (\<lambda>x. x\<lparr>ftype := FD_PIPE, readable := True, writable := False, fpipe := p\<rparr>)))
               (thenK (modifyK (upd_file f1 (\<lambda>x. x\<lparr>ftype := FD_PIPE, readable := False, writable := True, fpipe := p\<rparr>)))
                 (retK (Some (f0, f1)))))))))"

end
