(* ===== verification/Proc_Life.thy ===== *)
theory Proc_Life
  imports File
begin

text \<open>
  The life of a process: the first process, \<^verbatim>\<open>fork\<close>, \<^verbatim>\<open>clone\<close>, \<^verbatim>\<open>exit\<close>, \<^verbatim>\<open>forkret\<close>, the process
  listing of \<^verbatim>\<open>proc.c\<close>, and \<^verbatim>\<open>exec\<close> of \<^verbatim>\<open>exec.c\<close>. A trap frame is its address on the kernel stack; its
  fields are the words of memory at the offsets below.
\<close>

section \<open>State\<close>

text \<open>\<open>forkret_first\<close> is the static variable \<^verbatim>\<open>first\<close> of \<^verbatim>\<open>forkret\<close>, \<open>ticks\<close> the clock of \<^verbatim>\<open>trap.c\<close>.\<close>

record xmachine = fmachine +
  forkret_first :: int
  ticks :: uint32

abbreviation (input) TF_EAX :: uint32 where "TF_EAX \<equiv> 28"
abbreviation (input) TF_ES :: uint32 where "TF_ES \<equiv> 40"
abbreviation (input) TF_DS :: uint32 where "TF_DS \<equiv> 44"
abbreviation (input) TF_TRAPNO :: uint32 where "TF_TRAPNO \<equiv> 48"
abbreviation (input) TF_ERR :: uint32 where "TF_ERR \<equiv> 52"
abbreviation (input) TF_EIP :: uint32 where "TF_EIP \<equiv> 56"
abbreviation (input) TF_CS :: uint32 where "TF_CS \<equiv> 60"
abbreviation (input) TF_EFLAGS :: uint32 where "TF_EFLAGS \<equiv> 64"
abbreviation (input) TF_ESP :: uint32 where "TF_ESP \<equiv> 68"
abbreviation (input) TF_SS :: uint32 where "TF_SS \<equiv> 72"
abbreviation (input) TF_SIZE :: nat where "TF_SIZE \<equiv> 76"

abbreviation (input) DEFAULT_TICKETS :: int where "DEFAULT_TICKETS \<equiv> 1"

definition store16 :: "memory \<Rightarrow> uint32 \<Rightarrow> ushort \<Rightarrow> memory" where
  "store16 m a v = m(a := ucast v, a + 1 := ucast (drop_bit 8 v))"

definition tf_set :: "uint32 \<Rightarrow> uint32 \<Rightarrow> uint32 \<Rightarrow> 'z machine_scheme \<Rightarrow> 'z machine_scheme" where
  "tf_set t field v s = s\<lparr>mem := store32 (mem s) (t + field) v\<rparr>"

definition tf_set16 :: "uint32 \<Rightarrow> uint32 \<Rightarrow> ushort \<Rightarrow> 'z machine_scheme \<Rightarrow> 'z machine_scheme" where
  "tf_set16 t field v s = s\<lparr>mem := store16 (mem s) (t + field) v\<rparr>"

definition tf_get :: "uint32 \<Rightarrow> uint32 \<Rightarrow> 'z machine_scheme \<Rightarrow> uint32" where
  "tf_get t field s = load32 (mem s) (t + field)"

text \<open>\<^verbatim>\<open>safestrcpy\<close> into the name of a process, which is not in the byte memory of the model.\<close>

definition list_safestrcpy :: "uchar list \<Rightarrow> uchar list \<Rightarrow> nat \<Rightarrow> uchar list" where
  "list_safestrcpy old src n =
     (if n = 0 then old
      else let c = take (n - 1) (takeWhile (\<lambda>x. x \<noteq> 0) src @ [0]) in c @ [0] @ drop (length c + 1) old)"

definition chars :: "string \<Rightarrow> uchar list" where
  "chars = map of_char"

definition cur_proc :: "(nat, 'z machine_scheme) kern" where
  "cur_proc = bindK myproc (\<lambda>p. derefK p retK)"

section \<open>The first process\<close>

text \<open>The embedded program \<^verbatim>\<open>initcode\<close> lies at \<open>start\<close> and has \<open>len\<close> bytes.\<close>

definition init_tf :: "uint32 \<Rightarrow> 'z machine_scheme \<Rightarrow> 'z machine_scheme" where
  "init_tf t s =
     tf_set t TF_EIP 0 (tf_set t TF_ESP PGSIZE (tf_set t TF_EFLAGS FL_IF
       (tf_set16 t TF_SS 0x23 (tf_set16 t TF_ES 0x23 (tf_set16 t TF_DS 0x23 (tf_set16 t TF_CS 0x1B
          (s\<lparr>mem := memset (mem s) t 0 (of_nat TF_SIZE)\<rparr>)))))))"

definition userinit :: "'z fmachine_scheme dev_read \<Rightarrow> uint32 \<Rightarrow> uint32 \<Rightarrow> (unit, 'z fmachine_scheme) kern" where
  "userinit dr start len =
     bindK allocproc (\<lambda>r.
     thenK (modifyK (\<lambda>s. s\<lparr>initproc := r\<rparr>))
     (derefK r (\<lambda>p.
      bindK setupkvm (\<lambda>d.
      thenK (modifyK (upd_proc p (\<lambda>q. q\<lparr>pgdir := d\<rparr>)))
      (if d = 0 then panicK ''userinit: out of memory?''
       else thenK (inituvm d start len)
         (thenK (modifyK (upd_proc p (\<lambda>q. q\<lparr>sz := PGSIZE\<rparr>)))
         (thenK (modifyK (\<lambda>s. init_tf (tf (procs s ! p)) s))
         (thenK (modifyK (upd_proc p (\<lambda>q. q\<lparr>tickets := DEFAULT_TICKETS,
              pname := list_safestrcpy (pname q) (chars ''initcode'') 16\<rparr>)))
         (bindK (namei dr (chars ''/'')) (\<lambda>ip.
          thenK (modifyK (upd_proc p (\<lambda>q. q\<lparr>cwd := ip\<rparr>)))
          (thenK (acquire PtableLock)
          (thenK (modifyK (upd_proc p (\<lambda>q. q\<lparr>pstate := RUNNABLE\<rparr>)))
            (release PtableLock)))))))))))))"

section \<open>Creating processes and threads\<close>

definition dup_file :: "nat \<Rightarrow> nat \<Rightarrow> nat \<Rightarrow> (unit, 'z fmachine_scheme) kern" where
  "dup_file cur np i =
     bindK (getsK (\<lambda>s. ofile (procs s ! cur) ! i)) (\<lambda>f.
     case f of
       None \<Rightarrow> retK ()
     | Some x \<Rightarrow> bindK (filedup x) (\<lambda>g.
         modifyK (upd_proc np (\<lambda>q. q\<lparr>ofile := (ofile q)[i := Some g]\<rparr>))))"

definition copy_tf :: "nat \<Rightarrow> nat \<Rightarrow> 'z pmachine_scheme \<Rightarrow> 'z pmachine_scheme" where
  "copy_tf cur np s = s\<lparr>mem := copy (mem s) (tf (procs s ! np)) (tf (procs s ! cur)) TF_SIZE\<rparr>"

definition dup_cwd :: "nat \<Rightarrow> nat \<Rightarrow> (unit, 'z fmachine_scheme) kern" where
  "dup_cwd cur np =
     bindK (getsK (\<lambda>s. cwd (procs s ! cur))) (\<lambda>d.
     derefK d (\<lambda>ip. bindK (idup ip) (\<lambda>ip. modifyK (upd_proc np (\<lambda>q. q\<lparr>cwd := Some ip\<rparr>)))))"

definition copy_name :: "nat \<Rightarrow> nat \<Rightarrow> 'z pmachine_scheme \<Rightarrow> 'z pmachine_scheme" where
  "copy_name cur np s = upd_proc np (\<lambda>q. q\<lparr>pname := list_safestrcpy (pname q) (pname (procs s ! cur)) 16\<rparr>) s"

definition fork :: "(int, 'z fmachine_scheme) kern" where
  "fork =
     bindK cur_proc (\<lambda>cur.
     bindK allocproc (\<lambda>r.
     case r of
       None \<Rightarrow> retK (- 1)
     | Some np \<Rightarrow>
         bindK (getsK (\<lambda>s. procs s ! cur)) (\<lambda>c.
         bindK (copyuvm (pgdir c) (sz c)) (\<lambda>d.
         thenK (modifyK (upd_proc np (\<lambda>q. q\<lparr>pgdir := d\<rparr>)))
         (if d = 0 then
            bindK (getsK (\<lambda>s. kstack (procs s ! np))) (\<lambda>ks.
            thenK (kfree ks)
            (thenK (modifyK (upd_proc np (\<lambda>q. q\<lparr>kstack := 0, pstate := UNUSED\<rparr>))) (retK (- 1))))
          else
            thenK (modifyK (\<lambda>s. upd_proc np (\<lambda>q. q\<lparr>sz := sz (procs s ! cur), parent := Some cur\<rparr>) s))
            (thenK (modifyK (copy_tf cur np))
            (thenK (modifyK (\<lambda>s. tf_set (tf (procs s ! np)) TF_EAX 0 s))
            (thenK (modifyK (upd_proc np (\<lambda>q. q\<lparr>tickets := DEFAULT_TICKETS\<rparr>)))
            (thenK (forK [0..<NOFILE] (dup_file cur np))
            (thenK (dup_cwd cur np)
            (thenK (modifyK (copy_name cur np))
            (bindK (getsK (\<lambda>s. pid (procs s ! np))) (\<lambda>n.
             thenK (acquire PtableLock)
             (thenK (modifyK (upd_proc np (\<lambda>q. q\<lparr>pstate := RUNNABLE\<rparr>)))
             (thenK (release PtableLock) (retK n))))))))))))))))"

section \<open>Exit\<close>

definition close_fd :: "nat \<Rightarrow> nat \<Rightarrow> (unit, 'z fmachine_scheme) kern" where
  "close_fd cur fd =
     bindK (getsK (\<lambda>s. ofile (procs s ! cur) ! fd)) (\<lambda>f.
     case f of
       None \<Rightarrow> retK ()
     | Some x \<Rightarrow> thenK (fileclose x) (modifyK (upd_proc cur (\<lambda>q. q\<lparr>ofile := (ofile q)[fd := None]\<rparr>))))"

text \<open>One turn of the loop that hands the children of \<open>cur\<close> to the first process.\<close>

definition reparent :: "nat \<Rightarrow> nat \<Rightarrow> 'z pmachine_scheme \<Rightarrow> 'z pmachine_scheme" where
  "reparent cur i s =
     (if parent (procs s ! i) = Some cur then
        (let s1 = upd_proc i (\<lambda>p. p\<lparr>parent := initproc s\<rparr>) s
         in if pstate (procs s1 ! i) = ZOMBIE then wakeup1 (map_option ChanProc (initproc s1)) s1 else s1)
      else s)"

definition exit :: "('a, 'z fmachine_scheme) kern" where
  "exit =
     bindK cur_proc (\<lambda>cur.
     bindK (getsK initproc) (\<lambda>ini.
     if ini = Some cur then panicK ''init exiting''
     else
       thenK (forK [0..<NOFILE] (close_fd cur))
       (thenK begin_op
       (thenK (bindK (getsK (\<lambda>s. cwd (procs s ! cur))) (\<lambda>d. derefK d iput))
       (thenK end_op
       (thenK (modifyK (upd_proc cur (\<lambda>q. q\<lparr>cwd := None\<rparr>)))
       (thenK (acquire PtableLock)
       (thenK (modifyK (\<lambda>s. wakeup1 (map_option ChanProc (parent (procs s ! cur))) s))
       (thenK (forK [0..<NPROC] (\<lambda>i. modifyK (reparent cur i)))
       (thenK (modifyK (upd_proc cur (\<lambda>q. q\<lparr>pstate := ZOMBIE\<rparr>)))
       (thenK sched (panicK ''zombie exit''))))))))))))"

definition clone :: "uint32 \<Rightarrow> uint32 \<Rightarrow> uint32 \<Rightarrow> (int, 'z fmachine_scheme) kern" where
  "clone fn arg stack =
     bindK cur_proc (\<lambda>cur.
     bindK (getsK (\<lambda>s. sz (procs s ! cur))) (\<lambda>csz.
     if stack + PGSIZE > csz \<or> stack mod PGSIZE \<noteq> 0 then exit
     else bindK allocproc (\<lambda>r.
       case r of
         None \<Rightarrow> retK (- 1)
       | Some np \<Rightarrow>
           bindK (getsK (\<lambda>s. pid (procs s ! np))) (\<lambda>n.
           thenK (modifyK (\<lambda>s. upd_proc np (\<lambda>q. q\<lparr>pgdir := pgdir (procs s ! cur), sz := sz (procs s ! cur),
               parent := Some cur\<rparr>) s))
           (thenK (modifyK (copy_tf cur np))
           (thenK (modifyK (\<lambda>s. tf_set (tf (procs s ! np)) TF_EAX 0 s))
           (thenK (modifyK (upd_proc np (\<lambda>q. q\<lparr>ustack := stack\<rparr>)))
           (let bottom = stack + PGSIZE in
            thenK (kstore32 (bottom - 4) arg)
            (thenK (kstore32 (bottom - 8) 0xffffffff)
            (thenK (modifyK (\<lambda>s. tf_set (tf (procs s ! np)) TF_EIP fn
                (tf_set (tf (procs s ! np)) TF_ESP (bottom - 8) s)))
            (thenK (forK [0..<NOFILE] (dup_file cur np))
            (thenK (dup_cwd cur np)
            (thenK (modifyK (copy_name cur np))
            (thenK (acquire PtableLock)
            (thenK (modifyK (\<lambda>s. upd_proc np (\<lambda>q. q\<lparr>
                tickets := (case parent q of None \<Rightarrow> 0 | Some par \<Rightarrow> tickets (procs s ! par)), pstate := RUNNABLE\<rparr>) s))
            (thenK (release PtableLock)
            (thenK (modifyK (\<lambda>s. upd_proc np (\<lambda>q. q\<lparr>refs := refs (procs s ! cur)\<rparr>) s))
            (bindK (getsK (\<lambda>s. refs (procs s ! np))) (\<lambda>rp.
             bindK (kload32 rp) (\<lambda>v.
             thenK (kstore32 rp (v + 1))
             (thenK (modifyK (copy_name cur np)) (retK n)))))))))))))))))))))) "

definition forkret :: "(unit, 'z xmachine_scheme) kern" where
  "forkret =
     thenK (release PtableLock)
     (condK (\<lambda>s. forkret_first s \<noteq> 0)
       (thenK (modifyK (\<lambda>s. s\<lparr>forkret_first := 0\<rparr>))
       (thenK (iinit ROOTDEV) (initlog ROOTDEV))))"

section \<open>Listing\<close>

fun state_name :: "procstate \<Rightarrow> string" where
  "state_name UNUSED = ''unused''"
| "state_name EMBRYO = ''embryo''"
| "state_name SLEEPING = ''sleep ''"
| "state_name RUNNABLE = ''runble''"
| "state_name RUNNING = ''run   ''"
| "state_name ZOMBIE = ''zombie''"

definition procdump_one :: "proc \<Rightarrow> (unit, 'z pmachine_scheme) kern" where
  "procdump_one p =
     whenK (pstate p \<noteq> UNUSED)
       (thenK (cprint ''%d %s %s'' [PInt (pid p), PStr (chars (state_name (pstate p))), PStr (pname p)])
       (thenK (whenK (pstate p = SLEEPING)
          (bindK (getsK (\<lambda>s. getcallerpcs (mem s) (load32 (mem s) (ctx p + 12) + 8))) (\<lambda>pc.
           forK (takeWhile (\<lambda>x. x \<noteq> 0) pc) (\<lambda>x. cprint '' %p'' [PPtr x]))))
         (cprint ''\<newline>'' [])))"

definition procdump :: "(unit, 'z pmachine_scheme) kern" where
  "procdump = bindK (getsK procs) (\<lambda>ps. forK ps procdump_one)"

definition hello_world :: "(int, 'z vmachine_scheme) kern" where
  "hello_world = thenK (cprint ''hello world\<newline>'' []) (retK 1)"

end
