(* ===== verification/Exec.thy ===== *)
theory Exec
  imports Proc_Life
begin

text \<open>
  Access to the memory of the running process, and \<^verbatim>\<open>exec\<close> of \<^verbatim>\<open>exec.c\<close>. Argument strings are given
  by their characters; \<open>copyout_list\<close> is \<^verbatim>\<open>copyout\<close> of \<^verbatim>\<open>vm.c\<close> with the source block given as a list.
\<close>

section \<open>User memory\<close>

definition kload8 :: "uint32 \<Rightarrow> (uchar, 'z vmachine_scheme) kern" where
  "kload8 a s = (case kaddr s a of None \<Rightarrow> Fault | Some b \<Rightarrow> Ret (mem s b) s)"

definition kstore8 :: "uint32 \<Rightarrow> uchar \<Rightarrow> (unit, 'z vmachine_scheme) kern" where
  "kstore8 a v s = (case kaddr s a of None \<Rightarrow> Fault | Some b \<Rightarrow> Ret () (s\<lparr>mem := (mem s)(b := v)\<rparr>))"

fun kload_bytes :: "uint32 \<Rightarrow> nat \<Rightarrow> (uchar list, 'z vmachine_scheme) kern" where
  "kload_bytes a 0 = retK []"
| "kload_bytes a (Suc n) = bindK (kload8 a) (\<lambda>x. bindK (kload_bytes (a + 1) n) (\<lambda>xs. retK (x # xs)))"

fun kstore_bytes :: "uint32 \<Rightarrow> uchar list \<Rightarrow> (unit, 'z vmachine_scheme) kern" where
  "kstore_bytes a [] = retK ()"
| "kstore_bytes a (x # xs) = thenK (kstore8 a x) (kstore_bytes (a + 1) xs)"

fun store_bytes :: "memory \<Rightarrow> uint32 \<Rightarrow> uchar list \<Rightarrow> memory" where
  "store_bytes m a [] = m"
| "store_bytes m a (x # xs) = store_bytes (m(a := x)) (a + 1) xs"

lemma page_rest_pos: "0 < unat (PGSIZE - (va - PGROUNDDOWN va))"
proof -
  have "unat va = unat (PGROUNDDOWN va) + unat va mod 4096" by (simp add: unat_PGROUNDDOWN)
  moreover have "PGROUNDDOWN va \<le> va" by (simp add: PGROUNDDOWN_le)
  ultimately have "unat (va - PGROUNDDOWN va) < 4096" by (simp add: unat_sub)
  then have "PGSIZE - (va - PGROUNDDOWN va) \<noteq> 0" by (auto simp: word_less_nat_alt)
  then show ?thesis by (simp add: unat_gt_0)
qed

function copyout_list :: "uint32 \<Rightarrow> uint32 \<Rightarrow> uchar list \<Rightarrow> (int, 'z vmachine_scheme) kern" where
  "copyout_list pd va bs =
     (if bs = [] then retK 0
      else
        bindK (uva2ka pd (PGROUNDDOWN va)) (\<lambda>pa0.
        if pa0 = 0 then retK (- 1)
        else
          thenK (modifyK (\<lambda>s. s\<lparr>mem := store_bytes (mem s) (pa0 + (va - PGROUNDDOWN va))
              (take (unat (PGSIZE - (va - PGROUNDDOWN va))) bs)\<rparr>))
            (copyout_list pd (PGROUNDDOWN va + PGSIZE) (drop (unat (PGSIZE - (va - PGROUNDDOWN va))) bs))))"
  by pat_completeness auto
termination
  by (relation "measure (\<lambda>(pd, va, bs). length bs)") (auto simp: page_rest_pos)

declare copyout_list.simps [simp del]

section \<open>Program images\<close>

abbreviation (input) MAXARG :: nat where "MAXARG \<equiv> 32"
abbreviation (input) ELF_MAGIC :: uint32 where "ELF_MAGIC \<equiv> 0x464C457F"
abbreviation (input) ELF_PROG_LOAD :: uint32 where "ELF_PROG_LOAD \<equiv> 1"

record elfhdr =
  e_magic :: uint32
  e_entry :: uint32
  e_phoff :: uint32
  e_phnum :: ushort

record proghdr =
  ph_type :: uint32
  ph_off :: uint32
  ph_vaddr :: uint32
  ph_filesz :: uint32
  ph_memsz :: uint32

definition dec_elf :: "uchar list \<Rightarrow> elfhdr" where
  "dec_elf d = \<lparr>e_magic = get32 d 0, e_entry = get32 d 24, e_phoff = get32 d 28, e_phnum = get16 d 44\<rparr>"

definition dec_ph :: "uchar list \<Rightarrow> proghdr" where
  "dec_ph d = \<lparr>ph_type = get32 d 0, ph_off = get32 d 4, ph_vaddr = get32 d 8, ph_filesz = get32 d 16,
     ph_memsz = get32 d 20\<rparr>"

definition file_reader :: "'z imachine_scheme dev_read \<Rightarrow> nat \<Rightarrow> uint32 \<Rightarrow> uint32 \<Rightarrow> uint32 \<Rightarrow> (int, 'z imachine_scheme) kern" where
  "file_reader dr ip dst off n =
     bindK (readi dr ip off n) (\<lambda>(r, d). thenK (kstore_bytes dst d) (retK r))"

text \<open>The loop over the program headers: the new size, or \<open>None\<close> for \<^verbatim>\<open>goto bad\<close>.\<close>

fun exec_load :: "'z imachine_scheme dev_read \<Rightarrow> nat \<Rightarrow> uint32 \<Rightarrow> nat \<Rightarrow> uint32 \<Rightarrow> uint32 \<Rightarrow>
    (uint32 option, 'z imachine_scheme) kern" where
  "exec_load dr ip d 0 off z = retK (Some z)"
| "exec_load dr ip d (Suc k) off z =
     bindK (readi dr ip off 32) (\<lambda>(r, bs).
     let ph = dec_ph bs in
     if r \<noteq> 32 then retK None
     else if ph_type ph \<noteq> ELF_PROG_LOAD then exec_load dr ip d k (off + 32) z
     else if ph_memsz ph < ph_filesz ph then retK None
     else if ph_vaddr ph + ph_memsz ph < ph_vaddr ph then retK None
     else bindK (allocuvm d z (ph_vaddr ph + ph_memsz ph)) (\<lambda>z.
       if z = 0 then retK None
       else if ph_vaddr ph mod PGSIZE \<noteq> 0 then retK None
       else bindK (loaduvm (file_reader dr ip) d (ph_vaddr ph) (ph_off ph) (ph_filesz ph)) (\<lambda>l.
         if l < 0 then retK None else exec_load dr ip d k (off + 32) z)))"

text \<open>
  Pushing the argument strings: the stack pointer and the addresses of the strings in order, or
  \<open>None\<close> for \<^verbatim>\<open>goto bad\<close>.
\<close>

definition push_sp :: "uint32 \<Rightarrow> uchar list \<Rightarrow> uint32" where
  "push_sp sp a = (sp - of_nat (length a + 1)) AND NOT 3"

fun exec_push :: "uint32 \<Rightarrow> nat \<Rightarrow> uint32 \<Rightarrow> uchar list list \<Rightarrow> ((uint32 \<times> uint32 list) option, 'z vmachine_scheme) kern" where
  "exec_push d argc sp [] = retK (Some (sp, []))"
| "exec_push d argc sp (a # as) =
     (if argc \<ge> MAXARG then retK None
      else
        bindK (copyout_list d (push_sp sp a) (a @ [0])) (\<lambda>r.
        if r < 0 then retK None
        else bindK (exec_push d (argc + 1) (push_sp sp a) as) (\<lambda>x.
          retK (map_option (\<lambda>(sp', ps). (sp', push_sp sp a # ps)) x))))"

definition word_bytes :: "uint32 \<Rightarrow> uchar list" where
  "word_bytes v = [ucast v, ucast (drop_bit 8 v), ucast (drop_bit 16 v), ucast (drop_bit 24 v)]"

text \<open>The words below the strings: return address, argc, argv, the argv array and its final 0.\<close>

definition exec_ustack :: "uint32 \<Rightarrow> uint32 list \<Rightarrow> uint32 list" where
  "exec_ustack sp ps = [0xffffffff, of_nat (length ps), sp - of_nat (length ps + 1) * 4] @ ps @ [0]"

definition base_name :: "uchar list \<Rightarrow> uchar list" where
  "base_name path = rev (takeWhile (\<lambda>c. c \<noteq> 47) (rev path))"

definition exec_bad :: "uint32 \<Rightarrow> nat option \<Rightarrow> (int, 'z fmachine_scheme) kern" where
  "exec_bad d ip =
     thenK (whenK (d \<noteq> 0) (freevm d))
     (thenK (case ip of None \<Rightarrow> retK () | Some i \<Rightarrow> thenK (iunlockput i) end_op)
       (retK (- 1)))"

definition exec_commit :: "nat \<Rightarrow> uint32 \<Rightarrow> uint32 \<Rightarrow> uint32 \<Rightarrow> uint32 \<Rightarrow> uchar list \<Rightarrow> (int, 'z fmachine_scheme) kern" where
  "exec_commit cur d sz' entry sp path =
     thenK (modifyK (upd_proc cur (\<lambda>q. q\<lparr>pname := list_safestrcpy (pname q) (base_name path) 16\<rparr>)))
     (bindK (getsK (\<lambda>s. pgdir (procs s ! cur))) (\<lambda>oldpgdir.
      thenK (modifyK (upd_proc cur (\<lambda>q. q\<lparr>pgdir := d, sz := sz'\<rparr>)))
      (thenK (modifyK (\<lambda>s. tf_set (tf (procs s ! cur)) TF_ESP sp (tf_set (tf (procs s ! cur)) TF_EIP entry s)))
      (thenK (switchuvm (Some cur))
      (thenK (freevm oldpgdir) (retK 0))))))"

text \<open>The second half of \<^verbatim>\<open>exec\<close>, after the file has been loaded and released.\<close>

definition exec_stack :: "nat \<Rightarrow> uint32 \<Rightarrow> uint32 \<Rightarrow> uint32 \<Rightarrow> uchar list \<Rightarrow> uchar list list \<Rightarrow> (int, 'z fmachine_scheme) kern" where
  "exec_stack cur d sz0 entry path argv =
     (let sz1 = PGROUNDUP sz0 in
      bindK (allocuvm d sz1 (sz1 + 2 * PGSIZE)) (\<lambda>sz'.
      if sz' = 0 then exec_bad d None
      else
        thenK (clearpteu d (sz' - 2 * PGSIZE))
        (bindK (exec_push d 0 sz' argv) (\<lambda>x.
         case x of
           None \<Rightarrow> exec_bad d None
         | Some (sp, ps) \<Rightarrow>
             (let sp' = sp - of_nat (3 + length ps + 1) * 4 in
              bindK (copyout_list d sp' (concat (map word_bytes (exec_ustack sp ps)))) (\<lambda>r.
              if r < 0 then exec_bad d None
              else exec_commit cur d sz' entry sp' path))))))"

definition exec :: "'z fmachine_scheme dev_read \<Rightarrow> uchar list \<Rightarrow> uchar list list \<Rightarrow> (int, 'z fmachine_scheme) kern" where
  "exec dr path argv =
     bindK cur_proc (\<lambda>cur.
     thenK begin_op
     (bindK (namei dr path) (\<lambda>r.
      case r of
        None \<Rightarrow> thenK end_op (thenK (cprint ''exec: fail\<newline>'' []) (retK (- 1)))
      | Some ip \<Rightarrow>
          thenK (ilock (Some ip))
          (bindK (readi dr ip 0 52) (\<lambda>(n, bs).
           let elf = dec_elf bs in
           if n \<noteq> 52 then exec_bad 0 (Some ip)
           else if e_magic elf \<noteq> ELF_MAGIC then exec_bad 0 (Some ip)
           else bindK setupkvm (\<lambda>d.
             if d = 0 then exec_bad 0 (Some ip)
             else bindK (exec_load dr ip d (unat (e_phnum elf)) (e_phoff elf) 0) (\<lambda>l.
               case l of
                 None \<Rightarrow> exec_bad d (Some ip)
               | Some sz0 \<Rightarrow>
                   thenK (iunlockput ip)
                   (thenK end_op
                     (exec_stack cur d sz0 (e_entry elf) path argv)))))))))"

end
