(* ===== verification/Syscall.thy ===== *)
theory Syscall
  imports Exec
begin

text \<open>
  Fetching system call arguments (\<^verbatim>\<open>syscall.c\<close>) and the system calls of \<^verbatim>\<open>sysproc.c\<close> and
  \<^verbatim>\<open>sysfile.c\<close>. A fetch gives \<open>None\<close> where the code returns -1; a string is given by its characters.
\<close>

section \<open>Arguments\<close>

definition fetchint :: "uint32 \<Rightarrow> (int option, 'z pmachine_scheme) kern" where
  "fetchint addr =
     bindK cur_proc (\<lambda>cur.
     bindK (getsK (\<lambda>s. sz (procs s ! cur))) (\<lambda>z.
     if addr \<ge> z \<or> addr + 4 > z then retK None
     else bindK (kload32 addr) (\<lambda>v. retK (Some (sint v)))))"

text \<open>The loop of \<^verbatim>\<open>fetchstr\<close> over the bytes up to the end of the address space.\<close>

fun fetchstr_loop :: "nat \<Rightarrow> uint32 \<Rightarrow> (uchar list option, 'z vmachine_scheme) kern" where
  "fetchstr_loop 0 a = retK None"
| "fetchstr_loop (Suc n) a =
     bindK (kload8 a) (\<lambda>c.
     if c = 0 then retK (Some [])
     else bindK (fetchstr_loop n (a + 1)) (\<lambda>r. retK (map_option (\<lambda>cs. c # cs) r)))"

definition fetchstr :: "uint32 \<Rightarrow> (uchar list option, 'z pmachine_scheme) kern" where
  "fetchstr addr =
     bindK cur_proc (\<lambda>cur.
     bindK (getsK (\<lambda>s. sz (procs s ! cur))) (\<lambda>z.
     if addr \<ge> z then retK None else fetchstr_loop (unat (z - addr)) addr))"

definition argint :: "nat \<Rightarrow> (int option, 'z pmachine_scheme) kern" where
  "argint n =
     bindK cur_proc (\<lambda>cur.
     bindK (getsK (\<lambda>s. tf_get (tf (procs s ! cur)) TF_ESP s)) (\<lambda>esp.
     fetchint (esp + 4 + 4 * of_nat n)))"

definition argptr :: "nat \<Rightarrow> int \<Rightarrow> (uint32 option, 'z pmachine_scheme) kern" where
  "argptr n len =
     bindK cur_proc (\<lambda>cur.
     bindK (argint n) (\<lambda>r.
     case r of
       None \<Rightarrow> retK None
     | Some i \<Rightarrow>
         bindK (getsK (\<lambda>s. sz (procs s ! cur))) (\<lambda>z.
         if len < 0 \<or> (of_int i :: uint32) \<ge> z \<or> of_int i + of_int len > z then retK None
         else retK (Some (of_int i)))))"

definition argstr :: "nat \<Rightarrow> (uchar list option, 'z pmachine_scheme) kern" where
  "argstr n =
     bindK (argint n) (\<lambda>r.
     case r of None \<Rightarrow> retK None | Some a \<Rightarrow> fetchstr (of_int a))"

text \<open>Continue with the argument, or return -1 from the system call.\<close>

definition need :: "('a option, 's) kern \<Rightarrow> ('a \<Rightarrow> (int, 's) kern) \<Rightarrow> (int, 's) kern" where
  "need f g = bindK f (\<lambda>r. case r of None \<Rightarrow> retK (- 1) | Some x \<Rightarrow> g x)"

section \<open>Process system calls\<close>

definition sys_fork :: "(int, 'z fmachine_scheme) kern" where
  "sys_fork = fork"

definition sys_exit :: "(int, 'z fmachine_scheme) kern" where
  "sys_exit = exit"

definition sys_wait :: "(int, 'z fmachine_scheme) kern" where
  "sys_wait = wait"

definition sys_kill :: "(int, 'z fmachine_scheme) kern" where
  "sys_kill = need (argint 0) kill"

definition sys_getpid :: "(int, 'z fmachine_scheme) kern" where
  "sys_getpid = bindK cur_proc (\<lambda>cur. getsK (\<lambda>s. pid (procs s ! cur)))"

definition sys_sbrk :: "(int, 'z fmachine_scheme) kern" where
  "sys_sbrk =
     need (argint 0) (\<lambda>n.
     bindK cur_proc (\<lambda>cur.
     bindK (getsK (\<lambda>s. sz (procs s ! cur))) (\<lambda>addr.
     bindK (growproc n) (\<lambda>r. if r < 0 then retK (- 1) else retK (sint addr)))))"

definition sys_sleep_loop :: "uint32 \<Rightarrow> int \<Rightarrow> (int, 'z xmachine_scheme) kern" where
  "sys_sleep_loop ticks0 n =
     bindK (getsK ticks) (\<lambda>t.
     if t - ticks0 < of_int n then
       bindK cur_proc (\<lambda>cur.
       bindK (getsK (\<lambda>s. killed (procs s ! cur))) (\<lambda>k.
       if k \<noteq> 0 then thenK (release TicksLock) (retK (- 1))
       else thenK (sleep ChanTicks (Some TicksLock)) (retK 0)))
     else thenK (release TicksLock) (retK 0))"

definition sys_sleep :: "(int, 'z xmachine_scheme) kern" where
  "sys_sleep =
     need (argint 0) (\<lambda>n.
     thenK (acquire TicksLock)
     (bindK (getsK ticks) (\<lambda>t. sys_sleep_loop t n)))"

definition sys_sleep_resume :: "nat \<Rightarrow> uint32 \<Rightarrow> int \<Rightarrow> (int, 'z xmachine_scheme) kern" where
  "sys_sleep_resume cur ticks0 n = thenK (sleep_resume cur TicksLock) (sys_sleep_loop ticks0 n)"

definition sys_uptime :: "(int, 'z xmachine_scheme) kern" where
  "sys_uptime =
     thenK (acquire TicksLock)
     (bindK (getsK ticks) (\<lambda>t. thenK (release TicksLock) (retK (sint t))))"

definition sys_hello_world :: "(int, 'z fmachine_scheme) kern" where
  "sys_hello_world = hello_world"

definition sys_clone :: "(int, 'z fmachine_scheme) kern" where
  "sys_clone =
     need (argint 1) (\<lambda>arg.
     need (argint 2) (\<lambda>stack.
     need (argptr 0 4) (\<lambda>fn.
     bindK cur_proc (\<lambda>cur.
     bindK (getsK (\<lambda>s. sz (procs s ! cur))) (\<lambda>z.
     let st = of_int stack :: uint32
     in if st mod PGSIZE \<noteq> 0 \<or> z - st = PGSIZE div 2 then retK (- 1)
        else clone fn (of_int arg) st)))))"

definition sys_join :: "(int, 'z fmachine_scheme) kern" where
  "sys_join = need (argptr 0 4) join"

definition sys_change_tickets :: "(int, 'z fmachine_scheme) kern" where
  "sys_change_tickets = need (argint 0) (\<lambda>n. need (argint 1) (\<lambda>t. change_tickets n t))"

definition sys_mutex_init :: "(int, 'z fmachine_scheme) kern" where
  "sys_mutex_init = mutex_init"

definition sys_mutex_lock :: "(int, 'z fmachine_scheme) kern" where
  "sys_mutex_lock = need (argint 0) mutex_lock"

definition sys_mutex_unlock :: "(int, 'z fmachine_scheme) kern" where
  "sys_mutex_unlock = need (argint 0) mutex_unlock"

definition sys_barrier_init :: "(int, 'z fmachine_scheme) kern" where
  "sys_barrier_init = need (argint 0) barrier_init"

definition sys_barrier_lock :: "(int, 'z fmachine_scheme) kern" where
  "sys_barrier_lock = barrier_lock"

section \<open>File system calls\<close>

definition argfd :: "nat \<Rightarrow> ((nat \<times> nat) option, 'z pmachine_scheme) kern" where
  "argfd n =
     bindK (argint n) (\<lambda>r.
     case r of
       None \<Rightarrow> retK None
     | Some fd \<Rightarrow>
         if fd < 0 \<or> fd \<ge> int NOFILE then retK None
         else bindK cur_proc (\<lambda>cur.
           bindK (getsK (\<lambda>s. ofile (procs s ! cur) ! nat fd)) (\<lambda>f.
           retK (map_option (\<lambda>x. (nat fd, x)) f))))"

definition fdalloc :: "nat \<Rightarrow> (nat option, 'z pmachine_scheme) kern" where
  "fdalloc f =
     bindK cur_proc (\<lambda>cur.
     bindK (getsK (\<lambda>s. first_index (\<lambda>x. x = None) (ofile (procs s ! cur)))) (\<lambda>r.
     case r of
       None \<Rightarrow> retK None
     | Some fd \<Rightarrow>
         thenK (modifyK (upd_proc cur (\<lambda>q. q\<lparr>ofile := (ofile q)[fd := Some f]\<rparr>))) (retK (Some fd))))"

definition clear_fd :: "nat \<Rightarrow> (unit, 'z pmachine_scheme) kern" where
  "clear_fd fd =
     bindK cur_proc (\<lambda>cur. modifyK (upd_proc cur (\<lambda>q. q\<lparr>ofile := (ofile q)[fd := None]\<rparr>)))"

definition sys_dup :: "(int, 'z fmachine_scheme) kern" where
  "sys_dup =
     need (argfd 0) (\<lambda>(fd0, f).
     need (fdalloc f) (\<lambda>fd.
     thenK (filedup f) (retK (int fd))))"

definition sys_read :: "'z fmachine_scheme dev_read \<Rightarrow> (int, 'z fmachine_scheme) kern" where
  "sys_read dr =
     need (argfd 0) (\<lambda>(fd, f).
     need (argint 2) (\<lambda>n.
     need (argptr 1 n) (\<lambda>p.
     bindK (fileread dr f n) (\<lambda>(r, d).
     thenK (kstore_bytes p d) (retK r)))))"

definition sys_write :: "'z fmachine_scheme dev_write \<Rightarrow> (int, 'z fmachine_scheme) kern" where
  "sys_write dw =
     need (argfd 0) (\<lambda>(fd, f).
     need (argint 2) (\<lambda>n.
     need (argptr 1 n) (\<lambda>p.
     bindK (kload_bytes p (nat n)) (\<lambda>d. filewrite dw f d n))))"

definition sys_close :: "(int, 'z fmachine_scheme) kern" where
  "sys_close =
     need (argfd 0) (\<lambda>(fd, f).
     thenK (clear_fd fd) (thenK (fileclose f) (retK 0)))"

text \<open>A \<^verbatim>\<open>struct stat\<close> has 20 bytes; the padding after the two shorts is not written.\<close>

definition store_stat :: "uint32 \<Rightarrow> stat \<Rightarrow> (unit, 'z vmachine_scheme) kern" where
  "store_stat a st =
     thenK (kstore32 (a + 4) (st_dev st))
     (thenK (kstore32 (a + 8) (st_ino st))
     (thenK (kstore_bytes a [ucast (st_type st), ucast (drop_bit 8 (st_type st))])
     (thenK (kstore_bytes (a + 12) [ucast (st_nlink st), ucast (drop_bit 8 (st_nlink st))])
       (kstore32 (a + 16) (st_size st)))))"

definition sys_fstat :: "(int, 'z fmachine_scheme) kern" where
  "sys_fstat =
     need (argfd 0) (\<lambda>(fd, f).
     need (argptr 1 20) (\<lambda>p.
     need (filestat f) (\<lambda>st. thenK (store_stat p st) (retK 0))))"

definition upd_nlink :: "nat \<Rightarrow> ushort \<Rightarrow> (unit, 'z imachine_scheme) kern" where
  "upd_nlink ip d =
     thenK (modifyK (upd_inode ip (\<lambda>n. n\<lparr>inlink := inlink n + d\<rparr>))) (iupdate ip)"

definition link_bad :: "nat \<Rightarrow> (int, 'z imachine_scheme) kern" where
  "link_bad ip =
     thenK (ilock (Some ip))
     (thenK (upd_nlink ip (- 1))
     (thenK (iunlockput ip)
     (thenK end_op (retK (- 1)))))"

definition sys_link :: "'z fmachine_scheme dev_read \<Rightarrow> 'z fmachine_scheme dev_write \<Rightarrow> (int, 'z fmachine_scheme) kern" where
  "sys_link dr dw =
     need (argstr 0) (\<lambda>old.
     need (argstr 1) (\<lambda>nw.
     thenK begin_op
     (bindK (namei dr old) (\<lambda>r.
      case r of
        None \<Rightarrow> thenK end_op (retK (- 1))
      | Some ip \<Rightarrow>
          thenK (ilock (Some ip))
          (bindK (getsK (\<lambda>s. itype (inodes s ! ip))) (\<lambda>t.
           if t = T_DIR then thenK (iunlockput ip) (thenK end_op (retK (- 1)))
           else
             thenK (upd_nlink ip 1)
             (thenK (iunlock (Some ip))
             (bindK (nameiparent dr nw (replicate DIRSIZ 0)) (\<lambda>q.
              case q of
                None \<Rightarrow> link_bad ip
              | Some (dp, nm) \<Rightarrow>
                  thenK (ilock (Some dp))
                  (bindK (getsK (\<lambda>s. (idev (inodes s ! dp) \<noteq> idev (inodes s ! ip), inum (inodes s ! ip)))) (\<lambda>(other, ino).
                   if other then thenK (iunlockput dp) (link_bad ip)
                   else bindK (dirlink dr dw dp nm ino) (\<lambda>l.
                     if l < 0 then thenK (iunlockput dp) (link_bad ip)
                     else
                       thenK (iunlockput dp)
                       (thenK (iput ip) (thenK end_op (retK 0)))))))))))))))"

fun isdirempty_loop :: "'z imachine_scheme dev_read \<Rightarrow> nat \<Rightarrow> uint32 list \<Rightarrow> (bool, 'z imachine_scheme) kern" where
  "isdirempty_loop dr dp [] = retK True"
| "isdirempty_loop dr dp (off # offs) =
     bindK (readi dr dp off 16) (\<lambda>(r, de).
     if r \<noteq> 16 then panicK ''isdirempty: readi''
     else if de_inum de \<noteq> 0 then retK False
     else isdirempty_loop dr dp offs)"

definition isdirempty :: "'z imachine_scheme dev_read \<Rightarrow> nat \<Rightarrow> (bool, 'z imachine_scheme) kern" where
  "isdirempty dr dp = bindK (getsK (\<lambda>s. drop 2 (dir_offs dp s))) (isdirempty_loop dr dp)"

definition unlink_bad :: "nat \<Rightarrow> (int, 'z imachine_scheme) kern" where
  "unlink_bad dp = thenK (iunlockput dp) (thenK end_op (retK (- 1)))"

definition unlink_entry :: "'z imachine_scheme dev_write \<Rightarrow> nat \<Rightarrow> nat \<Rightarrow> uint32 \<Rightarrow> (int, 'z imachine_scheme) kern" where
  "unlink_entry dw dp ip off =
     bindK (writei dw dp (replicate 16 0) off 16) (\<lambda>r.
     if r \<noteq> 16 then panicK ''unlink: writei''
     else
       bindK (getsK (\<lambda>s. itype (inodes s ! ip))) (\<lambda>t.
       thenK (whenK (t = T_DIR) (upd_nlink dp (- 1)))
       (thenK (iunlockput dp)
       (thenK (upd_nlink ip (- 1))
       (thenK (iunlockput ip)
       (thenK end_op (retK 0)))))))"

definition sys_unlink :: "'z fmachine_scheme dev_read \<Rightarrow> 'z fmachine_scheme dev_write \<Rightarrow> (int, 'z fmachine_scheme) kern" where
  "sys_unlink dr dw =
     need (argstr 0) (\<lambda>path.
     thenK begin_op
     (bindK (nameiparent dr path (replicate DIRSIZ 0)) (\<lambda>q.
      case q of
        None \<Rightarrow> thenK end_op (retK (- 1))
      | Some (dp, nm) \<Rightarrow>
          thenK (ilock (Some dp))
          (if namecmp nm (chars ''.'') = 0 \<or> namecmp nm (chars ''..'') = 0 then unlink_bad dp
           else bindK (dirlookup dr dp nm) (\<lambda>f.
             case f of
               None \<Rightarrow> unlink_bad dp
             | Some (ip, off) \<Rightarrow>
                 thenK (ilock (Some ip))
                 (bindK (getsK (\<lambda>s. inodes s ! ip)) (\<lambda>n.
                  if sint (inlink n) < 1 then panicK ''unlink: nlink < 1''
                  else bindK (if itype n = T_DIR then isdirempty dr ip else retK True) (\<lambda>ok.
                    if \<not> ok then thenK (iunlockput ip) (unlink_bad dp)
                    else unlink_entry dw dp ip off))))))))"

definition create :: "'z imachine_scheme dev_read \<Rightarrow> 'z imachine_scheme dev_write \<Rightarrow> uchar list \<Rightarrow> ushort \<Rightarrow> ushort \<Rightarrow>
    ushort \<Rightarrow> (nat option, 'z imachine_scheme) kern" where
  "create dr dw path ty major minor =
     bindK (nameiparent dr path (replicate DIRSIZ 0)) (\<lambda>q.
     case q of
       None \<Rightarrow> retK None
     | Some (dp, nm) \<Rightarrow>
         thenK (ilock (Some dp))
         (bindK (dirlookup dr dp nm) (\<lambda>f.
          case f of
            Some (ip, off) \<Rightarrow>
              thenK (iunlockput dp)
              (thenK (ilock (Some ip))
              (bindK (getsK (\<lambda>s. itype (inodes s ! ip))) (\<lambda>t.
               if ty = T_FILE \<and> t = T_FILE then retK (Some ip)
               else thenK (iunlockput ip) (retK None))))
          | None \<Rightarrow>
              bindK (getsK (\<lambda>s. idev (inodes s ! dp))) (\<lambda>dev.
              bindK (ialloc dev ty) (\<lambda>ip.
              thenK (ilock (Some ip))
              (thenK (modifyK (upd_inode ip (\<lambda>n. n\<lparr>imajor := major, iminor := minor, inlink := 1\<rparr>)))
              (thenK (iupdate ip)
              (bindK (getsK (\<lambda>s. (inum (inodes s ! ip), inum (inodes s ! dp)))) (\<lambda>(ino, dino).
               thenK
                 (whenK (ty = T_DIR)
                   (thenK (upd_nlink dp 1)
                   (bindK (dirlink dr dw ip (chars ''.'') ino) (\<lambda>r.
                    if r < 0 then panicK ''create dots''
                    else bindK (dirlink dr dw ip (chars ''..'') dino) (\<lambda>r.
                      if r < 0 then panicK ''create dots'' else retK ())))))
               (bindK (dirlink dr dw dp nm ino) (\<lambda>r.
                if r < 0 then panicK ''create: dirlink''
                else thenK (iunlockput dp) (retK (Some ip)))))))))))))"

definition flag_set :: "int \<Rightarrow> uint32 \<Rightarrow> bool" where
  "flag_set m f \<longleftrightarrow> (of_int m :: uint32) AND f \<noteq> 0"

definition open_inode :: "'z imachine_scheme dev_read \<Rightarrow> 'z imachine_scheme dev_write \<Rightarrow> uchar list \<Rightarrow> int \<Rightarrow>
    (nat option, 'z imachine_scheme) kern" where
  "open_inode dr dw path omode =
     (if flag_set omode 0x200 then create dr dw path T_FILE 0 0
      else bindK (namei dr path) (\<lambda>r.
        case r of
          None \<Rightarrow> retK None
        | Some ip \<Rightarrow>
            thenK (ilock (Some ip))
            (bindK (getsK (\<lambda>s. itype (inodes s ! ip))) (\<lambda>t.
             if t = T_DIR \<and> omode \<noteq> 0 then thenK (iunlockput ip) (retK None)
             else retK (Some ip)))))"

definition sys_open :: "'z fmachine_scheme dev_read \<Rightarrow> 'z fmachine_scheme dev_write \<Rightarrow> (int, 'z fmachine_scheme) kern" where
  "sys_open dr dw =
     need (argstr 0) (\<lambda>path.
     need (argint 1) (\<lambda>omode.
     thenK begin_op
     (bindK (open_inode dr dw path omode) (\<lambda>r.
      case r of
        None \<Rightarrow> thenK end_op (retK (- 1))
      | Some ip \<Rightarrow>
          bindK filealloc (\<lambda>x.
          case x of
            None \<Rightarrow> thenK (iunlockput ip) (thenK end_op (retK (- 1)))
          | Some f \<Rightarrow>
              bindK (fdalloc f) (\<lambda>y.
              case y of
                None \<Rightarrow> thenK (fileclose f) (thenK (iunlockput ip) (thenK end_op (retK (- 1))))
              | Some fd \<Rightarrow>
                  thenK (iunlock (Some ip))
                  (thenK end_op
                  (thenK (modifyK (upd_file f (\<lambda>x. x\<lparr>ftype := FD_INODE, fip := Some ip, foff := 0,
                      readable := \<not> flag_set omode 1, writable := flag_set omode 1 \<or> flag_set omode 2\<rparr>)))
                    (retK (int fd))))))))))"

definition sys_mkdir :: "'z fmachine_scheme dev_read \<Rightarrow> 'z fmachine_scheme dev_write \<Rightarrow> (int, 'z fmachine_scheme) kern" where
  "sys_mkdir dr dw =
     thenK begin_op
     (bindK (argstr 0) (\<lambda>p.
      bindK (case p of None \<Rightarrow> retK None | Some path \<Rightarrow> create dr dw path T_DIR 0 0) (\<lambda>r.
      case r of
        None \<Rightarrow> thenK end_op (retK (- 1))
      | Some ip \<Rightarrow> thenK (iunlockput ip) (thenK end_op (retK 0)))))"

definition sys_mknod :: "'z fmachine_scheme dev_read \<Rightarrow> 'z fmachine_scheme dev_write \<Rightarrow> (int, 'z fmachine_scheme) kern" where
  "sys_mknod dr dw =
     (let fail = thenK end_op (retK (- 1)) in
     thenK begin_op
     (bindK (argstr 0) (\<lambda>p. case p of None \<Rightarrow> fail | Some path \<Rightarrow>
      bindK (argint 1) (\<lambda>a. case a of None \<Rightarrow> fail | Some major \<Rightarrow>
      bindK (argint 2) (\<lambda>b. case b of None \<Rightarrow> fail | Some minor \<Rightarrow>
      bindK (create dr dw path T_DEV (of_int major) (of_int minor)) (\<lambda>r.
      case r of None \<Rightarrow> fail
      | Some ip \<Rightarrow> thenK (iunlockput ip) (thenK end_op (retK 0))))))))"

definition sys_chdir :: "'z fmachine_scheme dev_read \<Rightarrow> (int, 'z fmachine_scheme) kern" where
  "sys_chdir dr =
     bindK cur_proc (\<lambda>cur.
     thenK begin_op
     (bindK (argstr 0) (\<lambda>p.
      bindK (case p of None \<Rightarrow> retK None | Some path \<Rightarrow> namei dr path) (\<lambda>r.
      case r of
        None \<Rightarrow> thenK end_op (retK (- 1))
      | Some ip \<Rightarrow>
          thenK (ilock (Some ip))
          (bindK (getsK (\<lambda>s. itype (inodes s ! ip))) (\<lambda>t.
           if t \<noteq> T_DIR then thenK (iunlockput ip) (thenK end_op (retK (- 1)))
           else
             thenK (iunlock (Some ip))
             (thenK (bindK (getsK (\<lambda>s. cwd (procs s ! cur))) (\<lambda>d. derefK d iput))
             (thenK end_op
             (thenK (modifyK (upd_proc cur (\<lambda>q. q\<lparr>cwd := Some ip\<rparr>))) (retK 0))))))))))"

text \<open>The loop of \<^verbatim>\<open>sys_exec\<close> over at most \<^verbatim>\<open>MAXARG\<close> argument pointers.\<close>

fun exec_args :: "nat \<Rightarrow> uint32 \<Rightarrow> (uchar list list option, 'z pmachine_scheme) kern" where
  "exec_args 0 a = retK None"
| "exec_args (Suc k) a =
     bindK (fetchint a) (\<lambda>r.
     case r of
       None \<Rightarrow> retK None
     | Some uarg \<Rightarrow>
         if uarg = 0 then retK (Some [])
         else bindK (fetchstr (of_int uarg)) (\<lambda>q.
           case q of
             None \<Rightarrow> retK None
           | Some cs \<Rightarrow> bindK (exec_args k (a + 4)) (\<lambda>rest. retK (map_option (\<lambda>as. cs # as) rest))))"

definition sys_exec :: "'z fmachine_scheme dev_read \<Rightarrow> (int, 'z fmachine_scheme) kern" where
  "sys_exec dr =
     need (argstr 0) (\<lambda>path.
     need (argint 1) (\<lambda>uargv.
     need (exec_args MAXARG (of_int uargv)) (\<lambda>argv. exec dr path argv)))"

definition sys_pipe :: "(int, 'z fmachine_scheme) kern" where
  "sys_pipe =
     need (argptr 0 8) (\<lambda>fd.
     need pipealloc (\<lambda>(rf, wf).
     bindK (fdalloc rf) (\<lambda>r0.
     case r0 of
       None \<Rightarrow> thenK (fileclose rf) (thenK (fileclose wf) (retK (- 1)))
     | Some fd0 \<Rightarrow>
         bindK (fdalloc wf) (\<lambda>r1.
         case r1 of
           None \<Rightarrow> thenK (clear_fd fd0) (thenK (fileclose rf) (thenK (fileclose wf) (retK (- 1))))
         | Some fd1 \<Rightarrow>
             thenK (kstore32 fd (of_nat fd0))
             (thenK (kstore32 (fd + 4) (of_nat fd1)) (retK 0))))))"

section \<open>Dispatch\<close>

definition syscalls :: "'z xmachine_scheme dev_read \<Rightarrow> 'z xmachine_scheme dev_write \<Rightarrow> int \<Rightarrow>
    (int, 'z xmachine_scheme) kern option" where
  "syscalls dr dw num =
     (if num \<le> 0 \<or> num > 30 then None
      else Some ([sys_fork, sys_exit, sys_wait, sys_pipe, sys_read dr, sys_kill, sys_exec dr, sys_fstat,
        sys_chdir dr, sys_dup, sys_getpid, sys_sbrk, sys_sleep, sys_uptime, sys_open dr dw, sys_write dw,
        sys_mknod dr dw, sys_unlink dr dw, sys_link dr dw, sys_mkdir dr dw, sys_close, sys_hello_world,
        sys_clone, sys_join, sys_change_tickets, sys_mutex_init, sys_mutex_lock, sys_mutex_unlock,
        sys_barrier_init, sys_barrier_lock] ! nat (num - 1)))"

definition syscall :: "'z xmachine_scheme dev_read \<Rightarrow> 'z xmachine_scheme dev_write \<Rightarrow> (unit, 'z xmachine_scheme) kern" where
  "syscall dr dw =
     bindK cur_proc (\<lambda>cur.
     bindK (getsK (\<lambda>s. sint (tf_get (tf (procs s ! cur)) TF_EAX s))) (\<lambda>num.
     bindK
       (case syscalls dr dw num of
          Some f \<Rightarrow> f
        | None \<Rightarrow>
            bindK (getsK (\<lambda>s. procs s ! cur)) (\<lambda>q.
            thenK (cprint ''%d %s: unknown sys call %d\<newline>'' [PInt (pid q), PStr (pname q), PInt num]) (retK (- 1))))
       (\<lambda>r. modifyK (\<lambda>s. tf_set (tf (procs s ! cur)) TF_EAX (of_int r) s))))"

end
