(* ===== verification/Kbd.thy ===== *)
theory Kbd
  imports Prelude "HOL-Library.Word"
begin

text \<open>
  The keyboard driver of \<^verbatim>\<open>kbd.c\<close> with its tables from \<^verbatim>\<open>kbd.h\<close>: a state machine that turns scan
  codes into characters. The static variable \<^verbatim>\<open>shift\<close> is the state; the byte in the controller's
  output buffer, if there is one, is the input.
\<close>

unbundle bit_operations_syntax

section \<open>Tables\<close>

abbreviation (input) K_SHIFT :: uint32 where "K_SHIFT \<equiv> 1"
abbreviation (input) K_CTL :: uint32 where "K_CTL \<equiv> 2"
abbreviation (input) K_CAPSLOCK :: uint32 where "K_CAPSLOCK \<equiv> 8"
abbreviation (input) K_E0ESC :: uint32 where "K_E0ESC \<equiv> 64"

definition shiftcode :: "uchar list" where
  "shiftcode =
     (replicate 256 0)
     [29 := 2, 42 := 1, 54 := 1, 56 := 4, 157 := 2, 184 := 4]"

definition togglecode :: "uchar list" where
  "togglecode =
     (replicate 256 0)
     [58 := 8, 69 := 16, 70 := 32]"

definition normalmap :: "uchar list" where
  "normalmap =
     ([0, 27, 49, 50, 51, 52, 53, 54, 55, 56, 57, 48, 45, 61, 8, 9,
      113, 119, 101, 114, 116, 121, 117, 105, 111, 112, 91, 93, 10, 0, 97, 115,
      100, 102, 103, 104, 106, 107, 108, 59, 39, 96, 0, 92, 122, 120, 99, 118,
      98, 110, 109, 44, 46, 47, 0, 42, 0, 32, 0, 0, 0, 0, 0, 0,
      0, 0, 0, 0, 0, 0, 0, 55, 56, 57, 45, 52, 53, 54, 43, 49,
      50, 51, 48, 46, 0, 0, 0, 0]
     @ replicate 168 0)
     [156 := 10, 181 := 47, 200 := 226, 208 := 227, 201 := 230, 209 := 231, 203 := 228, 205 := 229, 151 := 224, 207 := 225, 210 := 232, 211 := 233]"

definition shiftmap :: "uchar list" where
  "shiftmap =
     ([0, 27, 33, 64, 35, 36, 37, 94, 38, 42, 40, 41, 95, 43, 8, 9,
      81, 87, 69, 82, 84, 89, 85, 73, 79, 80, 123, 125, 10, 0, 65, 83,
      68, 70, 71, 72, 74, 75, 76, 58, 34, 126, 0, 124, 90, 88, 67, 86,
      66, 78, 77, 60, 62, 63, 0, 42, 0, 32, 0, 0, 0, 0, 0, 0,
      0, 0, 0, 0, 0, 0, 0, 55, 56, 57, 45, 52, 53, 54, 43, 49,
      50, 51, 48, 46, 0, 0, 0, 0]
     @ replicate 168 0)
     [156 := 10, 181 := 47, 200 := 226, 208 := 227, 201 := 230, 209 := 231, 203 := 228, 205 := 229, 151 := 224, 207 := 225, 210 := 232, 211 := 233]"

definition ctlmap :: "uchar list" where
  "ctlmap =
     ([0, 0, 0, 0, 0, 0, 0, 0, 0, 0, 0, 0, 0, 0, 0, 0,
      17, 23, 5, 18, 20, 25, 21, 9, 15, 16, 0, 0, 13, 0, 1, 19,
      4, 6, 7, 8, 10, 11, 12, 0, 0, 0, 0, 28, 26, 24, 3, 22,
      2, 14, 13, 0, 0, 239, 0, 0]
     @ replicate 200 0)
     [156 := 13, 181 := 239, 200 := 226, 208 := 227, 201 := 230, 209 := 231, 203 := 228, 205 := 229, 151 := 224, 207 := 225, 210 := 232, 211 := 233]"

section \<open>The driver\<close>

definition charcode :: "uint32 \<Rightarrow> uchar list" where
  "charcode i = [normalmap, shiftmap, ctlmap, ctlmap] ! unat i"

definition capsflip :: "int \<Rightarrow> int" where
  "capsflip c = (if 97 \<le> c \<and> c \<le> 122 then c + (65 - 97) else if 65 \<le> c \<and> c \<le> 90 then c + (97 - 65) else c)"

definition kbdgetc :: "uint32 \<Rightarrow> uchar option \<Rightarrow> int \<times> uint32" where
  "kbdgetc sh inp =
     (case inp of
        None \<Rightarrow> (- 1, sh)
      | Some dat \<Rightarrow>
          if dat = 0xE0 then (0, sh OR K_E0ESC)
          else if dat AND 0x80 \<noteq> 0 then
            (let dat = (if sh AND K_E0ESC \<noteq> 0 then dat else dat AND 0x7F)
             in (0, sh AND NOT (ucast (shiftcode ! unat dat) OR K_E0ESC)))
          else
            (let (dat, sh) = (if sh AND K_E0ESC \<noteq> 0 then (dat OR 0x80, sh AND NOT K_E0ESC) else (dat, sh));
                 sh = sh OR ucast (shiftcode ! unat dat);
                 sh = sh XOR ucast (togglecode ! unat dat);
                 c = uint (charcode (sh AND (K_CTL OR K_SHIFT)) ! unat dat)
             in (if sh AND K_CAPSLOCK \<noteq> 0 then capsflip c else c, sh)))"

text \<open>The characters of a sequence of scan codes, in order.\<close>

fun kbd_run :: "uint32 \<Rightarrow> uchar list \<Rightarrow> int list \<times> uint32" where
  "kbd_run sh [] = ([], sh)"
| "kbd_run sh (d # ds) = (let (c, sh') = kbdgetc sh (Some d); (cs, sh'') = kbd_run sh' ds in (c # cs, sh''))"

section \<open>Properties\<close>

lemma lengths [simp]:
  "length shiftcode = 256" "length togglecode = 256" "length normalmap = 256" "length shiftmap = 256"
  "length ctlmap = 256"
  by (simp_all add: shiftcode_def togglecode_def normalmap_def shiftmap_def ctlmap_def)

end
