(* ===== verification/Console.thy ===== *)
theory Console
  imports Syscall Kbd
begin

text \<open>
  The console: formatting of \<^verbatim>\<open>cprintf\<close>, the screen and serial output, line editing on input and
  the read and write entries for the device switch (\<^verbatim>\<open>console.c\<close>, \<^verbatim>\<open>uart.c\<close>). Characters are their
  codes; \<open>cons_locking\<close> and \<open>panicked\<close> are the flags of \<^verbatim>\<open>console.c\<close>, \<open>crt14\<close> and \<open>crt15\<close> the cursor
  registers of the display.
\<close>

section \<open>State\<close>

abbreviation (input) INPUT_BUF :: uint32 where "INPUT_BUF \<equiv> 128"
abbreviation (input) BACKSPACE :: int where "BACKSPACE \<equiv> 256"

record cmachine = xmachine +
  cons_locking :: int
  panicked :: int
  crt :: "ushort list"
  crt14 :: uchar
  crt15 :: uchar
  uart :: int
  uart_out :: "uchar list"
  in_buf :: "uchar list"
  in_r :: uint32
  in_w :: uint32
  in_e :: uint32
  kshift :: uint32

section \<open>Formatting\<close>

function digits_rev :: "uint32 \<Rightarrow> uint32 \<Rightarrow> uint32 list" where
  "digits_rev x base = (if base < 2 \<or> x div base = 0 then [x mod base] else x mod base # digits_rev (x div base) base)"
  by pat_completeness auto
termination
proof (relation "measure (\<lambda>(x, base). unat x)")
  fix x base :: uint32
  assume a: "\<not> (base < 2 \<or> x div base = 0)"
  then have b: "2 \<le> unat base" by (simp add: word_le_nat_alt not_less)
  have "x \<noteq> 0" using a by auto
  then have "0 < unat x" by (simp add: unat_gt_0)
  then have "unat x div unat base < unat x" using b by (intro div_less_dividend) auto
  then show "((x div base, base), x, base) \<in> measure (\<lambda>(x, base). unat x)" by (simp add: unat_div)
qed simp

declare digits_rev.simps [simp del]

definition digit_char :: "uint32 \<Rightarrow> uchar" where
  "digit_char d = [48, 49, 50, 51, 52, 53, 54, 55, 56, 57, 97, 98, 99, 100, 101, 102] ! unat d"

text \<open>\<^verbatim>\<open>printint\<close> fills a buffer from the least significant digit and prints it backwards.\<close>

definition printint_buf :: "uint32 \<Rightarrow> uint32 \<Rightarrow> bool \<Rightarrow> uchar list" where
  "printint_buf xx base sgnd =
     (let neg = sgnd \<and> sint xx < 0; x = (if neg then - xx else xx)
      in map digit_char (digits_rev x base) @ (if neg then [45] else []))"

definition printint :: "uint32 \<Rightarrow> uint32 \<Rightarrow> bool \<Rightarrow> uchar list" where
  "printint xx base sgnd = rev (printint_buf xx base sgnd)"

fun arg_word :: "parg \<Rightarrow> uint32 option" where
  "arg_word (PInt i) = Some (of_int i)"
| "arg_word (PPtr p) = Some p"
| "arg_word (PStr s) = None"

text \<open>
  The loop of \<^verbatim>\<open>cprintf\<close> over the format: the characters it prints, or \<open>None\<close> when the format asks for
  an argument that was not passed or that has another type. The case of a null string pointer does
  not arise for the arguments of the model.
\<close>

fun cprintf_chars :: "uchar list \<Rightarrow> parg list \<Rightarrow> uchar list option" where
  "cprintf_chars [] as = Some []"
| "cprintf_chars (c # fs) as =
     (if c \<noteq> 37 then map_option (\<lambda>r. c # r) (cprintf_chars fs as)
      else case fs of
        [] \<Rightarrow> Some []
      | k # fs \<Rightarrow>
          if k = 100 \<or> k = 120 \<or> k = 112 then
            (case as of
               a # as \<Rightarrow>
                 (case arg_word a of
                    Some w \<Rightarrow> map_option (\<lambda>r. (if k = 100 then printint w 10 True else printint w 16 False) @ r)
                      (cprintf_chars fs as)
                  | None \<Rightarrow> None)
             | [] \<Rightarrow> None)
          else if k = 115 then
            (case as of
               PStr s # as \<Rightarrow> map_option (\<lambda>r. takeWhile (\<lambda>c. c \<noteq> 0) s @ r) (cprintf_chars fs as)
             | _ \<Rightarrow> None)
          else if k = 37 then map_option (\<lambda>r. 37 # r) (cprintf_chars fs as)
          else map_option (\<lambda>r. 37 # k # r) (cprintf_chars fs as))"

section \<open>Output\<close>

text \<open>The wait for the transmitter ends after 128 tries; the byte is sent in any case.\<close>

definition uartputc :: "int \<Rightarrow> (unit, 'z cmachine_scheme) kern" where
  "uartputc c = condK (\<lambda>s. uart s \<noteq> 0) (modifyK (\<lambda>s. s\<lparr>uart_out := uart_out s @ [of_int c]\<rparr>))"

definition cursor :: "'z cmachine_scheme \<Rightarrow> int" where
  "cursor s = uint (crt14 s) * 256 + uint (crt15 s)"

definition cga_pos :: "int \<Rightarrow> int \<Rightarrow> int" where
  "cga_pos c pos =
     (if c = 10 then pos + (80 - pos mod 80)
      else if c = BACKSPACE then (if pos > 0 then pos - 1 else pos)
      else pos + 1)"

definition cgaputc :: "int \<Rightarrow> (unit, 'z cmachine_scheme) kern" where
  "cgaputc c s =
     (let pos0 = cursor s;
          crt1 = (if c = 10 \<or> c = BACKSPACE then crt s
                  else (crt s)[nat pos0 := (of_int c AND 0xff) OR 0x0700]);
          pos1 = cga_pos c pos0
      in if pos1 < 0 \<or> pos1 > 25 * 80 then Panic ''pos under/overflow''
         else
           (let (crt2, pos2) =
                  (if pos1 div 80 \<ge> 24 then
                     (let p = pos1 - 80; up = take (23 * 80) (drop 80 crt1) @ drop (23 * 80) crt1
                      in (take (nat p) up @ replicate (nat (24 * 80 - p)) 0 @ drop (24 * 80) up, p))
                   else (crt1, pos1))
            in Ret () (s\<lparr>crt := crt2[nat pos2 := 0x0720], crt14 := of_int (pos2 div 256), crt15 := of_int pos2\<rparr>)))"

definition consputc :: "int \<Rightarrow> (unit, 'z cmachine_scheme) kern" where
  "consputc c s =
     (if panicked s \<noteq> 0 then Spin
      else
        thenK (if c = BACKSPACE then thenK (uartputc 8) (thenK (uartputc 32) (uartputc 8)) else uartputc c)
          (cgaputc c) s)"

definition cprintf :: "uchar list \<Rightarrow> parg list \<Rightarrow> (unit, 'z cmachine_scheme) kern" where
  "cprintf fmt as =
     bindK (getsK cons_locking) (\<lambda>locking.
     thenK (whenK (locking \<noteq> 0) (acquire ConsLock))
     (thenK
       (case cprintf_chars fmt as of
          None \<Rightarrow> (\<lambda>s. Fault)
        | Some cs \<Rightarrow> forK cs (\<lambda>c. consputc (uint c)))
       (whenK (locking \<noteq> 0) (release ConsLock))))"

section \<open>Input\<close>

text \<open>The loop of the kill-line key.\<close>

function kill_line :: "uint32 \<Rightarrow> uint32 \<Rightarrow> uchar list \<Rightarrow> nat" where
  "kill_line e w buf =
     (if e \<noteq> w \<and> buf ! unat ((e - 1) mod INPUT_BUF) \<noteq> 10 then Suc (kill_line (e - 1) w buf) else 0)"
  by pat_completeness auto
termination
proof (relation "measure (\<lambda>(e, w, buf). unat (e - w))")
  fix e w :: uint32 and buf :: "uchar list"
  assume "e \<noteq> w \<and> buf ! unat ((e - 1) mod INPUT_BUF) \<noteq> 10"
  then have "e - w \<noteq> 0" by simp
  then have "unat (e - w - 1) < unat (e - w)" by (simp add: unat_minus_one unat_gt_0)
  moreover have "e - 1 - w = e - w - 1" by simp
  ultimately have "unat (e - 1 - w) < unat (e - w)" by metis
  then show "((e - 1, w, buf), e, w, buf) \<in> measure (\<lambda>(e, w, buf). unat (e - w))" by simp
qed simp

declare kill_line.simps [simp del]

definition consoleintr_char :: "int \<Rightarrow> (unit, 'z cmachine_scheme) kern" where
  "consoleintr_char c =
     (if c = 21 then
        bindK (getsK (\<lambda>s. kill_line (in_e s) (in_w s) (in_buf s))) (\<lambda>n.
        forK [0..<n] (\<lambda>k. thenK (modifyK (\<lambda>s. s\<lparr>in_e := in_e s - 1\<rparr>)) (consputc BACKSPACE)))
      else if c = 8 \<or> c = 127 then
        condK (\<lambda>s. in_e s \<noteq> in_w s)
          (thenK (modifyK (\<lambda>s. s\<lparr>in_e := in_e s - 1\<rparr>)) (consputc BACKSPACE))
      else
        condK (\<lambda>s. c \<noteq> 0 \<and> in_e s - in_r s < INPUT_BUF)
          (let c = (if c = 13 then 10 else c) in
           thenK (modifyK (\<lambda>s. s\<lparr>in_buf := (in_buf s)[unat (in_e s mod INPUT_BUF) := of_int c], in_e := in_e s + 1\<rparr>))
           (thenK (consputc c)
           (condK (\<lambda>s. c = 10 \<or> c = 4 \<or> in_e s = in_r s + INPUT_BUF)
             (thenK (modifyK (\<lambda>s. s\<lparr>in_w := in_e s\<rparr>)) (wakeup ChanInput))))))"

text \<open>
  \<open>cs\<close> are the values \<^verbatim>\<open>getc\<close> returns before the first negative one. The process listing key is 16.
\<close>

definition consoleintr :: "int list \<Rightarrow> (unit, 'z cmachine_scheme) kern" where
  "consoleintr cs =
     thenK (acquire ConsLock)
     (thenK (forK cs (\<lambda>c. if c = 16 then retK () else consoleintr_char c))
     (thenK (release ConsLock)
       (whenK (16 \<in> set cs) procdump)))"

definition uartgetc_all :: "uchar list \<Rightarrow> 'z cmachine_scheme \<Rightarrow> int list" where
  "uartgetc_all ds s = (if uart s = 0 then [] else map uint ds)"

definition uartintr :: "uchar list \<Rightarrow> (unit, 'z cmachine_scheme) kern" where
  "uartintr ds = bindK (getsK (uartgetc_all ds)) consoleintr"

definition kbdintr :: "uchar list \<Rightarrow> (unit, 'z cmachine_scheme) kern" where
  "kbdintr ds =
     bindK (getsK (\<lambda>s. kbd_run (kshift s) ds)) (\<lambda>(cs, sh).
     thenK (modifyK (\<lambda>s. s\<lparr>kshift := sh\<rparr>)) (consoleintr cs))"

section \<open>The device\<close>

definition consoleread_end :: "nat \<Rightarrow> int \<Rightarrow> uchar list \<Rightarrow> (int \<times> uchar list, 'z cmachine_scheme) kern" where
  "consoleread_end ip r acc = thenK (release ConsLock) (thenK (ilock (Some ip)) (retK (r, acc)))"

text \<open>\<open>n\<close> bytes are still wanted, \<open>acc\<close> are those already stored.\<close>

fun consoleread_loop :: "nat \<Rightarrow> nat \<Rightarrow> uchar list \<Rightarrow> (int \<times> uchar list, 'z cmachine_scheme) kern" where
  "consoleread_loop ip 0 acc = consoleread_end ip (int (length acc)) acc"
| "consoleread_loop ip (Suc n) acc =
     bindK (getsK (\<lambda>s. in_r s = in_w s)) (\<lambda>empty.
     if empty then
       bindK cur_proc (\<lambda>cur.
       bindK (getsK (\<lambda>s. killed (procs s ! cur))) (\<lambda>k.
       if k \<noteq> 0 then consoleread_end ip (- 1) acc
       else thenK (sleep ChanInput (Some ConsLock)) (retK (0, []))))
     else
       bindK (getsK (\<lambda>s. in_buf s ! unat (in_r s mod INPUT_BUF))) (\<lambda>c.
       thenK (modifyK (\<lambda>s. s\<lparr>in_r := in_r s + 1\<rparr>))
       (if c = 4 then
          thenK (whenK (acc \<noteq> []) (modifyK (\<lambda>s. s\<lparr>in_r := in_r s - 1\<rparr>)))
            (consoleread_end ip (int (length acc)) acc)
        else if c = 10 then consoleread_end ip (int (length acc) + 1) (acc @ [c])
        else consoleread_loop ip n (acc @ [c]))))"

definition consoleread :: "nat \<Rightarrow> int \<Rightarrow> (int \<times> uchar list, 'z cmachine_scheme) kern" where
  "consoleread ip n =
     thenK (iunlock (Some ip))
     (thenK (acquire ConsLock)
     (consoleread_loop ip (nat n) []))"

definition consoleread_resume :: "nat \<Rightarrow> nat \<Rightarrow> nat \<Rightarrow> uchar list \<Rightarrow> (int \<times> uchar list, 'z cmachine_scheme) kern" where
  "consoleread_resume cur ip n acc = thenK (sleep_resume cur ConsLock) (consoleread_loop ip n acc)"

definition consolewrite :: "nat \<Rightarrow> uchar list \<Rightarrow> int \<Rightarrow> (int, 'z cmachine_scheme) kern" where
  "consolewrite ip buf n =
     thenK (iunlock (Some ip))
     (thenK (acquire ConsLock)
     (thenK (forK (take (nat n) buf) (\<lambda>c. consputc (uint c)))
     (thenK (release ConsLock)
     (thenK (ilock (Some ip)) (retK n)))))"

text \<open>The device switch as \<^verbatim>\<open>consoleinit\<close> leaves it: the console is device 1.\<close>

definition devsw_read :: "'z cmachine_scheme dev_read" where
  "devsw_read major = (if major = 1 then Some consoleread else None)"

definition devsw_write :: "'z cmachine_scheme dev_write" where
  "devsw_write major = (if major = 1 then Some consolewrite else None)"

definition consoleinit :: "(unit, 'z cmachine_scheme) kern" where
  "consoleinit = modifyK (\<lambda>s. (initlock ConsLock ''console'' s)\<lparr>cons_locking := 1\<rparr>)"

end
