(* ===== verification/Trap.thy ===== *)
theory Trap
  imports Console
begin

text \<open>
  The interrupt descriptor table and the dispatch of traps (\<^verbatim>\<open>trap.c\<close>, \<^verbatim>\<open>lapic.c\<close>). The trap frame is given
  by its address; what the devices deliver with an interrupt (the scan codes or serial bytes that
  are ready) and the value of the register \<^verbatim>\<open>cr2\<close> are arguments. Disk interrupts do nothing in the
  configuration with the disk in memory (\<^verbatim>\<open>memide.c\<close>).
\<close>

section \<open>The table\<close>

abbreviation (input) T_SYSCALL :: uint32 where "T_SYSCALL \<equiv> 64"
abbreviation (input) T_IRQ0 :: uint32 where "T_IRQ0 \<equiv> 32"

definition tvinit :: "uint32 list \<Rightarrow> 'z machine_scheme \<Rightarrow> gatedesc list \<times> 'z machine_scheme" where
  "tvinit vectors s =
     ((map (\<lambda>v. SETGATE False (of_nat (SEG_KCODE * 8)) v 0) (take 256 vectors))
        [64 := SETGATE True (of_nat (SEG_KCODE * 8)) (vectors ! 64) 3],
      initlock TicksLock ''time'' s)"

section \<open>The local APIC\<close>

text \<open>Every write is followed by a read of the register \<^verbatim>\<open>ID\<close>, whose value is dropped.\<close>

definition lapicw :: "nat \<Rightarrow> uint32 \<Rightarrow> 'z machine_scheme \<Rightarrow> 'z machine_scheme" where
  "lapicw index value s = s\<lparr>lapic := map_option (\<lambda>regs. regs(index := value)) (lapic s)\<rparr>"

definition lapiceoi :: "(unit, 'z machine_scheme) kern" where
  "lapiceoi = condK (\<lambda>s. lapic s \<noteq> None) (modifyK (lapicw 44 0))"

section \<open>Dispatch\<close>

text \<open>What the devices have ready when the trap is taken, and the faulting address.\<close>

record trap_input =
  kbd_data :: "uchar list"
  uart_data :: "uchar list"
  cr2 :: uint32

definition ideintr :: "(unit, 'z cmachine_scheme) kern" where
  "ideintr = retK ()"

definition exit_if_killed :: "(unit, 'z cmachine_scheme) kern" where
  "exit_if_killed =
     bindK myproc (\<lambda>p. derefK p (\<lambda>i.
     condK (\<lambda>s. killed (procs s ! i) \<noteq> 0) exit))"

definition trap_syscall :: "uint32 \<Rightarrow> (unit, 'z cmachine_scheme) kern" where
  "trap_syscall tfp =
     thenK exit_if_killed
     (thenK (bindK myproc (\<lambda>p. derefK p (\<lambda>i. modifyK (upd_proc i (\<lambda>q. q\<lparr>tf := tfp\<rparr>)))))
     (thenK (syscall devsw_read devsw_write)
     exit_if_killed))"

definition timer_tick :: "(unit, 'z cmachine_scheme) kern" where
  "timer_tick =
     bindK cpuid (\<lambda>c.
     whenK (c = 0)
       (thenK (acquire TicksLock)
       (thenK (modifyK (\<lambda>s. s\<lparr>ticks := ticks s + 1\<rparr>))
       (thenK (wakeup ChanTicks)
       (release TicksLock)))))"

definition trap_default :: "trap_input \<Rightarrow> uint32 \<Rightarrow> uint32 \<Rightarrow> (unit, 'z cmachine_scheme) kern" where
  "trap_default inp tfp no =
     bindK (getsK (\<lambda>s. (tf_get tfp TF_CS s, tf_get tfp TF_EIP s, tf_get tfp TF_ERR s))) (\<lambda>(cs, eip, err).
     bindK myproc (\<lambda>p.
     bindK cpuid (\<lambda>c.
     case (if cs AND 3 = 0 then None else p) of
       None \<Rightarrow>
         thenK (cprint ''unexpected trap %d from cpu %d eip %x (cr2=0x%x)\<newline>''
                  [PInt (sint no), PInt (int c), PInt (uint eip), PInt (uint (cr2 inp))])
           (panicK ''trap'')
     | Some i \<Rightarrow>
         thenK (bindK (getsK (\<lambda>s. procs s ! i)) (\<lambda>q.
           cprint ''pid %d %s: trap %d err %d on cpu %d eip 0x%x addr 0x%x--kill proc\<newline>''
             [PInt (pid q), PStr (pname q), PInt (sint no), PInt (sint err), PInt (int c),
              PInt (uint eip), PInt (uint (cr2 inp))]))
           (modifyK (upd_proc i (\<lambda>q. q\<lparr>killed := 1\<rparr>))))))"

definition trap_switch :: "trap_input \<Rightarrow> uint32 \<Rightarrow> uint32 \<Rightarrow> (unit, 'z cmachine_scheme) kern" where
  "trap_switch inp tfp no =
     (if no = T_IRQ0 then thenK timer_tick lapiceoi
      else if no = T_IRQ0 + 14 then thenK ideintr lapiceoi
      else if no = T_IRQ0 + 15 then retK ()
      else if no = T_IRQ0 + 1 then thenK (kbdintr (kbd_data inp)) lapiceoi
      else if no = T_IRQ0 + 4 then thenK (uartintr (uart_data inp)) lapiceoi
      else if no = T_IRQ0 + 7 \<or> no = T_IRQ0 + 31 then
        bindK cpuid (\<lambda>c.
        bindK (getsK (\<lambda>s. (tf_get tfp TF_CS s AND 0xffff, tf_get tfp TF_EIP s))) (\<lambda>(cs, eip).
        thenK (cprint ''cpu%d: spurious interrupt at %x:%x\<newline>'' [PInt (int c), PInt (uint cs), PInt (uint eip)])
          lapiceoi))
      else trap_default inp tfp no)"

text \<open>A killed process that was in user space does not return to it.\<close>

definition trap_exit :: "uint32 \<Rightarrow> (unit, 'z cmachine_scheme) kern" where
  "trap_exit tfp =
     bindK myproc (\<lambda>p.
     case p of
       None \<Rightarrow> retK ()
     | Some i \<Rightarrow> condK (\<lambda>s. killed (procs s ! i) \<noteq> 0 \<and> tf_get tfp TF_CS s AND 3 = 3) exit)"

definition trap_yield :: "uint32 \<Rightarrow> (unit, 'z cmachine_scheme) kern" where
  "trap_yield no =
     bindK myproc (\<lambda>p.
     case p of
       None \<Rightarrow> retK ()
     | Some i \<Rightarrow> condK (\<lambda>s. pstate (procs s ! i) = RUNNING \<and> no = T_IRQ0) yield)"

definition trap :: "trap_input \<Rightarrow> uint32 \<Rightarrow> (unit, 'z cmachine_scheme) kern" where
  "trap inp tfp =
     bindK (getsK (tf_get tfp TF_TRAPNO)) (\<lambda>no.
     if no = T_SYSCALL then trap_syscall tfp
     else
       thenK (trap_switch inp tfp no)
       (thenK (trap_exit tfp)
       (thenK (trap_yield no)
       (trap_exit tfp))))"

text \<open>The rest of \<^verbatim>\<open>trap\<close> when a process that yielded to the clock is run again.\<close>

definition trap_resume :: "nat \<Rightarrow> uint32 \<Rightarrow> (unit, 'z cmachine_scheme) kern" where
  "trap_resume cur tfp = thenK (yield_resume cur) (trap_exit tfp)"

end
