(* ===== verification/Boot_State.thy ===== *)
theory Boot_State
  imports Trap
begin

text \<open>
  A concrete machine: one CPU that runs the first process, all locks free, the buffer cache as
  \<^verbatim>\<open>binit\<close> leaves it, an empty log, a disk of zeros, a blank screen and no input.
\<close>

definition blank_buf :: "nat \<Rightarrow> buf" where
  "blank_buf i = \<lparr>bflags = 0, bdev = 0, blockno = 0, refcnt = 0, bprev = (if i = 29 then Head else Blk (i + 1)),
     bnext = (if i = 0 then Head else Blk (i - 1)), qnext = None, bdata = replicate 512 0\<rparr>"

definition booted :: cmachine where
  "booted = pmachine.extend sync_demo
     \<lparr>sleeplks = (\<lambda>l. \<lparr>sl_locked = 0, sl_name = [], sl_pid = 0\<rparr>),
      bufs = map blank_buf [0..<30], head_prev = Blk 0, head_next = Blk 29,
      memdisk = replicate 1000 (replicate 512 0), disksize = 1000, dwrites = [],
      log = \<lparr>lstart = 2, lsize = 30, outstanding = 0, committing = 0, ldev = 1,
             lh = \<lparr>lh_n = 0, lh_block = replicate 30 0\<rparr>\<rparr>,
      sb = \<lparr>sb_size = 1000, sb_nblocks = 941, sb_ninodes = 200, sb_nlog = 30, sb_logstart = 2,
            sb_inodestart = 32, sb_bmapstart = 58\<rparr>,
      inodes = replicate 50 \<lparr>idev = 0, inum = 0, iref = 0, ivalid = 0, itype = 0, imajor = 0, iminor = 0,
            inlink = 0, isize = 0, iaddrs = replicate 13 0\<rparr>,
      ftable = replicate 100 \<lparr>ftype = FD_NONE, fref = 0, readable = False, writable = False, fpipe = 0,
            fip = None, foff = 0\<rparr>,
      pipes = (\<lambda>p. \<lparr>pdata = replicate 512 0, nread = 0, nwrite = 0, readopen = 1, writeopen = 1\<rparr>),
      forkret_first = 0, ticks = 0, cons_locking = 1, panicked = 0, crt = replicate 2000 0, crt14 = 0, crt15 = 0,
      uart = 1, uart_out = [], in_buf = replicate 128 0, in_r = 0, in_w = 0, in_e = 0, kshift = 0\<rparr>"

lemma booted_sel [simp]:
  "sleeplks booted = (\<lambda>l. \<lparr>sl_locked = 0, sl_name = [], sl_pid = 0\<rparr>)"
  "bufs booted = map blank_buf [0..<30]" "head_prev booted = Blk 0" "head_next booted = Blk 29"
  "memdisk booted = replicate 1000 (replicate 512 0)" "disksize booted = 1000" "dwrites booted = []"
  "log booted = \<lparr>lstart = 2, lsize = 30, outstanding = 0, committing = 0, ldev = 1,
     lh = \<lparr>lh_n = 0, lh_block = replicate 30 0\<rparr>\<rparr>"
  "length (inodes booted) = 50" "length (ftable booted) = 100" "\<forall>f\<in>set (ftable booted). fref f = 0"
  "pipes booted = (\<lambda>p. \<lparr>pdata = replicate 512 0, nread = 0, nwrite = 0, readopen = 1, writeopen = 1\<rparr>)"
  "panicked booted = 0" "crt booted = replicate 2000 0" "crt14 booted = 0" "crt15 booted = 0"
  "in_buf booted = replicate 128 0" "in_r booted = 0" "in_w booted = 0" "in_e booted = 0" "kshift booted = 0"
  by (simp_all add: booted_def pmachine.defs)

lemma booted_base [simp]:
  "procs booted = procs pm_demo" "nextpid booted = nextpid pm_demo" "cpus booted = cpus pm_demo"
  "mutexes booted = mutexes sync_demo"
  by (simp_all add: booted_def pmachine.defs sync_demo_def)

lemma booted_ok: "cpu_ok 0 booted" "lock_free L booted"
  using sync_demo_ok(1) sync_demo_ok(2) [of L]
  by (simp_all add: booted_def pmachine.defs cpu_ok_def cur_cpu_def lapicid_def lock_free_def)

end
