(* ===== verification/Console_Inv.thy ===== *)
theory Console_Inv
  imports Boot_State
begin

text \<open>
  Correctness of the console: the numbers it prints read back, the screen and its cursor stay in
  bounds, and the input ring with its three indices is a queue of finished lines followed by
  the line that is being edited.
\<close>

section \<open>Numbers\<close>

definition digits_val :: "nat \<Rightarrow> uint32 list \<Rightarrow> nat" where
  "digits_val b ds = foldr (\<lambda>d v. unat d + b * v) ds 0"

lemma digits_rev_unat:
  "2 \<le> base \<Longrightarrow> digits_val (unat base) (digits_rev x base) = unat x"
proof (induction x base rule: digits_rev.induct)
  case (1 x base)
  show ?case
  proof (cases "x div base = 0")
    case True
    then have "unat x div unat base = 0" by (metis unat_0 unat_div)
    then have "unat x mod unat base = unat x" by (metis add_0 div_mult_mod_eq mult_0)
    with True show ?thesis by (subst digits_rev.simps) (simp add: digits_val_def unat_mod)
  next
    case False
    with 1 have "digits_val (unat base) (digits_rev (x div base) base) = unat (x div base)" by (simp add: not_le)
    with False 1(2) show ?thesis
      by (subst digits_rev.simps) (simp add: digits_val_def unat_mod unat_div not_less [symmetric])
  qed
qed

lemma digits_rev_below: "2 \<le> base \<Longrightarrow> d \<in> set (digits_rev x base) \<Longrightarrow> unat d < unat base"
proof (induction x base rule: digits_rev.induct)
  case (1 x base)
  have b: "0 < unat base" using 1(2) by (simp add: word_le_nat_alt)
  show ?case
  proof (cases "d = x mod base")
    case True
    with b show ?thesis by (simp add: unat_mod)
  next
    case False
    with 1(3) have "\<not> (base < 2 \<or> x div base = 0)" "d \<in> set (digits_rev (x div base) base)"
      by (subst (asm) digits_rev.simps, simp split: if_splits)+
    with 1 show ?thesis by simp
  qed
qed

lemma digits_rev_length: "2 \<le> base \<Longrightarrow> unat x < unat base ^ Suc k \<Longrightarrow> length (digits_rev x base) \<le> Suc k"
proof (induction x base arbitrary: k rule: digits_rev.induct)
  case (1 x base)
  show ?case
  proof (cases "x div base = 0")
    case True
    then show ?thesis by (subst digits_rev.simps) simp
  next
    case False
    have b: "0 < unat base" using 1(2) by (simp add: word_le_nat_alt)
    have "k \<noteq> 0" using False 1(3) b
      by (metis One_nat_def div_less power_one_right unat_div unat_eq_zero)
    then obtain j where k: "k = Suc j" by (cases k) auto
    have "unat x < unat base ^ Suc j * unat base" using 1(3) k by (simp add: mult.commute)
    then have "unat (x div base) < unat base ^ Suc j" using b
      by (metis less_mult_imp_div_less unat_div)
    with 1(1) 1(2) False have "length (digits_rev (x div base) base) \<le> Suc j" by (simp add: not_le)
    with False 1(2) k show ?thesis by (subst digits_rev.simps) simp
  qed
qed

text \<open>Reading a number back.\<close>

definition char_digit :: "uchar \<Rightarrow> nat" where
  "char_digit c = (if c < 97 then unat c - 48 else unat c - 87)"

definition parse_num :: "nat \<Rightarrow> uchar list \<Rightarrow> nat" where
  "parse_num b cs = foldl (\<lambda>v c. v * b + char_digit c) 0 cs"

definition parse_int :: "nat \<Rightarrow> uchar list \<Rightarrow> int" where
  "parse_int b cs = (if cs \<noteq> [] \<and> hd cs = 45 then - int (parse_num b (tl cs)) else int (parse_num b cs))"

lemma digit_char_inv: "unat d < 16 \<Longrightarrow> char_digit (digit_char d) = unat d \<and> digit_char d \<noteq> 45"
proof -
  assume d: "unat d < 16"
  have "list_all (\<lambda>n. char_digit (digit_char (word_of_nat n)) = n \<and> digit_char (word_of_nat n) \<noteq> 45) [0..<16]"
    by code_simp
  with d have "char_digit (digit_char (word_of_nat (unat d))) = unat d \<and> digit_char (word_of_nat (unat d)) \<noteq> 45"
    by (auto simp: list_all_iff dest!: bspec [of _ _ "unat d"])
  then show ?thesis by simp
qed

lemma parse_num_rev:
  "\<forall>d\<in>set ds. unat d < 16 \<Longrightarrow> parse_num b (rev (map digit_char ds)) = digits_val b ds"
  by (induction ds) (auto simp: parse_num_def digits_val_def digit_char_inv mult.commute)

lemma digits_rev_Nil [simp]: "digits_rev x base \<noteq> []"
  by (subst digits_rev.simps) simp

lemma parse_printed:
  assumes "2 \<le> base" "unat base \<le> 16"
  shows "parse_num (unat base) (rev (map digit_char (digits_rev x base))) = unat x"
    "hd (rev (map digit_char (digits_rev x base))) \<noteq> 45"
proof -
  have b: "\<forall>d\<in>set (digits_rev x base). unat d < 16"
    using digits_rev_below [OF assms(1)] assms(2) by fastforce
  then show "parse_num (unat base) (rev (map digit_char (digits_rev x base))) = unat x"
    by (simp add: parse_num_rev digits_rev_unat [OF assms(1)])
  have "last (digits_rev x base) \<in> set (digits_rev x base)" by simp
  with b show "hd (rev (map digit_char (digits_rev x base))) \<noteq> 45"
    by (simp add: hd_rev last_map digit_char_inv)
qed

lemma mod_once: "m \<le> y \<Longrightarrow> y < 2 * m \<Longrightarrow> y mod m = y - m" for y m :: int
  by (metis add_diff_cancel_left' diff_ge_0_iff_ge diff_less_eq minus_mod_self2 mod_pos_pos_trivial mult_2)

lemma sint_cases: "sint (x :: uint32) = (if uint x < 2147483648 then uint x else uint x - 4294967296)"
proof -
  have u: "0 \<le> uint x" "uint x < 4294967296" using uint_ge_0 [of x] uint_lt2p [of x] by simp_all
  have "sint x = (uint x + 2147483648) mod 4294967296 - 2147483648"
    by (simp add: sint_uint signed_take_bit_eq_take_bit_shift take_bit_eq_mod)
  with u show ?thesis
    using mod_once [of 4294967296 "uint x + 2147483648"] mod_pos_pos_trivial [of "uint x + 2147483648" 4294967296]
    by (cases "uint x < 2147483648") simp_all
qed

lemma uint_neg_sint: "sint (x :: uint32) < 0 \<Longrightarrow> uint (- x) = - sint x"
proof -
  assume n: "sint x < 0"
  have u: "0 \<le> uint x" "uint x < 4294967296" using uint_ge_0 [of x] uint_lt2p [of x] by simp_all
  have "uint (- x) = (4294967296 + - uint x) mod 4294967296" by (simp add: uint_word_ariths)
  also have "\<dots> = 4294967296 - uint x"
    using n u by (subst mod_pos_pos_trivial) (auto simp: sint_cases split: if_splits)
  finally show ?thesis using n by (simp add: sint_cases split: if_splits)
qed

lemma uint_nonneg_sint: "\<not> sint (x :: uint32) < 0 \<Longrightarrow> uint x = sint x"
  using uint_lt2p [of x] by (simp add: sint_cases split: if_splits)

section \<open>The screen\<close>

definition screen_ok :: "'z cmachine_scheme \<Rightarrow> bool" where
  "screen_ok s \<longleftrightarrow> length (crt s) = 25 * 80 \<and> cursor s < 24 * 80"

text \<open>The cells and the cursor after a character.\<close>

definition screen_after :: "int \<Rightarrow> 'z cmachine_scheme \<Rightarrow> ushort list \<times> int" where
  "screen_after c s =
     (let crt1 = (if c = 10 \<or> c = BACKSPACE then crt s
                  else (crt s)[nat (cursor s) := (of_int c AND 0xff) OR 0x0700]);
          p = cga_pos c (cursor s)
      in if p < 24 * 80 then (crt1[nat p := 0x0720], p)
         else ((take (nat (p - 80)) (take (23 * 80) (drop 80 crt1) @ drop (23 * 80) crt1) @
             replicate (nat (24 * 80 - (p - 80))) 0 @
             drop (24 * 80) (take (23 * 80) (drop 80 crt1) @ drop (23 * 80) crt1))[nat (p - 80) := 0x0720], p - 80))"

lemma cursor_nonneg: "0 \<le> cursor s"
  by (simp add: cursor_def)

lemma cga_pos_bounds: "0 \<le> p \<Longrightarrow> p < 1920 \<Longrightarrow> 0 \<le> cga_pos c p \<and> cga_pos c p \<le> 1920"
proof -
  assume p: "0 \<le> p" "p < 1920"
  have "p div 80 < 24" using p by simp
  then have "80 * (p div 80) \<le> 1840" by simp
  moreover have "p + (80 - p mod 80) = 80 * (p div 80) + 80"
    using minus_mod_eq_mult_div [of p 80] by simp
  ultimately show ?thesis using p by (auto simp: cga_pos_def)
qed

lemma cgaputc_eq:
  assumes "screen_ok s"
  shows "cgaputc c s = Ret () (s\<lparr>crt := fst (screen_after c s), crt14 := of_int (snd (screen_after c s) div 256),
      crt15 := of_int (snd (screen_after c s))\<rparr>)"
    and "length (fst (screen_after c s)) = 2000" and "0 \<le> snd (screen_after c s)" and "snd (screen_after c s) < 1920"
proof -
  define p where "p = cga_pos c (cursor s)"
  have p: "0 \<le> p" "p \<le> 1920"
    using cga_pos_bounds [of "cursor s" c] assms cursor_nonneg [of s] by (auto simp: screen_ok_def p_def)
  have d: "p div 80 \<ge> 24 \<longleftrightarrow> p = 1920"
  proof
    assume "24 \<le> p div 80"
    then show "p = 1920" using p mult_div_mod_eq [of 80 p] pos_mod_sign [of 80 p] by linarith
  qed simp
  show "0 \<le> snd (screen_after c s)" "snd (screen_after c s) < 1920"
    using p unfolding screen_after_def Let_def p_def [symmetric] by auto
  show "length (fst (screen_after c s)) = 2000"
    using p assms unfolding screen_after_def Let_def p_def [symmetric] screen_ok_def
    by (cases "p = 1920") auto
  show "cgaputc c s = Ret () (s\<lparr>crt := fst (screen_after c s), crt14 := of_int (snd (screen_after c s) div 256),
      crt15 := of_int (snd (screen_after c s))\<rparr>)"
    using p d unfolding screen_after_def cgaputc_def Let_def p_def [symmetric]
    by (cases "p = 1920") simp_all
qed

lemma cursor_written: "0 \<le> p \<Longrightarrow> p < 65536 \<Longrightarrow> cursor (s\<lparr>crt := cs, crt14 := of_int (p div 256), crt15 := of_int p\<rparr>) = p"
proof -
  assume p: "0 \<le> p" "p < 65536"
  then have "0 \<le> p div 256" "p div 256 < 256" by auto
  then have "uint (of_int (p div 256) :: uchar) = p div 256" by (simp add: uint_word_of_int take_bit_eq_mod)
  moreover have "uint (of_int p :: uchar) = p mod 256" by (simp add: uint_word_of_int take_bit_eq_mod)
  ultimately show ?thesis by (simp add: cursor_def)
qed

lemma screen_ok_cgaputc: "screen_ok s \<Longrightarrow> \<exists>t. cgaputc c s = Ret () t \<and> screen_ok t \<and> cursor t = snd (screen_after c s)"
  using cgaputc_eq [of s c]
    cursor_written [of "snd (screen_after c s)", where s = s and cs = "fst (screen_after c s)"] by (simp add: screen_ok_def)

section \<open>Line editing\<close>

text \<open>
  What the input ring stands for: the bytes \<open>committed\<close> that a reader can take and the line
  \<open>pending\<close> that is still being edited. \<open>edit\<close> is what a key does to them.
\<close>

definition window :: "uchar list \<Rightarrow> uint32 \<Rightarrow> nat \<Rightarrow> nat \<Rightarrow> uchar list" where
  "window buf r i j = map (\<lambda>k. buf ! ((unat r + k) mod 128)) [i..<j]"

definition committed :: "'z cmachine_scheme \<Rightarrow> uchar list" where
  "committed s = window (in_buf s) (in_r s) 0 (unat (in_w s - in_r s))"

definition pending :: "'z cmachine_scheme \<Rightarrow> uchar list" where
  "pending s = window (in_buf s) (in_r s) (unat (in_w s - in_r s)) (unat (in_e s - in_r s))"

definition input_ok :: "uchar list \<Rightarrow> uint32 \<Rightarrow> uint32 \<Rightarrow> uint32 \<Rightarrow> bool" where
  "input_ok buf r w e \<longleftrightarrow> length buf = 128 \<and> w - r \<le> e - r \<and> e - r \<le> INPUT_BUF"

definition line_ok :: "'z cmachine_scheme \<Rightarrow> bool" where
  "line_ok s \<longleftrightarrow> input_ok (in_buf s) (in_r s) (in_w s) (in_e s) \<and> 10 \<notin> set (pending s)"

definition edit :: "int \<Rightarrow> uchar list \<times> uchar list \<Rightarrow> uchar list \<times> uchar list" where
  "edit c ql =
     (let (q, l) = ql in
      if c = 16 then (q, l)
      else if c = 21 then (q, [])
      else if c = 8 \<or> c = 127 then (q, butlast l)
      else if c = 0 \<or> length q + length l \<ge> 128 then (q, l)
      else
        (let c = (if c = 13 then 10 else c); l = l @ [of_int c]
         in if c = 10 \<or> c = 4 \<or> length q + length l = 128 then (q @ l, []) else (q, l)))"

lemma ring_index: "unat ((r + of_nat k) mod INPUT_BUF) = (unat r + k) mod 128"
proof -
  have "unat (r + of_nat k) = (unat r + k) mod 2 ^ 32"
    by (simp add: unat_word_ariths unat_of_nat mod_add_right_eq)
  moreover have "(unat r + k) mod 2 ^ 32 mod 128 = (unat r + k) mod 128"
    by (rule mod_mod_cancel) (simp add: dvd_def exI [of _ "33554432 :: nat"])
  ultimately show ?thesis by (simp add: unat_mod)
qed

lemma ring_index_at: "unat (e mod INPUT_BUF) = (unat r + unat (e - r)) mod 128"
  using ring_index [of r "unat (e - r)"] by simp

lemma window_snoc:
  "length buf = 128 \<Longrightarrow> i \<le> j \<Longrightarrow> j < 128 \<Longrightarrow>
   window (buf[(unat r + j) mod 128 := c]) r i (Suc j) = window buf r i j @ [c]"
proof -
  assume b: "length buf = 128" and ij: "i \<le> j" and j: "j < 128"
  have "(unat r + k) mod 128 \<noteq> (unat r + j) mod 128" if "k < j" for k
  proof
    assume "(unat r + k) mod 128 = (unat r + j) mod 128"
    then have "(unat r + j) mod 128 = (unat r + k) mod 128" by simp
    then have "128 dvd (unat r + j) - (unat r + k)" using that by (simp add: mod_eq_dvd_iff_nat)
    then show False using that j by (simp add: nat_dvd_not_less)
  qed
  then have "window (buf[(unat r + j) mod 128 := c]) r i j = window buf r i j"
    by (simp add: window_def) (metis atLeastLessThan_iff nth_list_update_neq)
  then show ?thesis using ij b by (simp add: window_def)
qed

lemma window_append: "i \<le> j \<Longrightarrow> j \<le> k \<Longrightarrow> window buf r i j @ window buf r j k = window buf r i k"
  unfolding window_def map_append [symmetric] by (metis le_Suc_ex upt_add_eq_append)

lemma window_length [simp]: "length (window buf r i j) = j - i" "window buf r i i = []"
  by (simp_all add: window_def)

lemma window_butlast: "i < j \<Longrightarrow> window buf r i (j - 1) = butlast (window buf r i j)"
  by (cases j) (simp_all add: window_def)

lemma unat_pred: "x \<noteq> (0 :: uint32) \<Longrightarrow> unat (x - 1) = unat x - 1"
  by (simp add: unat_minus_one)

lemma kill_line_all:
  assumes "unat (w - r) \<le> unat (e - r)" and "10 \<notin> set (window buf r (unat (w - r)) (unat (e - r)))"
  shows "kill_line e w buf = unat (e - r) - unat (w - r)"
  using assms
proof (induction e w buf rule: kill_line.induct)
  case (1 e w buf)
  show ?case
  proof (cases "e = w")
    case True
    then show ?thesis by (subst kill_line.simps) simp
  next
    case False
    then have "w - r \<noteq> e - r" by simp
    then have "unat (w - r) \<noteq> unat (e - r)" by (simp add: word_unat_eq_iff)
    then have lt: "unat (w - r) < unat (e - r)" using 1(2) by simp
    then have pr: "unat (e - 1 - r) = unat (e - r) - 1"
      using unat_pred [of "e - r"] by (metis diff_right_commute gr_implies_not0 unat_0)
    have "buf ! unat ((e - 1) mod INPUT_BUF) \<in> set (window buf r (unat (w - r)) (unat (e - r)))"
      using lt by (auto simp: window_def ring_index_at [of "e - 1" r] pr intro!: image_eqI [of _ _ "unat (e - r) - 1"])
    then have ne: "buf ! unat ((e - 1) mod INPUT_BUF) \<noteq> 10" using 1(3) by metis
    have "set (window buf r (unat (w - r)) (unat (e - 1 - r))) \<subseteq> set (window buf r (unat (w - r)) (unat (e - r)))"
      unfolding pr by (auto simp: window_def)
    then have "10 \<notin> set (window buf r (unat (w - r)) (unat (e - 1 - r)))" using 1(3) by blast
    then have "kill_line (e - 1) w buf = unat (e - 1 - r) - unat (w - r)"
      using 1(1) False ne lt pr by simp
    then show ?thesis using False ne lt pr by (subst kill_line.simps) simp
  qed
qed

text \<open>Showing a character changes nothing but the screen and the serial line.\<close>

definition shown :: "'z cmachine_scheme \<Rightarrow> 'z cmachine_scheme \<Rightarrow> bool" where
  "shown s t \<longleftrightarrow> (\<exists>out cells a b. t = s\<lparr>uart_out := out, crt := cells, crt14 := a, crt15 := b\<rparr>) \<and> screen_ok t"

lemma uartputc_eq: "\<exists>out. uartputc c s = Ret () (s\<lparr>uart_out := out\<rparr>)"
proof (cases "uart s = 0")
  case True
  then show ?thesis by (intro exI [of _ "uart_out s"]) (simp add: uartputc_def condK_def)
next
  case False
  then show ?thesis by (intro exI [of _ "uart_out s @ [of_int c]"]) (simp add: uartputc_def condK_def)
qed

lemma screen_ok_uart [simp]: "screen_ok (s\<lparr>uart_out := u\<rparr>) = screen_ok s"
  by (simp add: screen_ok_def cursor_def)

lemma consputc_shown:
  fixes s :: "'z cmachine_scheme"
  assumes "screen_ok s" and "panicked s = 0"
  shows "\<exists>t. consputc c s = Ret () t \<and> shown s t"
proof -
  let ?u = "if c = BACKSPACE then thenK (uartputc 8) (thenK (uartputc 32) (uartputc 8)) else uartputc c"
  have "\<exists>out. ?u s = Ret () (s\<lparr>uart_out := out\<rparr>)"
  proof (cases "c = BACKSPACE")
    case True
    obtain o1 where o1: "uartputc 8 s = Ret () (s\<lparr>uart_out := o1\<rparr>)" using uartputc_eq by blast
    obtain o2 where o2: "uartputc 32 (s\<lparr>uart_out := o1\<rparr>) = Ret () (s\<lparr>uart_out := o2\<rparr>)"
      using uartputc_eq [of 32 "s\<lparr>uart_out := o1\<rparr>"] by auto
    obtain o3 where o3: "uartputc 8 (s\<lparr>uart_out := o2\<rparr>) = Ret () (s\<lparr>uart_out := o3\<rparr>)"
      using uartputc_eq [of 8 "s\<lparr>uart_out := o2\<rparr>"] by auto
    show ?thesis using True o1 o2 o3 by (intro exI [of _ o3]) (simp add: thenK_Ret)
  next
    case False
    then show ?thesis using uartputc_eq by simp
  qed
  then obtain out where u: "?u s = Ret () (s\<lparr>uart_out := out\<rparr>)" by blast
  let ?s = "s\<lparr>uart_out := out\<rparr>"
  have ok: "screen_ok ?s" using assms by simp
  note g = cgaputc_eq(1) [OF ok, of c]
  obtain t where t: "cgaputc c ?s = Ret () t" "screen_ok t" using screen_ok_cgaputc [OF ok, of c] by blast
  have "consputc c s = Ret () t" using u t assms(2) by (simp add: consputc_def thenK_Ret)
  moreover have "t = ?s\<lparr>crt := fst (screen_after c ?s), crt14 := of_int (snd (screen_after c ?s) div 256),
      crt15 := of_int (snd (screen_after c ?s))\<rparr>" using g t(1) by simp
  then have "t = s\<lparr>uart_out := out, crt := fst (screen_after c ?s), crt14 := of_int (snd (screen_after c ?s) div 256),
      crt15 := of_int (snd (screen_after c ?s))\<rparr>" by simp
  ultimately show ?thesis using t(2) unfolding shown_def by blast
qed

text \<open>The part of the state that the console input is.\<close>

definition in_part :: "'z cmachine_scheme \<Rightarrow> uchar list \<times> uint32 \<times> uint32 \<times> uint32 \<times> int" where
  "in_part s = (in_buf s, in_r s, in_w s, in_e s, panicked s)"

lemma shown_sel:
  assumes "shown s t"
  shows "in_part t = in_part s" "screen_ok t" "same_cpu c s t" "mem t = mem s" "procs t = procs s"
  using assms by (auto simp: shown_def in_part_def intro!: same_cpuI)

text \<open>
  \<open>typing c s t\<close>: between \<open>s\<close> and \<open>t\<close> the console code has run on CPU \<open>c\<close> and given back every lock it
  took on the way.
\<close>

definition typing :: "nat \<Rightarrow> 'z cmachine_scheme \<Rightarrow> 'z cmachine_scheme \<Rightarrow> bool" where
  "typing c s t \<longleftrightarrow> same_cpu c s t \<and> panicked t = 0 \<and> screen_ok t \<and> line_ok t"

lemma line_of_part: "in_part t = in_part s \<Longrightarrow> committed t = committed s \<and> pending t = pending s \<and> line_ok t = line_ok s"
  by (simp add: in_part_def committed_def pending_def line_ok_def)

lemma input_ok_nat:
  "input_ok buf r w e \<longleftrightarrow> length buf = 128 \<and> unat (w - r) \<le> unat (e - r) \<and> unat (e - r) \<le> 128"
  by (simp add: input_ok_def word_le_nat_alt)

lemma part_lengths:
  "input_ok (in_buf s) (in_r s) (in_w s) (in_e s) \<Longrightarrow>
   length (committed s) + length (pending s) = unat (in_e s - in_r s)"
  by (simp add: committed_def pending_def input_ok_nat)

lemma pending_empty_iff:
  assumes "line_ok s"
  shows "pending s = [] \<longleftrightarrow> in_e s = in_w s"
proof -
  have "unat (in_w s - in_r s) \<le> unat (in_e s - in_r s)" using assms by (simp add: line_ok_def input_ok_nat)
  then have "pending s = [] \<longleftrightarrow> unat (in_e s - in_r s) = unat (in_w s - in_r s)"
    by (auto simp: pending_def window_def)
  then show ?thesis by (simp add: word_unat_eq_iff [symmetric])
qed

lemma erase_line:
  assumes "line_ok s" and "in_e s \<noteq> in_w s"
  defines "t \<equiv> s\<lparr>in_e := in_e s - 1\<rparr>"
  shows "line_ok t" "committed t = committed s" "pending t = butlast (pending s)"
proof -
  have "in_w s - in_r s \<noteq> in_e s - in_r s" using assms(2) by simp
  then have "unat (in_w s - in_r s) \<noteq> unat (in_e s - in_r s)" by (simp add: word_unat_eq_iff)
  then have lt: "unat (in_w s - in_r s) < unat (in_e s - in_r s)" using assms(1) by (simp add: line_ok_def input_ok_nat)
  then have pr: "unat (in_e s - 1 - in_r s) = unat (in_e s - in_r s) - 1"
    using unat_pred [of "in_e s - in_r s"] by (metis diff_right_commute gr_implies_not0 unat_0)
  show "committed t = committed s" by (simp add: t_def committed_def)
  show p: "pending t = butlast (pending s)" using window_butlast [OF lt] by (simp add: t_def pending_def pr)
  have "10 \<notin> set (pending t)" unfolding p using assms(1) by (auto simp: line_ok_def dest: in_set_butlastD)
  moreover have "unat (in_w s - in_r s) \<le> unat (in_e s - in_r s) - 1" "unat (in_e s - in_r s) \<le> 128"
    using assms(1) lt by (simp_all add: line_ok_def input_ok_nat)
  ultimately show "line_ok t" using assms(1) by (simp add: line_ok_def t_def input_ok_nat pr)
qed

lemma erase_shown:
  assumes "typing c s0 s" and "in_e s \<noteq> in_w s"
  shows "\<exists>t. thenK (modifyK (\<lambda>s. s\<lparr>in_e := in_e s - 1\<rparr>)) (consputc BACKSPACE) s = Ret () t \<and> typing c s0 t \<and>
    committed t = committed s \<and> pending t = butlast (pending s) \<and> mem t = mem s"
proof -
  let ?s = "s\<lparr>in_e := in_e s - 1\<rparr>"
  have sc: "same_cpu c s0 ?s" using assms(1) by (auto simp: typing_def intro!: same_cpu_trans [of c s0 s] same_cpuI)
  have "screen_ok ?s" "panicked ?s = 0" using assms(1) by (simp_all add: typing_def screen_ok_def cursor_def)
  then obtain t where t: "consputc BACKSPACE ?s = Ret () t" "shown ?s t" using consputc_shown by blast
  have l: "line_ok ?s" "committed ?s = committed s" "pending ?s = butlast (pending s)"
    using erase_line [of s] assms by (simp_all add: typing_def)
  note sh = shown_sel [OF t(2)]
  have "typing c s0 t" using sh(1-3) l same_cpu_trans [OF sc sh(3)] line_of_part [OF sh(1)] assms(1)
    by (simp add: typing_def in_part_def)
  then show ?thesis using t(1) l line_of_part [OF sh(1)] sh(4) by (intro exI [of _ t]) simp
qed

lemma kill_shown:
  fixes ks :: "nat list"
  assumes "typing c s0 s" and "n \<le> length (pending s)" and "length ks = n"
  shows "\<exists>t. forK ks (\<lambda>k. thenK (modifyK (\<lambda>s. s\<lparr>in_e := in_e s - 1\<rparr>)) (consputc BACKSPACE)) s = Ret () t \<and>
    typing c s0 t \<and> committed t = committed s \<and> pending t = take (length (pending s) - n) (pending s) \<and> mem t = mem s"
  using assms
proof (induction ks arbitrary: s n)
  case Nil
  then show ?case by (intro exI [of _ s]) simp
next
  case (Cons k ks)
  then have ne: "pending s \<noteq> []" by auto
  then have "in_e s \<noteq> in_w s" using pending_empty_iff [of s] Cons.prems(1) by (simp add: typing_def)
  from erase_shown [OF Cons.prems(1) this] obtain u where
    u: "thenK (modifyK (\<lambda>s. s\<lparr>in_e := in_e s - 1\<rparr>)) (consputc BACKSPACE) s = Ret () u" "typing c s0 u"
      "committed u = committed s" "pending u = butlast (pending s)" "mem u = mem s" by blast
  have "length ks \<le> length (pending u)" using Cons.prems(2,3) u(4) by simp
  from Cons.IH [OF u(2) this refl] obtain t where
    t: "forK ks (\<lambda>k. thenK (modifyK (\<lambda>s. s\<lparr>in_e := in_e s - 1\<rparr>)) (consputc BACKSPACE)) u = Ret () t"
      "typing c s0 t" "committed t = committed u" "pending t = take (length (pending u) - length ks) (pending u)" "mem t = mem u"
    by blast
  have "take (length (pending u) - length ks) (pending u) = take (length (pending s) - n) (pending s)"
    using Cons.prems(2,3) u(4) by (simp add: take_butlast)
  moreover have "forK (k # ks) (\<lambda>k. thenK (modifyK (\<lambda>s. s\<lparr>in_e := in_e s - 1\<rparr>)) (consputc BACKSPACE)) s = Ret () t"
    unfolding forK.simps by (subst thenK_Ret [where s = s and s' = u and x = "()"]) (rule u(1), rule t(1))
  ultimately show ?case using t(2-5) u(3,5) by metis
qed

lemma unat_succ: "unat (x :: uint32) < 128 \<Longrightarrow> unat (x + 1) = Suc (unat x)"
  by (simp add: unat_word_ariths)

lemma type_line:
  fixes s :: "'z cmachine_scheme" and x :: uchar
  assumes "line_ok s" and "in_e s - in_r s < INPUT_BUF"
  defines "t \<equiv> s\<lparr>in_buf := (in_buf s)[unat (in_e s mod INPUT_BUF) := x], in_e := in_e s + 1\<rparr>"
  shows "input_ok (in_buf t) (in_r t) (in_w t) (in_e t)" "committed t = committed s" "pending t = pending s @ [x]"
proof -
  let ?a = "unat (in_w s - in_r s)" and ?b = "unat (in_e s - in_r s)"
  have b: "?a \<le> ?b" "?b < 128" "length (in_buf s) = 128"
    using assms(1,2) by (simp_all add: line_ok_def input_ok_nat word_less_nat_alt)
  have "in_e s + 1 - in_r s = in_e s - in_r s + 1" by simp
  then have e: "unat (in_e s + 1 - in_r s) = Suc ?b" using unat_succ [OF b(2)] by metis
  have i: "unat (in_e s mod INPUT_BUF) = (unat (in_r s) + ?b) mod 128" by (rule ring_index_at)
  have w: "window (in_buf t) (in_r s) k (Suc ?b) = window (in_buf s) (in_r s) k ?b @ [x]" if "k \<le> ?b" for k
    unfolding t_def using window_snoc [OF b(3) that b(2)] by (simp add: i)
  show "pending t = pending s @ [x]" using w [OF b(1)] by (simp add: pending_def t_def e)
  have "window (in_buf t) (in_r s) 0 ?a @ window (in_buf t) (in_r s) ?a (Suc ?b)
      = window (in_buf s) (in_r s) 0 ?a @ window (in_buf s) (in_r s) ?a ?b @ [x]"
    using w [of 0] b(1) by (simp add: window_append flip: append_assoc)
  then show "committed t = committed s" by (simp add: committed_def t_def)
  show "input_ok (in_buf t) (in_r t) (in_w t) (in_e t)" using b e by (simp add: t_def input_ok_nat)
qed

lemma commit_line:
  assumes "input_ok (in_buf s) (in_r s) (in_w s) (in_e s)"
  defines "t \<equiv> s\<lparr>in_w := in_e s\<rparr>"
  shows "line_ok t" "committed t = committed s @ pending s" "pending t = []"
proof -
  have "unat (in_w s - in_r s) \<le> unat (in_e s - in_r s)" using assms(1) by (simp add: input_ok_nat)
  then show "committed t = committed s @ pending s"
    by (simp add: t_def committed_def pending_def window_append)
  show "pending t = []" by (simp add: t_def pending_def)
  then show "line_ok t" using assms(1) by (simp add: t_def line_ok_def input_ok_nat)
qed

text \<open>The wakeup of the readers: it changes the process table only.\<close>

lemma in_part_machine: "machine.more t = machine.more (s\<lparr>procs := ps\<rparr>) \<Longrightarrow> in_part t = in_part s \<and> screen_ok t = screen_ok s"
  by (cases s; cases t) (simp add: in_part_def screen_ok_def cursor_def)

lemma wakeup_input:
  assumes "typing c s0 s" and "cpu_ok c s0" and "lock_free PtableLock s0"
  shows "\<exists>t. wakeup ChanInput s = Ret () t \<and> typing c s0 t \<and> committed t = committed s \<and> pending t = pending s"
proof -
  have sc: "same_cpu c s0 s" using assms(1) by (simp add: typing_def)
  have "cpu_ok c s" "lock_free PtableLock s"
    using cpu_ok_same_cpu [OF sc assms(2)] lock_free_same_cpu [OF sc] assms(3) by simp_all
  from wakeup_eq [OF this, of ChanInput] obtain t where t: "wakeup ChanInput s = Ret () t"
    "only_procs c s t (map (woken (Some ChanInput)) (procs s))" by blast
  then have p: "in_part t = in_part s \<and> screen_ok t = screen_ok s" and sc': "same_cpu c s t"
    using in_part_machine [where t = t and s = s and ps = "map (woken (Some ChanInput)) (procs s)"] by (simp_all add: only_procs_def)
  have "typing c s0 t" using assms(1) p same_cpu_trans [OF sc sc'] line_of_part [of t s]
    by (simp add: typing_def in_part_def)
  then show ?thesis using t(1) p line_of_part [of t s] by blast
qed

lemma word_full: "(e :: uint32) = r + INPUT_BUF \<longleftrightarrow> unat (e - r) = 128"
proof -
  have "unat (e - r) = 128 \<longleftrightarrow> e - r = 128" using word_unat_eq_iff [of "e - r" 128] by simp
  then show ?thesis by (auto simp: algebra_simps)
qed

definition insert_char :: "int \<Rightarrow> 'z cmachine_scheme \<Rightarrow> 'z cmachine_scheme" where
  "insert_char c s = s\<lparr>in_buf := (in_buf s)[unat (in_e s mod INPUT_BUF) := of_int c], in_e := in_e s + 1\<rparr>"

definition finish_char :: "int \<Rightarrow> (unit, 'z cmachine_scheme) kern" where
  "finish_char c =
     thenK (consputc c)
     (condK (\<lambda>s. c = 10 \<or> c = 4 \<or> in_e s = in_r s + INPUT_BUF)
       (thenK (modifyK (\<lambda>s. s\<lparr>in_w := in_e s\<rparr>)) (wakeup ChanInput)))"

lemma finish_char_eq:
  assumes "same_cpu c s0 s" and "panicked s = 0" and "screen_ok s" and "input_ok (in_buf s) (in_r s) (in_w s) (in_e s)"
    and "line_ok s \<or> x = 10 \<or> x = 4" and "cpu_ok c s0" and "lock_free PtableLock s0"
  shows "\<exists>t. finish_char x s = Ret () t \<and> typing c s0 t \<and>
    (committed t, pending t) = (if x = 10 \<or> x = 4 \<or> length (committed s) + length (pending s) = 128
      then (committed s @ pending s, []) else (committed s, pending s))"
proof -
  obtain u where u: "consputc x s = Ret () u" "shown s u" using consputc_shown [OF assms(3,2)] by blast
  note sh = shown_sel [OF u(2)]
  have sc: "same_cpu c s0 u" by (rule same_cpu_trans [OF assms(1) sh(3)])
  note lp = line_of_part [OF sh(1)]
  have full: "in_e u = in_r u + INPUT_BUF \<longleftrightarrow> length (committed s) + length (pending s) = 128"
    using part_lengths [OF assms(4)] sh(1) word_full [of "in_e s" "in_r s"] by (simp add: in_part_def)
  show ?thesis
  proof (cases "x = 10 \<or> x = 4 \<or> in_e u = in_r u + INPUT_BUF")
    case True
    let ?v = "u\<lparr>in_w := in_e u\<rparr>"
    have i: "input_ok (in_buf u) (in_r u) (in_w u) (in_e u)" using assms(4) sh(1) by (simp add: in_part_def)
    note cl = commit_line [OF i]
    have "same_cpu c s0 ?v" by (rule same_cpu_trans [OF sc]) (rule same_cpuI; simp)
    then have "typing c s0 ?v" using assms(2) sh(1,2) cl(1) by (simp add: typing_def in_part_def screen_ok_def cursor_def)
    from wakeup_input [OF this assms(6,7)] obtain t where
      t: "wakeup ChanInput ?v = Ret () t" "typing c s0 t" "committed t = committed ?v" "pending t = pending ?v" by blast
    have "finish_char x s = Ret () t" using u(1) t(1) True by (simp add: finish_char_def thenK_Ret condK_def)
    then show ?thesis using t cl lp True full by (intro exI [of _ t]) auto
  next
    case False
    then have "finish_char x s = Ret () u" using u(1) by (simp add: finish_char_def thenK_Ret condK_def)
    moreover have "typing c s0 u" using False assms(2,5) sh(1,2) sc lp by (simp add: typing_def in_part_def)
    ultimately show ?thesis using False full lp by (intro exI [of _ u]) auto
  qed
qed

lemma consoleintr_char_type:
  "x \<noteq> 21 \<Longrightarrow> x \<noteq> 8 \<Longrightarrow> x \<noteq> 127 \<Longrightarrow> x \<noteq> 0 \<Longrightarrow> in_e s - in_r s < INPUT_BUF \<Longrightarrow>
   consoleintr_char x s = finish_char (if x = 13 then 10 else x) (insert_char (if x = 13 then 10 else x) s)"
  by (simp add: consoleintr_char_def condK_def Let_def finish_char_def insert_char_def)

lemma insert_char_eq:
  fixes s :: "'z cmachine_scheme" and x :: int
  assumes "typing c s0 s" and "in_e s - in_r s < INPUT_BUF"
  defines "t \<equiv> insert_char x s"
  shows "same_cpu c s0 t" "panicked t = 0" "screen_ok t" "input_ok (in_buf t) (in_r t) (in_w t) (in_e t)"
    "committed t = committed s" "pending t = pending s @ [of_int x]"
proof -
  have l: "line_ok s" using assms(1) by (simp add: typing_def)
  show "input_ok (in_buf t) (in_r t) (in_w t) (in_e t)" "committed t = committed s" "pending t = pending s @ [of_int x]"
    using type_line [OF l assms(2), of "of_int x"] unfolding t_def insert_char_def by simp_all
  have "same_cpu c s t" unfolding t_def insert_char_def by (rule same_cpuI) simp_all
  then show "same_cpu c s0 t" using assms(1) by (auto simp: typing_def intro: same_cpu_trans)
  show "panicked t = 0" "screen_ok t" using assms(1) by (simp_all add: t_def insert_char_def typing_def screen_ok_def cursor_def)
qed

lemma of_int_newline: "0 \<le> x \<Longrightarrow> x < 256 \<Longrightarrow> (of_int x :: uchar) = 10 \<longleftrightarrow> x = 10"
proof -
  assume "0 \<le> x" "x < 256"
  then have "uint (of_int x :: uchar) = x" by (simp add: uint_word_of_int take_bit_eq_mod)
  then show ?thesis by (simp add: word_uint_eq_iff)
qed

lemma consoleintr_char_eq:
  assumes "typing c s0 s" and "cpu_ok c s0" and "lock_free PtableLock s0" and "0 \<le> x" and "x < 256" and "x \<noteq> 16"
  shows "\<exists>t. consoleintr_char x s = Ret () t \<and> typing c s0 t \<and>
    (committed t, pending t) = edit x (committed s, pending s)"
proof -
  have l: "line_ok s" using assms(1) by (simp add: typing_def)
  then have io: "input_ok (in_buf s) (in_r s) (in_w s) (in_e s)" by (simp add: line_ok_def)
  consider (kill) "x = 21" | (erase) "x = 8 \<or> x = 127" | (drop) "x \<notin> {21, 8, 127}" "x = 0 \<or> \<not> in_e s - in_r s < INPUT_BUF"
    | (char) "x \<notin> {21, 8, 127}" "x \<noteq> 0" "in_e s - in_r s < INPUT_BUF" by blast
  then show ?thesis
  proof cases
    case kill
    have n: "kill_line (in_e s) (in_w s) (in_buf s) = length (pending s)"
      using kill_line_all [of "in_w s" "in_r s" "in_e s" "in_buf s"] l
      by (simp add: line_ok_def input_ok_nat pending_def)
    obtain t where t: "forK [0..<length (pending s)] (\<lambda>k. thenK (modifyK (\<lambda>s. s\<lparr>in_e := in_e s - 1\<rparr>)) (consputc BACKSPACE)) s = Ret () t"
      "typing c s0 t" "committed t = committed s" "pending t = take (length (pending s) - length (pending s)) (pending s)"
      using kill_shown [OF assms(1) order_refl, of "[0..<length (pending s)]"] by auto
    have "consoleintr_char x s = Ret () t" using kill t(1) by (simp only: consoleintr_char_def simp_thms if_True bindK_pure n)
    then show ?thesis using t(2-4) kill by (simp add: edit_def)
  next
    case erase
    then have e: "consoleintr_char x s = condK (\<lambda>s. in_e s \<noteq> in_w s)
          (thenK (modifyK (\<lambda>s. s\<lparr>in_e := in_e s - 1\<rparr>)) (consputc BACKSPACE)) s"
      by (auto simp: consoleintr_char_def)
    have ed: "edit x (committed s, pending s) = (committed s, butlast (pending s))" using erase by (auto simp: edit_def)
    show ?thesis
    proof (cases "in_e s = in_w s")
      case True
      then have "pending s = []" using pending_empty_iff [OF l] by simp
      then show ?thesis using True assms(1) unfolding e ed by (simp add: condK_def)
    next
      case False
      then show ?thesis using erase_shown [OF assms(1) False] unfolding e ed condK_def by auto
    qed
  next
    case drop
    have "x = 0 \<or> 128 \<le> length (committed s) + length (pending s)"
      using drop(2) part_lengths [OF io] by (auto simp: word_less_nat_alt)
    then have "edit x (committed s, pending s) = (committed s, pending s)" using drop(1) assms(6) by (auto simp: edit_def)
    moreover have "consoleintr_char x s = Ret () s" using drop by (auto simp: consoleintr_char_def condK_def)
    ultimately show ?thesis using assms(1) by simp
  next
    case char
    define y where "y = (if x = 13 then 10 else x)"
    let ?s = "insert_char y s"
    note ic = insert_char_eq [OF assms(1) char(3), of y]
    have y: "0 \<le> y" "y < 256" using assms(4,5) by (auto simp: y_def)
    have "line_ok ?s \<or> y = 10 \<or> y = 4"
      using ic(4,6) l of_int_newline [OF y] by (auto simp: line_ok_def)
    from finish_char_eq [OF ic(1-4) this assms(2,3)] obtain t where
      t: "finish_char y ?s = Ret () t" "typing c s0 t" "(committed t, pending t) =
        (if y = 10 \<or> y = 4 \<or> length (committed ?s) + length (pending ?s) = 128
         then (committed ?s @ pending ?s, []) else (committed ?s, pending ?s))" by blast
    have "length (committed s) + length (pending s) < 128"
      using char(3) part_lengths [OF io] by (simp add: word_less_nat_alt)
    then have "edit x (committed s, pending s) = (committed t, pending t)"
      using t(3) ic(5,6) char assms(6) unfolding edit_def Let_def y_def [symmetric] by (simp add: y_def)
    moreover have "consoleintr_char x s = Ret () t"
      using consoleintr_char_type [of x s] char t(1) by (simp add: y_def)
    ultimately show ?thesis using t(2) by auto
  qed
qed

lemma consoleintr_keys:
  assumes "typing c s0 s" and "cpu_ok c s0" and "lock_free PtableLock s0" and "\<forall>x\<in>set cs. 0 \<le> x \<and> x < 256"
  shows "\<exists>t. forK cs (\<lambda>x. if x = 16 then retK () else consoleintr_char x) s = Ret () t \<and> typing c s0 t \<and>
    (committed t, pending t) = fold edit cs (committed s, pending s)"
  using assms
proof (induction cs arbitrary: s)
  case (Cons x cs)
  obtain u where u: "(if x = 16 then retK () else consoleintr_char x) s = Ret () u" "typing c s0 u"
      "(committed u, pending u) = edit x (committed s, pending s)"
  proof (cases "x = 16")
    case True
    then show ?thesis using that [of s] Cons.prems(1) by (simp add: edit_def)
  next
    case False
    then show ?thesis using that consoleintr_char_eq [OF Cons.prems(1-3), of x] Cons.prems(4) by auto
  qed
  from Cons.IH [OF u(2) Cons.prems(2,3)] Cons.prems(4) obtain t where
    t: "forK cs (\<lambda>x. if x = 16 then retK () else consoleintr_char x) u = Ret () t" "typing c s0 t"
      "(committed t, pending t) = fold edit cs (committed u, pending u)" by auto
  have "forK (x # cs) (\<lambda>x. if x = 16 then retK () else consoleintr_char x) s = Ret () t"
    unfolding forK.simps by (subst thenK_Ret [where s = s and s' = u and x = "()"]) (rule u(1), rule t(1))
  then show ?case using t(2,3) u(3) by auto
qed simp

text \<open>The listing of processes only prints.\<close>

lemma forK_prints:
  "(\<And>x s. \<exists>out. f x s = Ret () (s\<lparr>kout := out\<rparr>)) \<Longrightarrow> \<exists>out. forK xs f s = Ret () (s\<lparr>kout := out\<rparr>)"
proof (induction xs arbitrary: s)
  case Nil
  show ?case by (intro exI [of _ "kout s"]) simp
next
  case (Cons x xs)
  obtain o1 where o1: "f x s = Ret () (s\<lparr>kout := o1\<rparr>)" using Cons.prems by blast
  obtain o2 where "forK xs f (s\<lparr>kout := o1\<rparr>) = Ret () (s\<lparr>kout := o1, kout := o2\<rparr>)" using Cons by blast
  then show ?case by (intro exI [of _ o2]) (simp add: thenK_def bindK_def o1)
qed

lemma procdump_prints: "\<exists>out. procdump s = Ret () (s\<lparr>kout := out\<rparr>)"
proof -
  have "\<exists>out. procdump_one p s = Ret () (s\<lparr>kout := out\<rparr>)" for p and s :: "'a pmachine_scheme"
  proof (cases "pstate p = UNUSED")
    case True
    then show ?thesis by (intro exI [of _ "kout s"]) (simp add: procdump_one_def)
  next
    case False
    let ?s = "s\<lparr>kout := kout s @ [(''%d %s %s'', [PInt (pid p), PStr (chars (state_name (pstate p))), PStr (pname p)])]\<rparr>"
    have "\<exists>out. whenK (pstate p = SLEEPING)
        (bindK (getsK (\<lambda>s. getcallerpcs (mem s) (load32 (mem s) (ctx p + 12) + 8)))
         (\<lambda>pc. forK (takeWhile (\<lambda>x. x \<noteq> 0) pc) (\<lambda>x. cprint '' %p'' [PPtr x]))) ?s = Ret () (s\<lparr>kout := out\<rparr>)"
    proof (cases "pstate p = SLEEPING")
      case True
      have "\<exists>out. forK xs (\<lambda>x. cprint '' %p'' [PPtr x]) ?s = Ret () (?s\<lparr>kout := out\<rparr>)" for xs
        by (rule forK_prints) (auto simp: cprint_def)
      then show ?thesis using True by simp
    qed (auto simp: whenK_def)
    then show ?thesis using False by (auto simp: procdump_one_def cprint_def thenK_Ret)
  qed
  then show ?thesis by (simp add: procdump_def forK_prints)
qed

lemma in_part_kout: "in_part (s\<lparr>kout := out\<rparr>) = in_part s"
  by (simp add: in_part_def)

lemma console_of_machine: "machine.more t = machine.more s \<Longrightarrow> in_part t = in_part s \<and> screen_ok t = screen_ok s"
  by (cases s; cases t) (simp add: in_part_def screen_ok_def cursor_def)

lemma in_part_lock:
  "in_part (took c l s) = in_part s" "in_part (dropped c l s) = in_part s"
  "screen_ok (took c l s) = screen_ok s" "screen_ok (dropped c l s) = screen_ok s"
  using console_of_machine [of "took c l s" s] console_of_machine [of "dropped c l s" s] by simp_all

lemma consoleintr_eq:
  fixes s :: "'z cmachine_scheme"
  assumes ok: "cpu_ok c s" "lock_free ConsLock s" "lock_free PtableLock s"
    and st: "panicked s = 0" "screen_ok s" "line_ok s" and cs: "\<forall>x\<in>set cs. 0 \<le> x \<and> x < 256"
  shows "\<exists>t. consoleintr cs s = Ret () t \<and> same_cpu c s t \<and> line_ok t \<and> screen_ok t \<and>
    (committed t, pending t) = fold edit cs (committed s, pending s)"
proof -
  let ?s1 = "took c ConsLock s"
  note p1 = line_of_part [OF in_part_lock(1) [of c ConsLock s]]
  have s1: "typing c ?s1 ?s1" using st p1 in_part_lock(1,3) [of c ConsLock s] by (simp add: typing_def in_part_def)
  have "lock_free PtableLock ?s1" using ok(3) by (simp add: lock_free_took)
  from consoleintr_keys [OF s1 cpu_ok_took [OF ok(1)] this cs] obtain u where
    u: "forK cs (\<lambda>x. if x = 16 then retK () else consoleintr_char x) ?s1 = Ret () u" "typing c ?s1 u"
      "(committed u, pending u) = fold edit cs (committed s, pending s)" using p1 by auto
  have sc: "same_cpu c ?s1 u" using u(2) by (simp add: typing_def)
  let ?v = "dropped c ConsLock u"
  have a: "acquire ConsLock s = Ret () ?s1" using acquire_free [OF ok(1)] ok(2) by (simp add: lock_free_def)
  have r: "release ConsLock u = Ret () ?v" by (rule release_owned [OF owns_same_cpu [OF sc owns_took [OF ok(1)]]])
  obtain out where pd: "whenK (16 \<in> set cs) procdump ?v = Ret () (?v\<lparr>kout := out\<rparr>)"
  proof (cases "16 \<in> set cs")
    case True
    then show ?thesis using that procdump_prints [of ?v] by auto
  next
    case False
    then show ?thesis using that [of "kout ?v"] by simp
  qed
  let ?t = "?v\<lparr>kout := out\<rparr>"
  have "consoleintr cs s = Ret () ?t"
    unfolding consoleintr_def by (simp only: thenK_def bindK_def a u(1) r pd outcome.case)
  moreover have "same_cpu c s ?t"
    by (rule same_cpu_trans [OF same_cpu_dropped [OF ok(1,2) sc]]) (rule same_cpuI; simp)
  moreover have "in_part ?t = in_part u" by (simp add: in_part_kout in_part_lock)
  then have "committed ?t = committed u" "pending ?t = pending u" "line_ok ?t = line_ok u"
    using line_of_part [of ?t u] by simp_all
  moreover have "screen_ok ?t = screen_ok ?v" by (simp add: screen_ok_def cursor_def)
  then have "screen_ok ?t" using u(2) in_part_lock(4) [of c ConsLock u] by (simp add: typing_def)
  ultimately show ?thesis using u(2,3) by (intro exI [of _ ?t]) (simp add: typing_def)
qed

section \<open>Main properties\<close>

text \<open>
  C34. What \<^verbatim>\<open>cprintf\<close> prints for \<^verbatim>\<open>%d\<close> reads back as the signed number, the most negative one included,
  and what it prints for \<^verbatim>\<open>%x\<close> and \<^verbatim>\<open>%p\<close> as the unsigned one. Both fit the buffer of sixteen
  characters that \<^verbatim>\<open>printint\<close> has on its stack.
\<close>

theorem printint_round_trip:
  "parse_int 10 (printint x 10 True) = sint x \<and> parse_int 16 (printint x 16 False) = uint x \<and>
   length (printint_buf x 10 True) \<le> 16 \<and> length (printint_buf x 16 False) \<le> 16"
proof (intro conjI)
  have l: "length (digits_rev y 10) \<le> Suc 9" for y
    by (rule digits_rev_length) (use unsigned_less [of y, where 'a = nat] in simp_all)
  have p: "parse_num 10 (rev (map digit_char (digits_rev y 10))) = unat y"
    "hd (rev (map digit_char (digits_rev y 10))) \<noteq> 45" for y
    using parse_printed [of 10 y] by simp_all
  show "parse_int 10 (printint x 10 True) = sint x"
    using p by (cases "sint x < 0")
      (simp_all add: parse_int_def printint_def printint_buf_def uint_neg_sint uint_nonneg_sint)
  show "length (printint_buf x 10 True) \<le> 16"
    using l [of x] l [of "- x"] by (simp add: printint_buf_def Let_def)
  have "length (digits_rev x 16) \<le> Suc 7"
    by (rule digits_rev_length) (use unsigned_less [of x, where 'a = nat] in simp_all)
  then show "length (printint_buf x 16 False) \<le> 16" by (simp add: printint_buf_def)
  show "parse_int 16 (printint x 16 False) = uint x"
    using parse_printed [of 16 x] by (simp add: parse_int_def printint_def printint_buf_def)
qed



text \<open>
  C16. Line editing: the input ring with its three indices is, whatever their values, a queue of
  finished bytes followed by the line being edited. The interrupt handler does to them what
  each key says: erase the last character or the whole line, append to the line while
  there is room, and finish the line on a newline, an end-of-file key or a full ring. A reader sees only
  finished bytes, and erasing never reaches into them.
\<close>

theorem console_line_editing:
  assumes "cpu_ok c s" and "lock_free ConsLock s" and "lock_free PtableLock s" and "panicked s = 0"
    and "screen_ok s" and "line_ok s" and "\<forall>x\<in>set cs. 0 \<le> x \<and> x < 256"
  shows "\<exists>t. consoleintr cs s = Ret () t \<and> same_cpu c s t \<and> line_ok t \<and> screen_ok t \<and>
    (committed t, pending t) = fold edit cs (committed s, pending s)"
  by (rule consoleintr_eq [OF assms])

lemma booted_console: "screen_ok booted" "line_ok booted" "committed booted = []" "pending booted = []"
  by (simp_all add: screen_ok_def cursor_def line_ok_def input_ok_def committed_def pending_def)

text \<open>Typing \<^verbatim>\<open>ab\<close>, erasing the last character, then \<^verbatim>\<open>c\<close> and return.\<close>

theorem console_line_editing_witness:
  "\<exists>t. consoleintr [97, 98, 8, 99, 13] booted = Ret () t \<and> committed t = [97, 99, 10] \<and> pending t = []"
proof -
  obtain t where "consoleintr [97, 98, 8, 99, 13] booted = Ret () t"
    "(committed t, pending t) = fold edit [97, 98, 8, 99, 13] (committed booted, pending booted)"
    using console_line_editing [OF booted_ok(1) booted_ok(2) booted_ok(2) _ booted_console(1,2), of "[97, 98, 8, 99, 13]"]
    by auto
  then show ?thesis by (simp add: booted_console edit_def)
qed

end
