(* ===== verification/Kernel_Keep.thy ===== *)
theory Kernel_Keep
  imports Console_Inv
begin

text \<open>
  The invariant of the whole kernel: the process table is well formed, every fixed-size table has
  its size, the rings of the pipes and of the console hold at most what fits, the log header
  stays within its array, reference counts of files do not go below 0 and the cursor is on the
  screen. Every system call, interrupt and fault keeps it, in every outcome.
\<close>

section \<open>The invariant\<close>

definition pipe_ok :: "pipe \<Rightarrow> bool" where
  "pipe_ok q \<longleftrightarrow> length (pdata q) = 512 \<and> nwrite q - nread q \<le> PIPESIZE"

definition log_ok :: "log_struct \<Rightarrow> bool" where
  "log_ok l \<longleftrightarrow> lh_n (lh l) \<le> int LOGSIZE \<and> length (lh_block (lh l)) = LOGSIZE"

definition data_ok :: "'z cmachine_scheme \<Rightarrow> bool" where
  "data_ok s \<longleftrightarrow> length (bufs s) = NBUF \<and> length (inodes s) = NINODE \<and> length (ftable s) = NFILE \<and>
     (\<forall>f\<in>set (ftable s). 0 \<le> fref f) \<and> (\<forall>p. pipe_ok (pipes s p)) \<and> log_ok (log s) \<and>
     input_ok (in_buf s) (in_r s) (in_w s) (in_e s) \<and> screen_ok s"

definition kernel_ok :: "'z cmachine_scheme \<Rightarrow> bool" where
  "kernel_ok s \<longleftrightarrow> table_ok s \<and> data_ok s"

section \<open>What the process code leaves alone\<close>

text \<open>\<open>above I\<close>: \<open>I\<close> looks only at the part of the state that the file system and the devices add.\<close>

definition above :: "('z pmachine_scheme \<Rightarrow> bool) \<Rightarrow> bool" where
  "above I \<longleftrightarrow> (\<forall>s t. pmachine.more t = pmachine.more s \<longrightarrow> I s \<longrightarrow> I t)"

lemma pmachine_more: "vmachine.more t = vmachine.more s \<Longrightarrow> pmachine.more t = pmachine.more s"
  by (cases s; cases t) simp

lemma above_step: "above I \<Longrightarrow> pmachine.more t = pmachine.more s \<Longrightarrow> I s \<Longrightarrow> I t"
  unfolding above_def by blast

lemma above_blind [blind_keep]:
  assumes "above I"
  shows "procs_blind I"
  unfolding procs_blind_def tables_only_def
proof (intro conjI allI impI)
  fix s t :: "'a pmachine_scheme" and ps
  show "I s \<Longrightarrow> I (s\<lparr>procs := ps\<rparr>)" by (rule above_step [OF assms]) simp_all
  assume e: "vmachine.more t = vmachine.more s"
  show "I s = I t"
    using above_step [OF assms pmachine_more [OF e]] above_step [OF assms pmachine_more [OF e [symmetric]]] by blast
qed

lemma keep_above_modify [blind_keep]:
  "above I \<Longrightarrow> (\<And>s. pmachine.more (h s) = pmachine.more s) \<Longrightarrow> preservesK I (modifyK h)"
  by (rule preservesK_modifyK) (rule above_step)

lemma keep_above_alloc [blind_keep]:
  assumes a: "above I"
  shows "preservesK I allocproc" "preservesK I (growproc n)" "preservesK I (kill n)" "preservesK I (change_tickets n k)"
proof -
  note b = blind_keep procs_blindD(1) [OF above_blind [OF a]]
  show "preservesK I allocproc"
    unfolding allocproc_def by (intro keep_intros b a; rule above_step [OF a]; simp add: upd_proc_def Let_def)
  show "preservesK I (growproc n)" "preservesK I (kill n)" "preservesK I (change_tickets n k)"
    unfolding growproc_def kill_def change_tickets_def by (intro keep_intros b a)+
qed

lemma keep_above_wait [blind_keep]:
  assumes a: "above I"
  shows "preservesK I (wait_iter c)" "preservesK I wait" "preservesK I (wait_resume c)"
    "preservesK I (join_iter st c)" "preservesK I (join st)" "preservesK I (join_resume st c)"
proof -
  note b = blind_keep procs_blindD(1) [OF above_blind [OF a]]
  show w: "preservesK I (wait_iter c)" and j: "preservesK I (join_iter st c)" for st c
    unfolding wait_iter_def join_iter_def by (intro keep_intros b a)+
  show "preservesK I wait" "preservesK I (wait_resume c)" "preservesK I (join st)" "preservesK I (join_resume st c)"
    unfolding wait_def wait_resume_def join_def join_resume_def by (intro keep_intros b a w j)+
qed

lemma keep_above_sync [blind_keep]:
  assumes a: "above I"
  shows "preservesK I mutex_init" "preservesK I (mutex_lock n)" "preservesK I (mutex_lock_resume c j)"
    "preservesK I (mutex_unlock n)" "preservesK I (barrier_init k)" "preservesK I barrier_lock"
    "preservesK I (barrier_lock_resume c)"
proof -
  note b = blind_keep procs_blindD(1) [OF above_blind [OF a]]
  have w: "preservesK I (mutex_wait j)" "preservesK I barrier_wait" for j
    unfolding mutex_wait_def barrier_wait_def by (intro keep_intros b a; simp add: upd_mutex_def)+
  show "preservesK I mutex_init" "preservesK I (mutex_lock n)" "preservesK I (mutex_lock_resume c j)"
    "preservesK I (mutex_unlock n)" "preservesK I barrier_lock" "preservesK I (barrier_lock_resume c)"
    "preservesK I (barrier_init k)"
    unfolding mutex_init_def mutex_lock_def mutex_lock_resume_def mutex_unlock_def barrier_lock_def
      barrier_lock_resume_def barrier_init_def
    by (intro keep_intros b a w; rule above_step [OF a]; simp add: upd_mutex_def initlock_def wakeup1_def)+
qed

text \<open>The mutexes, the barrier and the tickets do not touch process ids.\<close>

lemma table_ok_other [simp]:
  "table_ok (s\<lparr>mutexes := ms\<rparr>) = table_ok s" "table_ok (s\<lparr>nextmid := n\<rparr>) = table_ok s"
  "table_ok (s\<lparr>bcount := k\<rparr>) = table_ok s" "table_ok (s\<lparr>proc_count := k\<rparr>) = table_ok s"
  "table_ok (upd_mutex i f s) = table_ok s" "table_ok (s\<lparr>initproc := ip\<rparr>) = table_ok s"
  "table_ok (initlock l nm s) = table_ok s"
  by (simp_all add: table_ok_def upd_mutex_def initlock_def)

lemma keep_sync [keep_intros]:
  "preservesK table_ok mutex_init" "preservesK table_ok (mutex_lock n)" "preservesK table_ok (mutex_lock_resume c j)"
  "preservesK table_ok (mutex_unlock n)" "preservesK table_ok (barrier_init k)" "preservesK table_ok barrier_lock"
  "preservesK table_ok (barrier_lock_resume c)"
proof -
  have w: "preservesK table_ok (mutex_wait j)" "preservesK table_ok barrier_wait" for j
    unfolding mutex_wait_def barrier_wait_def by (intro keep_intros; simp)+
  show "preservesK table_ok mutex_init" "preservesK table_ok (mutex_lock n)" "preservesK table_ok (mutex_lock_resume c j)"
    "preservesK table_ok (mutex_unlock n)" "preservesK table_ok (barrier_init k)" "preservesK table_ok barrier_lock"
    "preservesK table_ok (barrier_lock_resume c)"
    unfolding mutex_init_def mutex_lock_def mutex_lock_resume_def mutex_unlock_def barrier_lock_def
      barrier_lock_resume_def barrier_init_def
    by (intro keep_intros w; simp add: keep_wakeup1)+
qed

lemma keep_change_tickets [keep_intros]: "preservesK table_ok (change_tickets n k)"
  unfolding change_tickets_def by (intro keep_intros keep_upd_proc; simp)

section \<open>The process code and the invariant\<close>

lemma data_ok_more: "pmachine.more t = pmachine.more s \<Longrightarrow> data_ok s \<Longrightarrow> data_ok t"
  by (cases s; cases t) (simp add: data_ok_def screen_ok_def cursor_def)

lemma data_ok_above [blind_keep]: "above data_ok"
  unfolding above_def using data_ok_more by blast

lemma kernel_okI:
  fixes f :: "('b, 'z cmachine_scheme) kern"
  assumes "preservesK table_ok f" and "preservesK data_ok f"
  shows "preservesK kernel_ok f"
  unfolding preservesK_def
proof (intro allI impI)
  fix s :: "'z cmachine_scheme" assume "kernel_ok s"
  then have "okK table_ok (f s)" "okK data_ok (f s)" using assms by (simp_all add: preservesK_def kernel_ok_def)
  then show "okK kernel_ok (f s)" by (cases "f s") (simp_all add: kernel_ok_def)
qed

lemma kernel_tables [keep_intros]: "tables_only kernel_ok"
  unfolding tables_only_def
proof (intro allI impI)
  fix s t :: "'a cmachine_scheme"
  assume e: "vmachine.more t = vmachine.more s"
  show "kernel_ok s = kernel_ok t"
    using procs_of_vmachine [OF e] data_ok_more [OF pmachine_more [OF e]]
      data_ok_more [OF pmachine_more [OF e [symmetric]]]
    by (auto simp: kernel_ok_def table_ok_def)
qed

lemma kernel_keep_proc [keep_intros]:
  "preservesK kernel_ok allocproc" "preservesK kernel_ok (growproc n)" "preservesK kernel_ok (kill n)"
  "preservesK kernel_ok (change_tickets n k)" "preservesK kernel_ok wait" "preservesK kernel_ok (wait_resume c)"
  "preservesK kernel_ok (join st)" "preservesK kernel_ok (join_resume st c)" "preservesK kernel_ok (wakeup ch)"
  "preservesK kernel_ok sched" "preservesK kernel_ok (sleep ch lk)" "preservesK kernel_ok (sleep_resume c l)"
  "preservesK kernel_ok yield" "preservesK kernel_ok (yield_resume c)"
  by (rule kernel_okI, intro keep_intros, intro blind_keep)+

lemma kernel_keep_sync [keep_intros]:
  "preservesK kernel_ok mutex_init" "preservesK kernel_ok (mutex_lock n)" "preservesK kernel_ok (mutex_lock_resume c j)"
  "preservesK kernel_ok (mutex_unlock n)" "preservesK kernel_ok (barrier_init k)" "preservesK kernel_ok barrier_lock"
  "preservesK kernel_ok (barrier_lock_resume c)"
  by (rule kernel_okI, intro keep_intros, intro blind_keep)+

lemma okK_keep: "preservesK I f \<Longrightarrow> I s \<Longrightarrow> okK I (f s)"
  by (simp add: preservesK_def)

lemma kernel_upd_proc:
  assumes "kernel_ok s" and "\<And>p. (pid (f p) = pid p \<or> pid (f p) = 0) \<and> length (ofile (f p)) = length (ofile p) \<and>
     (length (pname p) = 16 \<longrightarrow> length (pname (f p)) = 16)"
  shows "kernel_ok (upd_proc i f s)"
proof (cases "i < length (procs s)")
  case True
  have t: "table_ok s" "data_ok s" using assms(1) by (simp_all add: kernel_ok_def)
  have "length (pname (procs s ! i)) = 16" using proc_inv_entry [OF t(1) [unfolded table_ok_def] True] by simp
  then have "table_ok (upd_proc i f s)"
    using t(1) proc_inv_upd [of "procs s" "nextpid s" "f (procs s ! i)" i] assms(2) by (simp add: table_ok_def upd_proc_def)
  moreover have "data_ok (upd_proc i f s)" by (rule data_ok_more [OF _ t(2)]) (simp add: upd_proc_def)
  ultimately show ?thesis by (simp add: kernel_ok_def)
next
  case False
  then show ?thesis using assms(1) by (simp add: upd_proc_def list_update_beyond)
qed

lemma kernel_wakeup1: "kernel_ok s \<Longrightarrow> kernel_ok (wakeup1 ch s)"
  using keep_wakeup1 [of s ch] data_ok_more [of "wakeup1 ch s" s] by (simp add: kernel_ok_def wakeup1_def)

lemma kernel_initlock [simp]: "kernel_ok (initlock l nm s) = kernel_ok s"
  by (simp add: initlock_def tables_only_eq [OF kernel_tables])

section \<open>Sleep locks, buffers and the log\<close>

lemma kernel_frame [simp]:
  "kernel_ok (upd_sleep l f s) = kernel_ok s" "kernel_ok (upd_buf b g s) = kernel_ok s"
  "kernel_ok (s\<lparr>memdisk := d, disksize := z\<rparr>) = kernel_ok s" "kernel_ok (disk_write k x s) = kernel_ok s"
  "kernel_ok (s\<lparr>head_prev := hp\<rparr>) = kernel_ok s" "kernel_ok (s\<lparr>head_next := hn\<rparr>) = kernel_ok s"
  "kernel_ok (s\<lparr>sb := b'\<rparr>) = kernel_ok s" "kernel_ok (upd_inode i h s) = kernel_ok s"
  "kernel_ok (s\<lparr>forkret_first := v\<rparr>) = kernel_ok s" "kernel_ok (s\<lparr>ticks := t\<rparr>) = kernel_ok s"
  "kernel_ok (s\<lparr>initproc := p\<rparr>) = kernel_ok s"
  by (simp_all add: kernel_ok_def table_ok_def data_ok_def screen_ok_def cursor_def upd_sleep_def upd_buf_def
      disk_write_def upd_inode_def)

lemma kernel_links [simp]:
  "kernel_ok (set_next l v s) = kernel_ok s" "kernel_ok (set_prev l v s) = kernel_ok s"
  "kernel_ok (link_front b s) = kernel_ok s" "kernel_ok (unlink b s) = kernel_ok s"
proof -
  show n: "kernel_ok (set_next l v s) = kernel_ok s" for l v s by (cases l) simp_all
  show p: "kernel_ok (set_prev l v s) = kernel_ok s" for l v s by (cases l) simp_all
  show "kernel_ok (link_front b s) = kernel_ok s" "kernel_ok (unlink b s) = kernel_ok s"
    by (simp_all add: link_front_def unlink_def Let_def n p)
qed

lemma kernel_data [simp]: "kernel_ok (upd_data b f s) = kernel_ok s" "kernel_ok (copy_buf a c s) = kernel_ok s"
  "kernel_ok (set_addr i k v s) = kernel_ok s"
  by (simp_all add: upd_data_def copy_buf_def set_addr_def)

lemma keep_case_prod [keep_intros]: "(\<And>a b. preservesK I (f a b)) \<Longrightarrow> preservesK I (case p of (a, b) \<Rightarrow> f a b)"
  by (cases p) simp

lemma keep_sleeplock [keep_intros]:
  "preservesK kernel_ok (initsleeplock l nm)" "preservesK kernel_ok (acquiresleep l)"
  "preservesK kernel_ok (acquiresleep_resume c l)" "preservesK kernel_ok (releasesleep l)"
  "preservesK kernel_ok (holdingsleep l)"
  unfolding initsleeplock_def acquiresleep_def acquiresleep_resume_def acquiresleep_loop_def releasesleep_def
    holdingsleep_def by (intro keep_intros; simp)+

lemma keep_scan [keep_intros]: "preservesK I (scan go P n l)"
  unfolding preservesK_def
proof (intro allI impI)
  fix s assume "I s"
  then show "okK I (scan go P n l s)"
    by (induction go P n l s rule: scan.induct) simp_all
qed

lemma keep_iderw [keep_intros]: "preservesK kernel_ok (iderw b)"
  unfolding iderw_def by (intro keep_intros; simp)

lemma keep_bio [keep_intros]:
  "preservesK kernel_ok (bread dv n)" "preservesK kernel_ok (bwrite b)" "preservesK kernel_ok (brelse b)"
  "preservesK kernel_ok binit" "preservesK kernel_ok (ideinit img z)"
  unfolding bread_def bget_def bwrite_def brelse_def binit_def ideinit_def by (intro keep_intros; simp)+

lemma kernel_log [simp]:
  "kernel_ok (upd_log (\<lambda>l. l\<lparr>outstanding := f l\<rparr>) s) = kernel_ok s"
  "kernel_ok (upd_log (\<lambda>l. l\<lparr>committing := g l\<rparr>) s) = kernel_ok s"
  "kernel_ok (upd_log (\<lambda>l. l\<lparr>lstart := a, lsize := b, ldev := c\<rparr>) s) = kernel_ok s"
  by (simp_all add: kernel_ok_def table_ok_def data_ok_def screen_ok_def cursor_def upd_log_def log_ok_def)

lemma kernel_lh:
  "kernel_ok s \<Longrightarrow> (\<And>h. lh_n h \<le> 30 \<Longrightarrow> length (lh_block h) = 30 \<Longrightarrow> lh_n (f h) \<le> 30 \<and> length (lh_block (f h)) = 30) \<Longrightarrow>
   kernel_ok (upd_lh f s)"
  by (simp add: kernel_ok_def table_ok_def data_ok_def screen_ok_def cursor_def upd_lh_def upd_log_def log_ok_def)

lemma keep_write_head [keep_intros]: "preservesK kernel_ok write_head"
  unfolding write_head_def by (intro keep_intros) (simp add: Let_def)

lemma keep_log_one [keep_intros]: "preservesK kernel_ok (install_one k)" "preservesK kernel_ok (write_log_one k)"
  unfolding install_one_def write_log_one_def by (intro keep_intros; simp)+

lemma keep_commit [keep_intros]: "preservesK kernel_ok install_trans" "preservesK kernel_ok commit"
  unfolding install_trans_def commit_def write_log_def by (intro keep_intros kernel_lh; simp)+

lemma keep_begin_op [keep_intros]:
  "preservesK kernel_ok begin_op" "preservesK kernel_ok (begin_op_resume c)" "preservesK kernel_ok end_op"
  unfolding begin_op_def begin_op_resume_def begin_op_loop_def end_op_def by (intro keep_intros; simp)+

text \<open>The two places that change the number of blocks in the header test it against the size of the array.\<close>

lemma log_of_vmachine: "vmachine.more t = vmachine.more s \<Longrightarrow> log t = log s"
  by (cases s; cases t) simp

lemma room_tables: "tables_only (\<lambda>s. kernel_ok s \<and> P (log s))"
  unfolding tables_only_def
proof (intro allI impI)
  fix s t :: "'a cmachine_scheme"
  assume e: "vmachine.more t = vmachine.more s"
  show "(kernel_ok s \<and> P (log s)) = (kernel_ok t \<and> P (log t))"
    using log_of_vmachine [OF e] kernel_tables e unfolding tables_only_def by metis
qed

lemma kernel_record_block:
  assumes "kernel_ok s" and "lh_n (lh (log s)) < 30"
  shows "kernel_ok (let h = lh (log s); bno = blockno (bufs s ! b); i = absorb (nat (lh_n h)) (lh_block h) bno
    in upd_lh (\<lambda>h. h\<lparr>lh_block := (lh_block h)[i := bno], lh_n := (if int i = lh_n h then lh_n h + 1 else lh_n h)\<rparr>) s)"
  using assms
  by (simp add: kernel_ok_def table_ok_def data_ok_def screen_ok_def cursor_def upd_lh_def upd_log_def log_ok_def Let_def)

lemma keep_log_write [keep_intros]: "preservesK kernel_ok (log_write b)"
proof (rule preservesK_wp)
  fix s :: "'a cmachine_scheme"
  assume k: "kernel_ok s"
  let ?h = "\<lambda>s. let h = lh (log s); bno = blockno (bufs s ! b); i = absorb (nat (lh_n h)) (lh_block h) bno
    in upd_lh (\<lambda>h. h\<lparr>lh_block := (lh_block h)[i := bno], lh_n := (if int i = lh_n h then lh_n h + 1 else lh_n h)\<rparr>) s"
  let ?g = "thenK (modifyK (upd_buf b (\<lambda>x. x\<lparr>bflags := bflags x OR B_DIRTY\<rparr>))) (release LogLock)"
  have "preservesK (\<lambda>s. kernel_ok s \<and> lh_n (lh (log s)) < 30) (acquire LogLock)"
    by (intro keep_intros room_tables)
  then have a: "wpK (acquire LogLock) (\<lambda>x s. kernel_ok s \<and> lh_n (lh (log s)) < 30) (\<lambda>s. kernel_ok s \<and> lh_n (lh (log s)) < 30) s"
    if "lh_n (lh (log s)) < 30" using that k by (intro wpK_keep) simp_all
  have g: "preservesK kernel_ok ?g" by (intro keep_intros) simp
  have "wpK (thenK (acquire LogLock) (thenK (modifyK ?h) ?g)) (\<lambda>x. kernel_ok) kernel_ok s"
    if l: "lh_n (lh (log s)) < 30"
    unfolding wpK_thenK
    by (rule wpK_mono [OF a [OF l]])
      (simp_all only: wpK_pure, blast intro: wpK_keep [OF g, unfolded wpK_thenK wpK_pure] kernel_record_block)
  then show "wpK (log_write b) (\<lambda>x. kernel_ok) kernel_ok s"
    unfolding log_write_def by (simp add: k del: wpK_thenK)
qed

lemma forK_bounded:
  "forK xs (\<lambda>i s. if i < n then Ret () (f i s) else Fault) s =
     (if \<forall>i\<in>set xs. i < n then Ret () (fold f xs s) else Fault)"
  by (induction xs arbitrary: s) (simp_all add: thenK_def bindK_def)

lemma keep_read_head [keep_intros]: "preservesK kernel_ok (read_head :: (unit, 'a cmachine_scheme) kern)"
proof -
  let ?set = "\<lambda>d i. upd_lh (\<lambda>h. h\<lparr>lh_block := (lh_block h)[i := get32 d (4 + 4 * i)]\<rparr>)"
  let ?body = "\<lambda>d. thenK (modifyK (upd_lh (\<lambda>h. h\<lparr>lh_n := sint (get32 d 0)\<rparr>)))
     (forK [0..<nat (sint (get32 d 0))] (\<lambda>i s. if i < LOGSIZE then Ret () (?set d i s) else Fault))"
  have f: "kernel_ok (fold (?set d) xs s)" if "kernel_ok s" for d xs and s :: "'a cmachine_scheme"
    using that by (induction xs arbitrary: s) (simp_all add: kernel_lh)
  have "okK kernel_ok (?body d s)" if "kernel_ok s" for d and s :: "'a cmachine_scheme"
  proof (cases "sint (get32 d 0) \<le> 30")
    case True
    then have "kernel_ok (upd_lh (\<lambda>h. h\<lparr>lh_n := sint (get32 d 0)\<rparr>) s)" by (intro kernel_lh that) simp
    then show ?thesis using True f by (simp add: forK_bounded)
  next
    case False
    then have "30 < nat (sint (get32 d 0))" by simp
    then show ?thesis by (simp add: forK_bounded) force
  qed
  then have b: "preservesK kernel_ok (?body d :: (unit, 'a cmachine_scheme) kern)" for d
    unfolding preservesK_def by blast
  have "preservesK kernel_ok (thenK (?body d) (brelse bf) :: (unit, 'a cmachine_scheme) kern)" for d bf
    by (intro keep_bio b preservesK_thenK)
  note this [unfolded thenK_assoc]
  then show ?thesis unfolding read_head_def by (intro preservesK_bindK preservesK_pure keep_bio)
qed

lemma keep_recovery [keep_intros]:
  "preservesK kernel_ok (readsb d)" "preservesK kernel_ok recover_from_log" "preservesK kernel_ok (initlog d)"
  unfolding readsb_def recover_from_log_def initlog_def by (intro keep_intros kernel_lh; simp)+

section \<open>The file system\<close>

lemma keep_blocks [keep_intros]: "preservesK kernel_ok (bzero d n)" "preservesK kernel_ok (bfree d n)"
  unfolding bzero_def bfree_def by (intro keep_intros; simp)+

lemma keep_balloc_loop: "preservesK kernel_ok (balloc_loop d bs)"
  by (induction bs) (simp only: balloc_loop.simps; intro keep_intros; simp)+

lemma keep_inodes [keep_intros]:
  "preservesK kernel_ok (balloc d)" "preservesK kernel_ok (iupdate ip)" "preservesK kernel_ok (iget d n)"
  "preservesK kernel_ok (idup ip)" "preservesK kernel_ok (stati ip)"
  unfolding balloc_def iupdate_def iget_def idup_def stati_def by (intro keep_intros keep_balloc_loop; simp)+

lemma keep_ialloc_loop: "preservesK kernel_ok (ialloc_loop d ty ns)"
  by (induction ns) (simp only: ialloc_loop.simps; intro keep_intros; simp)+

lemma keep_ialloc [keep_intros]: "preservesK kernel_ok (ialloc d ty)"
  unfolding ialloc_def by (intro keep_intros keep_ialloc_loop)

lemma keep_ilock [keep_intros]: "preservesK kernel_ok (ilock p)" "preservesK kernel_ok (iunlock p)"
  unfolding ilock_def iunlock_def by (intro keep_intros; simp)+

lemma keep_bmap [keep_intros]: "preservesK kernel_ok (bmap ip bn)"
  unfolding bmap_def addr_or_alloc_def by (intro keep_intros; simp)

lemma keep_itrunc [keep_intros]: "preservesK kernel_ok (itrunc ip)"
  unfolding itrunc_def free_direct_def by (intro keep_intros; simp)

lemma keep_iput [keep_intros]: "preservesK kernel_ok (iput ip)" "preservesK kernel_ok (iunlockput ip)"
  unfolding iput_def iput_free_def iunlockput_def by (intro keep_intros; simp)+

lemma keep_readi_loop [keep_intros]: "preservesK kernel_ok (readi_loop ip off k)"
proof (induction ip off k rule: readi_loop.induct)
  case (1 ip off k)
  show ?case
  proof (cases "k = 0")
    case True
    then show ?thesis by (subst readi_loop.simps) (simp add: preservesK_pure)
  next
    case False
    then show ?thesis by (subst readi_loop.simps, subst if_not_P [OF False]) (intro keep_intros 1)
  qed
qed

lemma keep_writei_loop [keep_intros]: "preservesK kernel_ok (writei_loop ip src off)"
proof (induction ip src off rule: writei_loop.induct)
  case (1 ip src off)
  show ?case
  proof (cases "src = []")
    case True
    then show ?thesis by (subst writei_loop.simps) (simp add: preservesK_pure)
  next
    case False
    then show ?thesis
      by (subst writei_loop.simps, subst if_not_P [OF False], unfold Let_def) (intro keep_intros 1; simp)
  qed
qed

text \<open>A device switch whose entries keep \<open>I\<close>.\<close>

definition reads_keep :: "('s \<Rightarrow> bool) \<Rightarrow> 's dev_read \<Rightarrow> bool" where
  "reads_keep I dr \<longleftrightarrow> (\<forall>m f ip n. dr m = Some f \<longrightarrow> preservesK I (f ip n))"

definition writes_keep :: "('s \<Rightarrow> bool) \<Rightarrow> 's dev_write \<Rightarrow> bool" where
  "writes_keep I dw \<longleftrightarrow> (\<forall>m f ip src n. dw m = Some f \<longrightarrow> preservesK I (f ip src n))"

lemma keep_dev_read [keep_intros]:
  "reads_keep I dr \<Longrightarrow> preservesK I g \<Longrightarrow> preservesK I (case dr m of None \<Rightarrow> g | Some f \<Rightarrow> f ip n)"
  by (auto simp: reads_keep_def split: option.split)

lemma keep_dev_write [keep_intros]:
  "writes_keep I dw \<Longrightarrow> preservesK I g \<Longrightarrow> preservesK I (case dw m of None \<Rightarrow> g | Some f \<Rightarrow> f ip src n)"
  by (auto simp: writes_keep_def split: option.split)

lemma keep_readi [keep_intros]: "reads_keep kernel_ok dr \<Longrightarrow> preservesK kernel_ok (readi dr ip off n)"
  unfolding readi_def by (intro keep_intros)

lemma keep_writei [keep_intros]: "writes_keep kernel_ok dw \<Longrightarrow> preservesK kernel_ok (writei dw ip src off n)"
  unfolding writei_def by (intro keep_intros; simp)

lemma keep_dirlookup [keep_intros]:
  assumes "reads_keep kernel_ok dr"
  shows "preservesK kernel_ok (dirlookup dr dp nm)"
proof -
  have "preservesK kernel_ok (dirlookup_loop dr dp nm offs)" for offs
    by (induction offs) (simp only: dirlookup_loop.simps; intro keep_intros assms)+
  then show ?thesis unfolding dirlookup_def by (intro keep_intros)
qed

lemma keep_dirlink [keep_intros]:
  assumes "reads_keep kernel_ok dr" and "writes_keep kernel_ok dw"
  shows "preservesK kernel_ok (dirlink dr dw dp nm ino)"
proof -
  have "preservesK kernel_ok (dirlink_loop dr dp past offs)" for past offs
    by (induction offs arbitrary: past) (simp only: dirlink_loop.simps; intro keep_intros assms)+
  then show ?thesis unfolding dirlink_def by (intro keep_intros assms)
qed

lemma keep_namex [keep_intros]:
  assumes "reads_keep kernel_ok dr"
  shows "preservesK kernel_ok (namex dr path par nm)"
proof -
  have "preservesK kernel_ok (namex_loop dr par ip path nm)" for ip path nm
    using assms
  proof (induction dr par ip path nm rule: namex_loop.induct)
    case (1 dr par ip path nm)
    show ?case
    proof (cases "skipelem path nm")
      case None
      then show ?thesis by (subst namex_loop.simps) (simp only: option.case, intro keep_intros)
    next
      case (Some q)
      obtain p' nm' where q: "q = (p', nm')" by (cases q)
      have "preservesK kernel_ok (if par \<and> p' = [] then thenK (iunlock (Some ip)) (retK (Some (ip, nm')))
         else bindK (dirlookup dr ip nm') (\<lambda>f. case f of None \<Rightarrow> thenK (iunlockput ip) (retK None)
         | Some (nx, off) \<Rightarrow> thenK (iunlockput ip) (namex_loop dr par nx p' nm')))"
      proof (cases "par \<and> p' = []")
        case True
        then show ?thesis by (simp only: if_P) (intro keep_intros)
      next
        case False
        have "preservesK kernel_ok (namex_loop dr par nx p' nm')" for nx
          by (rule 1(1) [OF Some q [symmetric] _ False 1(2), of T_DIR]) simp
        then show ?thesis using False by (simp only: if_not_P) (intro keep_intros 1(2))
      qed
      then show ?thesis
        by (subst namex_loop.simps, simp only: Some q option.case prod.case)
          (rule preservesK_thenK, rule keep_ilock, rule preservesK_bindK, rule preservesK_pure,
            rule preservesK_if, intro keep_intros)
    qed
  qed
  then show ?thesis unfolding namex_def by (intro keep_intros)
qed

lemma keep_namei [keep_intros]:
  "reads_keep kernel_ok dr \<Longrightarrow> preservesK kernel_ok (namei dr path)"
  "reads_keep kernel_ok dr \<Longrightarrow> preservesK kernel_ok (nameiparent dr path nm)"
  "preservesK kernel_ok (iinit d)"
  unfolding namei_def nameiparent_def iinit_def by (intro keep_intros; simp)+

section \<open>Files and pipes\<close>

lemma kernel_upd_file:
  "kernel_ok s \<Longrightarrow> (\<And>x. 0 \<le> fref x \<Longrightarrow> 0 \<le> fref (g x)) \<Longrightarrow> kernel_ok (upd_file f g s)"
proof -
  assume k: "kernel_ok s" and g: "\<And>x. 0 \<le> fref x \<Longrightarrow> 0 \<le> fref (g x)"
  have "\<forall>x\<in>set ((ftable s)[f := g (ftable s ! f)]). 0 \<le> fref x"
  proof (cases "f < length (ftable s)")
    case True
    then have "0 \<le> fref (g (ftable s ! f))" using k by (intro g) (simp add: kernel_ok_def data_ok_def)
    then show ?thesis using k set_update_subset_insert [of "ftable s" f "g (ftable s ! f)"]
      by (auto simp: kernel_ok_def data_ok_def)
  next
    case False
    then show ?thesis using k by (simp add: list_update_beyond kernel_ok_def data_ok_def)
  qed
  then show ?thesis using k
    by (simp add: kernel_ok_def table_ok_def data_ok_def screen_ok_def cursor_def upd_file_def)
qed

lemma kernel_upd_pipe:
  "kernel_ok s \<Longrightarrow> (pipe_ok (pipes s p) \<Longrightarrow> pipe_ok (f (pipes s p))) \<Longrightarrow> kernel_ok (upd_pipe p f s)"
  by (simp add: kernel_ok_def table_ok_def data_ok_def screen_ok_def cursor_def upd_pipe_def)

lemma word_succ_le: "x < (512 :: uint32) \<Longrightarrow> x + 1 \<le> 512"
  by (simp add: inc_le)

lemma pipe_ok_put: "pipe_ok q \<Longrightarrow> nwrite q \<noteq> nread q + PIPESIZE \<Longrightarrow> pipe_ok (pipe_put x q)"
proof -
  assume q: "pipe_ok q" and n: "nwrite q \<noteq> nread q + PIPESIZE"
  have "nwrite q - nread q \<noteq> 512" using n by (metis add.commute diff_add_cancel)
  then have "nwrite q - nread q < 512" using q by (simp add: pipe_ok_def order.strict_iff_order)
  from word_succ_le [OF this] show ?thesis using q
    by (simp add: pipe_ok_def pipe_put_def add_diff_eq [symmetric] add.commute)
qed

lemma pipe_ok_take: "pipe_ok q \<Longrightarrow> pipe_ok (snd (pipe_take n q))"
proof (induction n arbitrary: q)
  case (Suc n)
  show ?case
  proof (cases "nread q = nwrite q")
    case False
    then have "nwrite q - nread q \<noteq> 0" by simp
    then have "nwrite q - nread q - 1 < nwrite q - nread q" by (metis measure_unat word_less_nat_alt)
    then have "nwrite q - (nread q + 1) \<le> 512" using Suc.prems
      by (auto simp: pipe_ok_def diff_diff_eq intro: order.trans [OF order.strict_implies_order])
    then have "pipe_ok (q\<lparr>nread := nread q + 1\<rparr>)" using Suc.prems by (simp add: pipe_ok_def)
    from Suc.IH [OF this] show ?thesis using False by (simp add: Let_def split_def)
  qed (use Suc.prems in simp)
qed simp

lemma keep_pipewrite_loop: "preservesK kernel_ok (pipewrite_loop p xs n :: (int, 'a cmachine_scheme) kern)"
proof (induction xs)
  case Nil
  then show ?case by (simp only: pipewrite_loop.simps) (intro keep_intros)
next
  case (Cons x xs)
  have f: "preservesK kernel_ok (pipewrite_full p :: (int, 'a cmachine_scheme) kern)" unfolding pipewrite_full_def Let_def by (intro keep_intros)
  show ?case unfolding preservesK_def
  proof (intro allI impI)
    fix s :: "'a cmachine_scheme" assume k: "kernel_ok s"
    show "okK kernel_ok (pipewrite_loop p (x # xs) n s)"
    proof (cases "nwrite (pipes s p) = nread (pipes s p) + PIPESIZE")
      case True
      then show ?thesis using f k by (simp add: preservesK_def)
    next
      case False
      then have "kernel_ok (upd_pipe p (pipe_put x) s)" using k by (intro kernel_upd_pipe pipe_ok_put) simp_all
      then show ?thesis using Cons False by (simp add: preservesK_def)
    qed
  qed
qed

lemma keep_piperead_loop: "preservesK kernel_ok (piperead_loop p n)"
  unfolding piperead_loop_def by (intro keep_intros kernel_upd_pipe pipe_ok_take; assumption)

lemma keep_pipe [keep_intros]:
  "preservesK kernel_ok (pipewrite p xs n)" "preservesK kernel_ok (pipewrite_resume c p xs n)"
  "preservesK kernel_ok (piperead p n)" "preservesK kernel_ok (piperead_resume c p n)"
  "preservesK kernel_ok (pipeclose p wr)"
  unfolding pipewrite_def pipewrite_resume_def piperead_def piperead_resume_def pipeclose_def
  by (intro keep_intros keep_pipewrite_loop keep_piperead_loop kernel_upd_pipe; simp add: pipe_ok_def)+

lemma keep_case_ftype [keep_intros]:
  "preservesK I f \<Longrightarrow> preservesK I g \<Longrightarrow> preservesK I h \<Longrightarrow>
   preservesK I (case t of FD_NONE \<Rightarrow> f | FD_PIPE \<Rightarrow> g | FD_INODE \<Rightarrow> h)"
  by (cases t) simp_all

lemma keep_file [keep_intros]:
  "preservesK kernel_ok fileinit" "preservesK kernel_ok filealloc" "preservesK kernel_ok (filedup f)"
  "preservesK kernel_ok (filestat f)"
  unfolding fileinit_def filealloc_def filedup_def filestat_def by (intro keep_intros kernel_upd_file; simp)+

text \<open>\<^verbatim>\<open>fileclose\<close> tests that the count is positive before it takes one off.\<close>

lemma keep_fileclose [keep_intros]: "preservesK kernel_ok (fileclose f :: (unit, 'a cmachine_scheme) kern)"
proof -
  define rest :: "(unit, 'a cmachine_scheme) kern" where
    "rest = bindK (getsK (\<lambda>s. ftable s ! f)) (\<lambda>ff.
         if fref ff > 0 then release FtableLock
         else thenK (modifyK (upd_file f (\<lambda>x. x\<lparr>fref := 0, ftype := FD_NONE\<rparr>)))
           (thenK (release FtableLock)
             (case ftype ff of
                FD_PIPE \<Rightarrow> pipeclose (fpipe ff) (writable ff)
              | FD_INODE \<Rightarrow> thenK begin_op (thenK (derefK (fip ff) iput) end_op)
              | FD_NONE \<Rightarrow> retK ())))"
  have r: "preservesK kernel_ok rest" unfolding rest_def by (intro keep_intros kernel_upd_file) simp_all
  let ?g = "bindK (getsK (\<lambda>s. fref (ftable s ! f))) (\<lambda>r. if r < 1 then panicK ''fileclose''
    else thenK (modifyK (upd_file f (\<lambda>x. x\<lparr>fref := fref x - 1\<rparr>))) rest)"
  have "okK kernel_ok (?g s)" if k: "kernel_ok s" for s
  proof (cases "fref (ftable s ! f) < 1")
    case False
    then have "upd_file f (\<lambda>x. x\<lparr>fref := fref x - 1\<rparr>) s = upd_file f (\<lambda>x. x\<lparr>fref := max 0 (fref x - 1)\<rparr>) s"
      by (simp add: upd_file_def)
    moreover have "kernel_ok (upd_file f (\<lambda>x. x\<lparr>fref := max 0 (fref x - 1)\<rparr>) s)"
      by (intro kernel_upd_file k) simp
    ultimately show ?thesis using r False by (simp add: preservesK_def)
  qed simp
  then have g: "preservesK kernel_ok ?g" by (simp add: preservesK_def)
  have "fileclose f = thenK (acquire FtableLock) ?g" unfolding fileclose_def rest_def by (rule refl)
  then show ?thesis by (simp only:) (rule preservesK_thenK, intro keep_intros, rule g)
qed

lemma keep_fileread [keep_intros]: "reads_keep kernel_ok dr \<Longrightarrow> preservesK kernel_ok (fileread dr f n)"
  unfolding fileread_def by (intro keep_intros kernel_upd_file; simp)

lemma keep_filewrite [keep_intros]:
  assumes "writes_keep kernel_ok dw"
  shows "preservesK kernel_ok (filewrite dw f src n)"
proof -
  have "preservesK kernel_ok (filewrite_loop dw f src)" for src
    using assms
  proof (induction dw f src rule: filewrite_loop.induct)
    case (1 dw f src)
    show ?case
    proof (cases "src = []")
      case True
      then show ?thesis by (subst filewrite_loop.simps) (simp add: preservesK_pure)
    next
      case False
      have "preservesK kernel_ok (if r < 0 then retK False else if r \<noteq> int n1 then panicK ''short filewrite''
          else filewrite_loop dw f (drop n1 src))" if "n1 = min (length src) filewrite_max" for r n1
        using 1(1) [OF False that] 1(2) by (cases "r < 0"; cases "r = int n1") (simp_all add: preservesK_pure)
      then show ?thesis
        by (subst filewrite_loop.simps, subst if_not_P [OF False], unfold Let_def)
          (intro preservesK_bindK preservesK_thenK keep_derefK preservesK_pure preservesK_whenK preservesK_modifyK
            keep_begin_op keep_ilock keep_writei [OF 1(2)] kernel_upd_file; simp)
    qed
  qed
  then show ?thesis unfolding filewrite_def by (intro keep_intros)
qed

lemma keep_pipealloc [keep_intros]: "preservesK kernel_ok pipealloc"
  unfolding pipealloc_def pipealloc_bad_def
  by (intro keep_intros kernel_upd_file kernel_upd_pipe; simp add: pipe_ok_def)

section \<open>Processes and programs\<close>

lemma kernel_tf [simp]: "kernel_ok (tf_set a o' v s) = kernel_ok s" "kernel_ok (tf_set16 a o' w s) = kernel_ok s"
  "kernel_ok (init_tf a s) = kernel_ok s" "kernel_ok (copy_tf c n s) = kernel_ok s"
  by (simp_all add: tf_set_def tf_set16_def init_tf_def copy_tf_def tables_only_eq [OF kernel_tables])

lemma length_safestrcpy: "length old = 16 \<Longrightarrow> length (list_safestrcpy old src 16) = 16"
  by (simp add: list_safestrcpy_def Let_def)

lemma keep_kernel_proc:
  "(\<And>p. (pid (f p) = pid p \<or> pid (f p) = 0) \<and> length (ofile (f p)) = length (ofile p) \<and>
     (length (pname p) = 16 \<longrightarrow> length (pname (f p)) = 16)) \<Longrightarrow> preservesK kernel_ok (modifyK (upd_proc i f))"
  by (intro preservesK_modifyK kernel_upd_proc)

lemma kernel_copy_name: "kernel_ok s \<Longrightarrow> kernel_ok (copy_name c n s)"
  unfolding copy_name_def by (intro kernel_upd_proc) (simp_all add: length_safestrcpy)

lemma kernel_reparent: "kernel_ok s \<Longrightarrow> kernel_ok (reparent c i s)"
  by (auto simp: reparent_def Let_def intro!: kernel_upd_proc kernel_wakeup1)

lemmas kernel_proc_intros = kernel_copy_name kernel_reparent kernel_wakeup1 kernel_upd_proc

lemma keep_cur_proc [keep_intros]: "tables_only I \<Longrightarrow> preservesK I cur_proc"
  unfolding cur_proc_def by (intro keep_intros)

lemma keep_fds [keep_intros]:
  "preservesK kernel_ok (dup_file c n i)" "preservesK kernel_ok (dup_cwd c n)" "preservesK kernel_ok (close_fd c fd)"
  unfolding dup_file_def dup_cwd_def close_fd_def by (intro keep_intros kernel_proc_intros; simp)+

lemma keep_exit [keep_intros]: "preservesK kernel_ok exit"
  unfolding exit_def by (intro keep_intros kernel_proc_intros; simp)

lemma keep_fork [keep_intros]: "preservesK kernel_ok fork"
  unfolding fork_def by (intro keep_intros kernel_proc_intros; simp)

lemma keep_clone [keep_intros]: "preservesK kernel_ok (clone fn arg st)"
  unfolding clone_def by (intro keep_intros kernel_proc_intros; simp)

lemma keep_forkret [keep_intros]: "preservesK kernel_ok forkret"
  unfolding forkret_def by (intro keep_intros; simp)

lemma keep_listing [keep_intros]: "tables_only I \<Longrightarrow> preservesK I procdump" "tables_only I \<Longrightarrow> preservesK I hello_world"
  unfolding procdump_def procdump_one_def hello_world_def by (intro keep_intros; assumption)+

lemma keep_bytes8 [keep_intros]: "tables_only I \<Longrightarrow> preservesK I (kload8 a)" "tables_only I \<Longrightarrow> preservesK I (kstore8 a v)"
  by (auto simp: preservesK_def kload8_def kstore8_def tables_only_eq split: option.splits)

lemma keep_bytes [keep_intros]:
  assumes "tables_only I"
  shows "preservesK I (kload_bytes a n)" "preservesK I (kstore_bytes a xs)" "preservesK I (fetchstr_loop n a)"
proof -
  show "preservesK I (kload_bytes a n)"
    by (induction n arbitrary: a) (simp only: kload_bytes.simps; intro keep_intros assms)+
  show "preservesK I (kstore_bytes a xs)"
    by (induction xs arbitrary: a) (simp only: kstore_bytes.simps; intro keep_intros assms)+
  show "preservesK I (fetchstr_loop n a)"
    by (induction n arbitrary: a) (simp only: fetchstr_loop.simps; intro keep_intros assms)+
qed

lemma keep_uva2ka [keep_intros]: "tables_only I \<Longrightarrow> preservesK I (uva2ka d va)"
proof -
  assume t: "tables_only I"
  have "preservesK I (\<lambda>s. case kaddr s pte of None \<Rightarrow> Fault | Some a \<Rightarrow>
      (let e = load32 (mem s) a in if e AND PTE_P = 0 then Ret 0 s else if e AND PTE_U = 0 then Ret 0 s
       else Ret (P2V (PTE_ADDR e)) s))" for pte
    by (simp add: preservesK_def Let_def split: option.split)
  then show ?thesis unfolding uva2ka_def by (intro keep_intros t)
qed

lemma keep_copyout_list [keep_intros]: "tables_only I \<Longrightarrow> preservesK I (copyout_list d va bs)"
proof (induction d va bs rule: copyout_list.induct)
  case (1 d va bs)
  show ?case
  proof (cases "bs = []")
    case True
    then show ?thesis by (subst copyout_list.simps) (simp add: preservesK_pure)
  next
    case False
    have "preservesK I (if pa = 0 then retK (- 1) else thenK (modifyK (\<lambda>s. s\<lparr>mem := store_bytes (mem s) (pa + (va - PGROUNDDOWN va))
        (take (unat (PGSIZE - (va - PGROUNDDOWN va))) bs)\<rparr>))
      (copyout_list d (PGROUNDDOWN va + PGSIZE) (drop (unat (PGSIZE - (va - PGROUNDDOWN va))) bs)))" for pa
      using 1(1) [OF False _ 1(2), of pa]
      by (cases "pa = 0") (auto intro!: keep_intros simp: tables_only_eq [OF 1(2)])
    then show ?thesis
      by (subst copyout_list.simps, subst if_not_P [OF False]) (intro preservesK_bindK keep_uva2ka 1(2))
  qed
qed

lemma keep_exec_push [keep_intros]: "tables_only I \<Longrightarrow> preservesK I (exec_push d k sp as)"
  by (induction as arbitrary: k sp) (simp only: exec_push.simps; intro keep_intros; assumption?)+

lemma keep_user_memory [keep_intros]:
  "tables_only I \<Longrightarrow> preservesK I (clearpteu d va)" "tables_only I \<Longrightarrow> preservesK I (inituvm d st n)"
  unfolding clearpteu_def inituvm_def by (intro keep_intros; simp add: tables_only_eq)+

lemma keep_loaduvm [keep_intros]:
  assumes "tables_only I" and "\<And>a off n. preservesK I (rd a off n)"
  shows "preservesK I (loaduvm rd d addr off z)"
proof -
  have "preservesK I (loaduvm_loop N rd d addr off z i)" for N i
    by (induction N arbitrary: i) (simp only: loaduvm_loop.simps Let_def; intro keep_intros assms)+
  then show ?thesis unfolding loaduvm_def by (intro keep_intros)
qed

lemma keep_exec_load [keep_intros]:
  assumes "reads_keep kernel_ok dr"
  shows "preservesK kernel_ok (exec_load dr ip d k off z)"
proof -
  have f: "preservesK kernel_ok (file_reader dr ip a off' n)" for a off' n
    unfolding file_reader_def by (intro keep_intros assms)
  show ?thesis
    by (induction k arbitrary: off z) (simp only: exec_load.simps Let_def; intro keep_intros assms f)+
qed

lemma keep_exec_end [keep_intros]:
  "preservesK kernel_ok (exec_bad d ip)" "preservesK kernel_ok (exec_commit c d z e sp path)"
  unfolding exec_bad_def exec_commit_def by (intro keep_intros kernel_proc_intros; simp add: length_safestrcpy)+

lemma keep_exec [keep_intros]:
  "reads_keep kernel_ok dr \<Longrightarrow> preservesK kernel_ok (exec dr path argv)"
  unfolding exec_def exec_stack_def Let_def by (intro keep_intros; assumption)

lemma keep_userinit [keep_intros]: "reads_keep kernel_ok dr \<Longrightarrow> preservesK kernel_ok (userinit dr st n)"
  unfolding userinit_def by (intro keep_intros kernel_proc_intros; simp add: length_safestrcpy)

section \<open>System calls\<close>

lemma keep_args [keep_intros]:
  "tables_only I \<Longrightarrow> preservesK I (fetchint a)" "tables_only I \<Longrightarrow> preservesK I (fetchstr a)"
  "tables_only I \<Longrightarrow> preservesK I (argint n)"
  unfolding argint_def fetchint_def fetchstr_def by (intro keep_intros; assumption)+

lemma keep_ptrs [keep_intros]:
  "tables_only I \<Longrightarrow> preservesK I (argptr n len)" "tables_only I \<Longrightarrow> preservesK I (argstr n)"
  "tables_only I \<Longrightarrow> preservesK I (argfd n)"
  unfolding argptr_def argstr_def argfd_def by (intro keep_intros; assumption)+

lemma keep_need [keep_intros]: "preservesK I f \<Longrightarrow> (\<And>x. preservesK I (g x)) \<Longrightarrow> preservesK I (need f g)"
  unfolding need_def by (intro keep_intros)

lemma keep_fdalloc [keep_intros]: "preservesK kernel_ok (fdalloc f)" "preservesK kernel_ok (clear_fd fd)"
  unfolding fdalloc_def clear_fd_def by (intro keep_intros kernel_proc_intros; simp)+

lemma keep_sysproc [keep_intros]:
  "preservesK kernel_ok sys_fork" "preservesK kernel_ok sys_exit" "preservesK kernel_ok sys_wait"
  "preservesK kernel_ok sys_kill" "preservesK kernel_ok sys_getpid" "preservesK kernel_ok sys_sbrk"
  "preservesK kernel_ok sys_uptime" "preservesK kernel_ok sys_hello_world" "preservesK kernel_ok sys_join"
  unfolding sys_fork_def sys_exit_def sys_wait_def sys_kill_def sys_getpid_def sys_sbrk_def sys_uptime_def
    sys_hello_world_def sys_join_def
  by (intro keep_intros)+

lemma keep_sysproc2 [keep_intros]:
  "preservesK kernel_ok sys_clone" "preservesK kernel_ok sys_change_tickets" "preservesK kernel_ok sys_mutex_init"
  "preservesK kernel_ok sys_mutex_lock" "preservesK kernel_ok sys_mutex_unlock"
  "preservesK kernel_ok sys_barrier_init" "preservesK kernel_ok sys_barrier_lock"
  unfolding sys_clone_def sys_change_tickets_def sys_mutex_init_def sys_mutex_lock_def sys_mutex_unlock_def
    sys_barrier_init_def sys_barrier_lock_def Let_def
  by (intro keep_intros)+

lemma keep_sys_sleep [keep_intros]: "preservesK kernel_ok sys_sleep" "preservesK kernel_ok (sys_sleep_resume c t n)"
  unfolding sys_sleep_def sys_sleep_resume_def sys_sleep_loop_def by (intro keep_intros)+

lemma keep_sysfile [keep_intros]:
  "preservesK kernel_ok sys_dup" "reads_keep kernel_ok dr \<Longrightarrow> preservesK kernel_ok (sys_read dr)"
  "writes_keep kernel_ok dw \<Longrightarrow> preservesK kernel_ok (sys_write dw)" "preservesK kernel_ok sys_close"
  "preservesK kernel_ok sys_fstat" "preservesK kernel_ok sys_pipe"
  unfolding sys_dup_def sys_read_def sys_write_def sys_close_def sys_fstat_def store_stat_def sys_pipe_def
  by (intro keep_intros; assumption?)+

lemma keep_nlink [keep_intros]: "preservesK kernel_ok (upd_nlink ip d)" "preservesK kernel_ok (link_bad ip)"
  "preservesK kernel_ok (unlink_bad ip)"
  unfolding link_bad_def upd_nlink_def unlink_bad_def by (intro keep_intros; simp)+

lemma keep_isdirempty [keep_intros]: "reads_keep kernel_ok dr \<Longrightarrow> preservesK kernel_ok (isdirempty dr dp)"
proof -
  assume r: "reads_keep kernel_ok dr"
  have "preservesK kernel_ok (isdirempty_loop dr dp offs)" for offs
    by (induction offs) (simp only: isdirempty_loop.simps; intro keep_intros r)+
  then show ?thesis unfolding isdirempty_def by (intro keep_intros)
qed

lemma keep_create [keep_intros]:
  assumes "reads_keep kernel_ok dr" and "writes_keep kernel_ok dw"
  shows "preservesK kernel_ok (create dr dw path ty ma mi)"
  unfolding create_def by (intro keep_intros assms) simp

lemma keep_paths [keep_intros]:
  assumes "reads_keep kernel_ok dr" and "writes_keep kernel_ok dw"
  shows "preservesK kernel_ok (sys_link dr dw)" "preservesK kernel_ok (sys_unlink dr dw)"
    "preservesK kernel_ok (sys_open dr dw)" "preservesK kernel_ok (sys_mkdir dr dw)"
    "preservesK kernel_ok (sys_mknod dr dw)"
  unfolding sys_link_def sys_unlink_def unlink_entry_def sys_open_def open_inode_def sys_mkdir_def sys_mknod_def Let_def
  by (intro keep_intros kernel_upd_file assms; simp)+

lemma keep_chdir [keep_intros]: "reads_keep kernel_ok dr \<Longrightarrow> preservesK kernel_ok (sys_chdir dr)"
  unfolding sys_chdir_def by (intro keep_intros kernel_proc_intros; simp)

lemma keep_sys_exec [keep_intros]: "reads_keep kernel_ok dr \<Longrightarrow> preservesK kernel_ok (sys_exec dr)"
proof -
  assume r: "reads_keep kernel_ok dr"
  have "preservesK kernel_ok (exec_args k a :: (_, 'a cmachine_scheme) kern)" for k a
    by (induction k arbitrary: a) (simp only: exec_args.simps; intro keep_intros)+
  then show ?thesis unfolding sys_exec_def by (intro keep_intros r)
qed

lemma keep_syscall [keep_intros]:
  fixes dr :: "'z cmachine_scheme dev_read"
  assumes "reads_keep kernel_ok dr" and "writes_keep kernel_ok dw"
  shows "preservesK kernel_ok (syscall dr dw)"
proof -
  have "preservesK kernel_ok f" if "syscalls dr dw n = Some f" for n f
  proof -
    let ?calls = "[sys_fork, sys_exit, sys_wait, sys_pipe, sys_read dr, sys_kill, sys_exec dr, sys_fstat,
        sys_chdir dr, sys_dup, sys_getpid, sys_sbrk, sys_sleep, sys_uptime, sys_open dr dw, sys_write dw,
        sys_mknod dr dw, sys_unlink dr dw, sys_link dr dw, sys_mkdir dr dw, sys_close, sys_hello_world,
        sys_clone, sys_join, sys_change_tickets, sys_mutex_init, sys_mutex_lock, sys_mutex_unlock,
        sys_barrier_init, sys_barrier_lock]"
    have f: "f = ?calls ! nat (n - 1)" "nat (n - 1) < length ?calls"
      using that by (auto simp: syscalls_def split: if_splits)
    have "\<forall>g\<in>set ?calls. preservesK kernel_ok g"
      by (simp only: list.set ball_simps) (intro conjI keep_intros assms TrueI)
    from bspec [OF this nth_mem [OF f(2)]] show ?thesis unfolding f(1) .
  qed
  then have c: "preservesK kernel_ok (case syscalls dr dw n of Some f \<Rightarrow> f | None \<Rightarrow> g)" if "preservesK kernel_ok g" for n g
    using that by (auto split: option.split)
  show ?thesis
    unfolding syscall_def
    by (intro preservesK_bindK preservesK_thenK preservesK_pure preservesK_modifyK keep_cur_proc keep_tables_regs
        kernel_tables c) simp
qed

section \<open>The console\<close>

lemma kernel_shown: "kernel_ok s \<Longrightarrow> shown s t \<Longrightarrow> kernel_ok t"
  by (auto simp: kernel_ok_def table_ok_def data_ok_def shown_def)

lemma kernel_screen: "kernel_ok s \<Longrightarrow> screen_ok s"
  by (simp add: kernel_ok_def data_ok_def)

lemma kernel_input:
  "kernel_ok s \<Longrightarrow> input_ok b r w e \<Longrightarrow> kernel_ok (s\<lparr>in_buf := b, in_r := r, in_w := w, in_e := e\<rparr>)"
  by (simp add: kernel_ok_def table_ok_def data_ok_def screen_ok_def cursor_def)

lemma consputc_cases:
  assumes "kernel_ok s"
  obtains (frozen) "consputc c s = Spin" | (put) t where "consputc c s = Ret () t" "shown s t"
  using consputc_shown [OF kernel_screen [OF assms], of c] by (cases "panicked s = 0") (auto simp: consputc_def)

lemma keep_consputc [keep_intros]: "preservesK kernel_ok (consputc c)"
  unfolding preservesK_def
proof (intro allI impI)
  fix s :: "'a cmachine_scheme" assume k: "kernel_ok s"
  from k show "okK kernel_ok (consputc c s)"
    by (cases rule: consputc_cases [of s c]) (auto intro: kernel_shown [OF k])
qed

lemma kernel_input_ok: "kernel_ok s \<Longrightarrow> input_ok (in_buf s) (in_r s) (in_w s) (in_e s)"
  by (simp add: kernel_ok_def data_ok_def)

lemma kill_line_bound: "kill_line e w buf \<le> unat (e - w)"
proof (induction e w buf rule: kill_line.induct)
  case (1 e w buf)
  show ?case
  proof (cases "e \<noteq> w \<and> buf ! unat ((e - 1) mod INPUT_BUF) \<noteq> 10")
    case True
    then have "unat (e - w) \<noteq> 0" by (simp add: unat_eq_zero)
    moreover have "e - 1 - w = e - w - 1" "e - w \<noteq> 0" using True by simp_all
    then have "unat (e - 1 - w) = unat (e - w) - 1" using unat_pred [of "e - w"] by metis
    ultimately show ?thesis using 1 [OF True] True by (subst kill_line.simps) simp
  qed (subst kill_line.simps, auto)
qed

lemma input_ok_erase: "input_ok b r w e \<Longrightarrow> e \<noteq> w \<Longrightarrow> input_ok b r w (e - 1)"
proof -
  assume i: "input_ok b r w e" and ne: "e \<noteq> w"
  have "unat (w - r) \<noteq> unat (e - r)" using ne word_unat_eq_iff [of "w - r" "e - r"] by auto
  then have lt: "unat (w - r) < unat (e - r)" using i by (simp add: input_ok_nat)
  then have "unat (e - 1 - r) = unat (e - r) - 1"
    using unat_pred [of "e - r"] by (metis diff_right_commute gr_implies_not0 unat_0)
  then show ?thesis using i lt by (auto simp: input_ok_nat)
qed

lemma kernel_erase: "kernel_ok s \<Longrightarrow> in_e s \<noteq> in_w s \<Longrightarrow> kernel_ok (s\<lparr>in_e := in_e s - 1\<rparr>)"
  using kernel_input [of s "in_buf s" "in_r s" "in_w s" "in_e s - 1"] input_ok_erase [OF kernel_input_ok, of s] by simp

lemma keep_kill_line:
  fixes s :: "'z cmachine_scheme" and ks :: "nat list"
  assumes "kernel_ok s" and "length ks \<le> unat (in_e s - in_w s)"
  shows "okK kernel_ok (forK ks (\<lambda>k. thenK (modifyK (\<lambda>s. s\<lparr>in_e := in_e s - 1\<rparr>)) (consputc BACKSPACE)) s)"
  using assms
proof (induction ks arbitrary: s)
  case (Cons k ks)
  then have ne: "in_e s \<noteq> in_w s" by auto
  let ?s = "s\<lparr>in_e := in_e s - 1\<rparr>"
  have k: "kernel_ok ?s" by (rule kernel_erase [OF Cons.prems(1) ne])
  have len: "length ks \<le> unat (in_e s - 1 - in_w s)"
    using Cons.prems(2) ne unat_pred [of "in_e s - in_w s"] by (simp add: diff_right_commute)
  from k show ?case
  proof (cases rule: consputc_cases [of ?s BACKSPACE])
    case frozen
    then show ?thesis by (simp add: thenK_def bindK_def)
  next
    case (put t)
    have "in_e t = in_e s - 1" "in_w t = in_w s" using shown_sel(1) [OF put(2)] by (simp_all add: in_part_def)
    then have "length ks \<le> unat (in_e t - in_w t)" using len by simp
    from Cons.IH [OF kernel_shown [OF k put(2)] this] show ?thesis using put(1) by (simp add: thenK_def bindK_def)
  qed
qed simp

lemma kernel_insert_char:
  assumes "kernel_ok s" and "in_e s - in_r s < INPUT_BUF"
  shows "kernel_ok (insert_char x s)"
proof -
  have i: "input_ok (in_buf s) (in_r s) (in_w s) (in_e s)" by (rule kernel_input_ok [OF assms(1)])
  have "in_e s + 1 - in_r s = in_e s - in_r s + 1" by simp
  moreover have "unat (in_e s - in_r s) < 128" using assms(2) by (simp add: word_less_nat_alt)
  ultimately have "unat (in_e s + 1 - in_r s) = Suc (unat (in_e s - in_r s))"
    using unat_succ [of "in_e s - in_r s"] by metis
  then show ?thesis
    using kernel_input [OF assms(1), of "(in_buf s)[unat (in_e s mod INPUT_BUF) := of_int x]" "in_r s" "in_w s" "in_e s + 1"] i assms(2)
    by (simp add: insert_char_def input_ok_nat word_less_nat_alt)
qed

lemma kernel_finish: "kernel_ok s \<Longrightarrow> kernel_ok (s\<lparr>in_w := in_e s\<rparr>)"
  using kernel_input [of s "in_buf s" "in_r s" "in_e s" "in_e s"] kernel_input_ok [of s] by (simp add: input_ok_def)

lemma keep_consoleintr_char [keep_intros]: "preservesK kernel_ok (consoleintr_char x)"
  unfolding preservesK_def
proof (intro allI impI)
  fix s :: "'z cmachine_scheme" assume k: "kernel_ok s"
  consider (kill) "x = 21" | (erase) "x = 8 \<or> x = 127" | (drop) "x \<notin> {21, 8, 127}" "x = 0 \<or> \<not> in_e s - in_r s < INPUT_BUF"
    | (char) "x \<notin> {21, 8, 127}" "x \<noteq> 0" "in_e s - in_r s < INPUT_BUF" by blast
  then show "okK kernel_ok (consoleintr_char x s)"
  proof cases
    case kill
    then show ?thesis
      using keep_kill_line [OF k, of "[0..<kill_line (in_e s) (in_w s) (in_buf s)]"] kill_line_bound
      by (simp only: consoleintr_char_def simp_thms if_True bindK_pure length_upt diff_zero)
  next
    case erase
    then have e: "consoleintr_char x s = condK (\<lambda>s. in_e s \<noteq> in_w s)
          (thenK (modifyK (\<lambda>s. s\<lparr>in_e := in_e s - 1\<rparr>)) (consputc BACKSPACE)) s"
      by (auto simp: consoleintr_char_def)
    show ?thesis
    proof (cases "in_e s = in_w s")
      case True
      then show ?thesis using k unfolding e by (simp add: condK_def)
    next
      case False
      have "okK kernel_ok (consputc BACKSPACE (s\<lparr>in_e := in_e s - 1\<rparr>))"
        by (rule okK_keep [OF keep_consputc kernel_erase [OF k False]])
      then show ?thesis using False unfolding e by (simp add: condK_def)
    qed
  next
    case drop
    then have "consoleintr_char x s = Ret () s" by (auto simp: consoleintr_char_def condK_def)
    then show ?thesis using k by simp
  next
    case char
    have "preservesK kernel_ok (finish_char y :: (unit, 'z cmachine_scheme) kern)" for y
      unfolding finish_char_def by (intro keep_intros kernel_finish)
    then show ?thesis using consoleintr_char_type [of x s] char kernel_insert_char [OF k char(3)]
      by (simp add: preservesK_def)
  qed
qed

lemma kernel_kshift [simp]: "kernel_ok (s\<lparr>kshift := sh\<rparr>) = kernel_ok s"
  by (simp add: kernel_ok_def table_ok_def data_ok_def screen_ok_def cursor_def)

lemma keep_consoleintr [keep_intros]: "preservesK kernel_ok (consoleintr cs)"
  unfolding consoleintr_def by (intro keep_intros)

lemma keep_console [keep_intros]:
  "preservesK kernel_ok (uartintr ds)" "preservesK kernel_ok (kbdintr ds')"
  "preservesK kernel_ok (consolewrite ip buf n)" "preservesK kernel_ok (cprintf fmt as)"
  unfolding uartintr_def kbdintr_def consolewrite_def cprintf_def by (intro keep_intros; simp)+

text \<open>Taking a byte out of the ring, and putting it back.\<close>

lemma kernel_take_byte: "kernel_ok s \<Longrightarrow> in_r s \<noteq> in_w s \<Longrightarrow> kernel_ok (s\<lparr>in_r := in_r s + 1\<rparr>)"
proof -
  assume k: "kernel_ok s" and ne: "in_r s \<noteq> in_w s"
  have i: "input_ok (in_buf s) (in_r s) (in_w s) (in_e s)" by (rule kernel_input_ok [OF k])
  have "in_w s - in_r s \<noteq> 0" using ne by simp
  moreover have "in_w s - (in_r s + 1) = in_w s - in_r s - 1" "in_e s - (in_r s + 1) = in_e s - in_r s - 1"
    by (simp_all add: diff_diff_eq)
  moreover have "in_e s - in_r s \<noteq> 0"
    using i \<open>in_w s - in_r s \<noteq> 0\<close> by (auto simp: input_ok_def)
  ultimately have "unat (in_w s - (in_r s + 1)) = unat (in_w s - in_r s) - 1"
    "unat (in_e s - (in_r s + 1)) = unat (in_e s - in_r s) - 1"
    using unat_pred [of "in_w s - in_r s"] unat_pred [of "in_e s - in_r s"] by metis+
  then have "input_ok (in_buf s) (in_r s + 1) (in_w s) (in_e s)" using i by (auto simp: input_ok_nat)
  from kernel_input [OF k this] show ?thesis by simp
qed

lemma keep_consoleread_loop: "preservesK kernel_ok (consoleread_loop ip n acc :: (int \<times> uchar list, 'z cmachine_scheme) kern)"
proof (induction n arbitrary: acc)
  have e: "preservesK kernel_ok (consoleread_end ip r acc :: (int \<times> uchar list, 'z cmachine_scheme) kern)" for r acc
    unfolding consoleread_end_def by (intro keep_intros)
  case 0
  then show ?case using e by simp
next
  have e: "preservesK kernel_ok (consoleread_end ip r acc :: (int \<times> uchar list, 'z cmachine_scheme) kern)" for r acc
    unfolding consoleread_end_def by (intro keep_intros)
  case (Suc n)
  show ?case unfolding preservesK_def
  proof (intro allI impI)
    fix s :: "'z cmachine_scheme" assume k: "kernel_ok s"
    show "okK kernel_ok (consoleread_loop ip (Suc n) acc s)"
    proof (cases "in_r s = in_w s")
      case True
      have "preservesK kernel_ok (bindK cur_proc (\<lambda>cur. bindK (getsK (\<lambda>s. killed (procs s ! cur))) (\<lambda>k.
          if k \<noteq> 0 then consoleread_end ip (- 1) acc else thenK (sleep ChanInput (Some ConsLock)) (retK (0, []))))
          :: (int \<times> uchar list, 'z cmachine_scheme) kern)"
        by (intro keep_intros e)
      from okK_keep [OF this k] show ?thesis using True by simp
    next
      case False
      note t = kernel_take_byte [OF k False]
      let ?c = "in_buf s ! unat (in_r s mod INPUT_BUF)"
      have "okK kernel_ok (consoleread_end ip r acc s)" for r by (rule okK_keep [OF e k])
      moreover have "okK kernel_ok (consoleread_end ip r acc' (s\<lparr>in_r := in_r s + 1\<rparr>))" for r acc' by (rule okK_keep [OF e t])
      moreover have "okK kernel_ok (consoleread_loop ip n acc' (s\<lparr>in_r := in_r s + 1\<rparr>))" for acc' by (rule okK_keep [OF Suc t])
      ultimately show ?thesis using False by (simp add: whenK_def)
    qed
  qed
qed

lemma keep_consoleread [keep_intros]:
  "preservesK kernel_ok (consoleread ip n)" "preservesK kernel_ok (consoleread_resume c ip k acc)"
  unfolding consoleread_def consoleread_resume_def by (intro keep_intros keep_consoleread_loop)+

lemma devices_keep [keep_intros]: "reads_keep kernel_ok devsw_read" "writes_keep kernel_ok devsw_write"
  by (auto simp: reads_keep_def writes_keep_def devsw_read_def devsw_write_def keep_consoleread keep_console split: if_splits)

section \<open>Traps\<close>

lemma kernel_lapicw [simp]: "kernel_ok (lapicw i v s) = kernel_ok s"
proof -
  have "vmachine.more (lapicw i v s) = vmachine.more s" by (simp add: lapicw_def)
  then show ?thesis using kernel_tables unfolding tables_only_def by metis
qed

lemma keep_trap_parts [keep_intros]:
  "preservesK kernel_ok lapiceoi" "preservesK kernel_ok ideintr" "preservesK kernel_ok exit_if_killed"
  "preservesK kernel_ok timer_tick" "preservesK kernel_ok (trap_exit tfp)" "preservesK kernel_ok (trap_yield no)"
  unfolding lapiceoi_def ideintr_def exit_if_killed_def timer_tick_def trap_exit_def trap_yield_def cpuid_def
  by (intro keep_intros; simp)+

lemma keep_trap [keep_intros]:
  "preservesK kernel_ok (trap inp tfp)" "preservesK kernel_ok (trap_resume c tfp)"
proof -
  have "preservesK kernel_ok (trap_syscall tfp)" unfolding trap_syscall_def by (intro keep_intros kernel_proc_intros) simp_all
  moreover have "preservesK kernel_ok (trap_default inp tfp no)" for no
    unfolding trap_default_def cpuid_def by (intro keep_intros kernel_proc_intros) simp_all
  ultimately show "preservesK kernel_ok (trap inp tfp)"
    unfolding trap_def trap_switch_def cpuid_def by (intro keep_intros)
  show "preservesK kernel_ok (trap_resume c tfp)" unfolding trap_resume_def by (intro keep_intros)
qed

section \<open>The scheduler\<close>

lemma kernel_zs [simp]: "kernel_ok (s\<lparr>zs := z\<rparr>) = kernel_ok s"
  by (simp add: kernel_ok_def table_ok_def data_ok_def screen_ok_def cursor_def)

lemma kernel_sti [simp]: "kernel_ok (sti s) = kernel_ok s" "kernel_ok (set_cproc c p s) = kernel_ok s"
proof -
  have "vmachine.more (sti s) = vmachine.more s" by (rule vmachine_more) simp
  then show "kernel_ok (sti s) = kernel_ok s" using kernel_tables unfolding tables_only_def by metis
  show "kernel_ok (set_cproc c p s) = kernel_ok s" by (simp add: set_cproc_def tables_only_eq [OF kernel_tables])
qed

lemma keep_kernel_scheduler [keep_intros]:
  "preservesK kernel_ok (scheduler_round c)" "preservesK kernel_ok (scheduler_back c i)"
proof -
  have s: "preservesK kernel_ok (scheduler_scan c js)" for c js
    by (rule keep_any_scan [OF kernel_tables]) (simp_all add: kernel_upd_proc)
  show "preservesK kernel_ok (scheduler_round c)" "preservesK kernel_ok (scheduler_back c i)"
    unfolding scheduler_round_def scheduler_back_def switchkvm_def by (intro keep_intros s; simp)+
qed

section \<open>Reachable states\<close>

text \<open>
  The steps of the kernel. \<open>runs f s t\<close>: \<open>f\<close>, started in \<open>s\<close>, returns or gives up the CPU in \<open>t\<close>. A step
  is a trap, the rest of a call that had gone to sleep, the first return of a new process, a
  pass of the scheduler, or user code, which touches memory and the CPU but none of the
  tables.
\<close>

definition runs :: "('a, 's) kern \<Rightarrow> 's \<Rightarrow> 's \<Rightarrow> bool" where
  "runs f s t \<longleftrightarrow> (\<exists>x. f s = Ret x t) \<or> f s = Block t"

inductive kernel_step :: "'z cmachine_scheme \<Rightarrow> 'z cmachine_scheme \<Rightarrow> bool" where
  trap: "runs (trap inp tfp) s t \<Longrightarrow> kernel_step s t"
| user: "vmachine.more t = vmachine.more s \<Longrightarrow> kernel_step s t"
| first_return: "runs forkret s t \<Longrightarrow> kernel_step s t"
| sched_pick: "runs (scheduler_round c) s t \<Longrightarrow> kernel_step s t"
| sched_back: "runs (scheduler_back c i) s t \<Longrightarrow> kernel_step s t"
| yielded: "runs (trap_resume i tfp) s t \<Longrightarrow> kernel_step s t"
| woken_lock: "runs (acquiresleep_resume i l) s t \<Longrightarrow> kernel_step s t"
| woken_log: "runs (begin_op_resume i) s t \<Longrightarrow> kernel_step s t"
| woken_pipe_w: "runs (pipewrite_resume i p xs n) s t \<Longrightarrow> kernel_step s t"
| woken_pipe_r: "runs (piperead_resume i p n) s t \<Longrightarrow> kernel_step s t"
| woken_console: "runs (consoleread_resume i ip k acc) s t \<Longrightarrow> kernel_step s t"
| woken_wait: "runs (wait_resume i) s t \<Longrightarrow> kernel_step s t"
| woken_join: "runs (join_resume st i) s t \<Longrightarrow> kernel_step s t"
| woken_sleep: "runs (sys_sleep_resume i t0 n) s t \<Longrightarrow> kernel_step s t"
| woken_mutex: "runs (mutex_lock_resume i j) s t \<Longrightarrow> kernel_step s t"
| woken_barrier: "runs (barrier_lock_resume i) s t \<Longrightarrow> kernel_step s t"

lemma runs_kernel: "runs f s t \<Longrightarrow> kernel_ok s \<Longrightarrow> preservesK kernel_ok f \<Longrightarrow> kernel_ok t"
  by (auto simp: runs_def dest: preservesK_Ret preservesK_Block)

lemma kernel_step_keep: "kernel_step s t \<Longrightarrow> kernel_ok s \<Longrightarrow> kernel_ok t"
proof (induction rule: kernel_step.induct)
  case (user t s)
  then show ?case using kernel_tables unfolding tables_only_def by metis
qed (erule (1) runs_kernel, intro keep_intros)+

lemma kernel_ok_booted: "kernel_ok booted"
proof -
  have "proc_inv (procs pm_demo) 2"
    unfolding proc_inv_iff
  proof (intro conjI allI impI)
    show "length (procs pm_demo) = NPROC" by (rule pm_demo_sel)
    have e: "procs pm_demo ! i = (if i = 0 then blank_proc\<lparr>pstate := RUNNING, pid := 1, tickets := 1\<rparr> else blank_proc)"
      if "i < 64" for i
      using that by (simp add: pm_demo_sel(6) nth_Cons')
    fix i j assume i: "i < length (procs pm_demo)"
    then have i': "i < 64" by (simp add: pm_demo_sel(9))
    show "0 \<le> pid (procs pm_demo ! i)" "pid (procs pm_demo ! i) < 2" "length (ofile (procs pm_demo ! i)) = NOFILE"
      "length (pname (procs pm_demo ! i)) = 16"
      using e [OF i'] by (simp_all add: blank_proc_def)
    assume j: "j < length (procs pm_demo)" "pid (procs pm_demo ! i) = pid (procs pm_demo ! j)" "pid (procs pm_demo ! i) \<noteq> 0"
    then show "i = j" using e [OF i'] e [of j] by (auto simp: pm_demo_sel(9) blank_proc_def split: if_splits)
  qed simp
  moreover have "data_ok booted"
    using booted_console(1) by (simp add: data_ok_def pipe_ok_def log_ok_def input_ok_def)
  ultimately show ?thesis by (simp add: kernel_ok_def table_ok_def pm_demo_sel)
qed

interpretation kernel: invariant_system "\<lambda>s. s = booted" kernel_step kernel_ok
proof unfold_locales
  show "s = booted \<Longrightarrow> kernel_ok s" for s
    using kernel_ok_booted by simp
  show "kernel_ok s \<Longrightarrow> kernel_step s t \<Longrightarrow> kernel_ok t" for s t :: cmachine
    by (rule kernel_step_keep)
qed

end
