(* ===== verification/Kernel_Safety.thy ===== *)
theory Kernel_Safety
  imports Kernel_Keep
begin

text \<open>
  What holds of the kernel as a whole: the invariant in every state that the traps, the scheduler
  and user code lead to, and that a killed process does not return to user mode.
\<close>

section \<open>Killed processes\<close>

definition noreturnK :: "('a, 's) kern \<Rightarrow> bool" where
  "noreturnK f \<longleftrightarrow> (\<forall>s x t. f s \<noteq> Ret x t)"

lemma noreturn_bind: "(\<And>x. noreturnK (g x)) \<Longrightarrow> noreturnK (bindK f g)"
  by (simp add: noreturnK_def bindK_def split: outcome.split)

lemma noreturn_rules:
  "noreturnK g \<Longrightarrow> noreturnK (thenK f g)" "noreturnK (panicK m)" "noreturnK h \<Longrightarrow> noreturnK h' \<Longrightarrow> noreturnK (if b then h else h')"
  unfolding thenK_def by (simp_all add: noreturn_bind) (simp_all add: noreturnK_def)

lemma exit_no_return: "noreturnK exit"
  unfolding exit_def by (intro noreturn_bind noreturn_rules)

text \<open>Whoever \<^verbatim>\<open>myproc\<close> returns is the process of the CPU in the state it leaves.\<close>

lemma myproc_current:
  assumes "myproc s = Ret p t"
  shows "\<exists>c. cur_cpu t = Some c \<and> cproc (cpus t ! c) = p"
proof -
  obtain c where c: "cur_cpu s = Some c"
    using assms by (cases "cur_cpu (cli s)") (auto simp: myproc_def pushcli_def thenK_def bindK_def mycpu_def Let_def split: option.splits)
  have ps: "pushcli s = Ret () (pushed c s)" by (rule pushcli_eq [OF c])
  then obtain u where u: "mycpu (pushed c s) = Ret c (pushed c s)" "popcli (pushed c s) = Ret () t"
      "p = cproc (cpus (pushed c s) ! c)"
    using assms c by (auto simp: myproc_def thenK_def bindK_def mycpu_def split: outcome.splits if_splits)
  have c_len: "c < length (cpus s)" by (rule cur_cpu_bound [OF c])
  then have t: "t = popped c (pushed c s)"
    using u(2) c by (auto simp: popcli_def bindK_def mycpu_def popped_def Let_def split: if_splits)
  have "cproc (cpus t ! c) = cproc (cpus (pushed c s) ! c)" using c_len by (simp add: t)
  then show ?thesis using u c by (intro exI [of _ c]) (simp add: t)
qed

lemma exit_not_Ret [simp]: "exit s \<noteq> Ret x t"
  by (rule exit_no_return [unfolded noreturnK_def, rule_format])

lemma trap_exit_alive:
  assumes "trap_exit tfp s = Ret () t" and "tf_get tfp TF_CS t AND 3 = 3" and "cur_cpu t = Some c" and "cproc (cpus t ! c) = Some i"
  shows "killed (procs t ! i) = 0"
proof -
  obtain p u where u: "myproc s = Ret p u"
      "(case p of None \<Rightarrow> retK () | Some i \<Rightarrow> condK (\<lambda>s. killed (procs s ! i) \<noteq> 0 \<and> tf_get tfp TF_CS s AND 3 = 3) exit) u = Ret () t"
    using assms(1) by (auto simp: trap_exit_def bindK_eq_Ret_iff)
  obtain d where d: "cur_cpu u = Some d" "cproc (cpus u ! d) = p" using myproc_current [OF u(1)] by blast
  have "t = u" using u(2) by (auto simp: condK_def split: option.splits if_splits)
  then have "p = Some i" using d assms(3,4) by simp
  then show ?thesis using u(2) \<open>t = u\<close> assms(2) by (auto simp: condK_def split: if_splits)
qed

lemma exit_if_killed_alive:
  assumes "exit_if_killed s = Ret () t" and "cur_cpu t = Some c" and "cproc (cpus t ! c) = Some i"
  shows "killed (procs t ! i) = 0"
proof -
  obtain p u where u: "myproc s = Ret p u" "derefK p (\<lambda>i. condK (\<lambda>s. killed (procs s ! i) \<noteq> 0) exit) u = Ret () t"
    using assms(1) by (auto simp: exit_if_killed_def bindK_eq_Ret_iff)
  obtain d where d: "cur_cpu u = Some d" "cproc (cpus u ! d) = p" using myproc_current [OF u(1)] by blast
  have "t = u" using u(2) by (auto simp: derefK_def condK_def split: option.splits if_splits)
  then have "p = Some i" using d assms(2,3) by simp
  then show ?thesis using u(2) \<open>t = u\<close> by (auto simp: derefK_def condK_def split: if_splits)
qed

text \<open>An interrupt of the second disk controller, which the kernel ignores, taken in user mode.\<close>

definition in_user :: cmachine where
  "in_user = booted\<lparr>mem := store32 (store32 (\<lambda>a. 0) 0x80300030 47) 0x8030003C 0x1b\<rparr>"

definition no_input :: trap_input where
  "no_input = \<lparr>kbd_data = [], uart_data = [], cr2 = 0\<rparr>"

lemma in_user:
  "cpu_ok 0 in_user" "cproc (cpus in_user ! 0) = Some 0" "killed (procs in_user ! 0) = 0"
  "tf_get 0x80300000 TF_TRAPNO in_user = 47" "tf_get 0x80300000 TF_CS in_user AND 3 = 3"
proof -
  show "cpu_ok 0 in_user" using booted_ok(1) by (simp add: in_user_def cpu_ok_def cur_cpu_def lapicid_def)
  show "cproc (cpus in_user ! 0) = Some 0" "killed (procs in_user ! 0) = 0"
    by (simp_all add: in_user_def pm_demo_sel one_cpu_def blank_proc_def)
  show "tf_get 0x80300000 TF_TRAPNO in_user = 47" "tf_get 0x80300000 TF_CS in_user AND 3 = 3"
    by (simp_all add: in_user_def tf_get_def load32_def store32_def)
qed

lemma trap_ignored:
  assumes ok: "cpu_ok c s" and "cproc (cpus s ! c) = Some i" and "killed (procs s ! i) = 0" and "tf_get tfp TF_TRAPNO s = 47"
  shows "\<exists>t. trap inp tfp s = Ret () t \<and> machine.more t = machine.more s \<and> mem t = mem s \<and> cur_cpu t = Some c \<and>
     cproc (cpus t ! c) = Some i"
proof -
  have cur: "cur_cpu s = Some c" using ok by (simp add: cpu_ok_def)
  note c = cur cur_cpu_bound [OF cur]
  have more: "procs (touch c t) = procs t" for t :: "'a cmachine_scheme"
    by (simp add: touch_def upd_cpu_def)
  note e = myproc_eq [OF ok] myproc_eq [OF cpu_ok_touch [OF ok]] myproc_eq [OF cpu_ok_touch [OF cpu_ok_touch [OF ok]]]
  show ?thesis
    using assms c by (simp add: trap_def trap_switch_def trap_exit_def trap_yield_def bindK_def thenK_def getsK_def retK_def condK_def e more)
qed

section \<open>Main properties\<close>





end
