(* ===== verification/Bio_Inv.thy ===== *)
theory Bio_Inv
  imports Boot_State
begin

text \<open>
  The sleep locks and the buffer cache, when the calling process does not have to wait: what each
  operation does, as an equation on the part of the state above the process table.
\<close>

section \<open>Running a process between its calls of the kernel's locks\<close>

text \<open>
  \<open>calm c i q s\<close>: process \<open>i\<close>, whose process id is \<open>q\<close>, runs on CPU \<open>c\<close> and all spin locks are free.
  \<open>within c i q L s\<close>: the same, inside a critical section of the lock \<open>L\<close>.
\<close>

definition calm :: "nat \<Rightarrow> nat \<Rightarrow> int \<Rightarrow> 'z pmachine_scheme \<Rightarrow> bool" where
  "calm c i q s \<longleftrightarrow> cpu_ok c s \<and> ncli (cpus s ! c) = 0 \<and> cproc (cpus s ! c) = Some i \<and> (\<forall>L. lock_free L s) \<and>
     i < length (procs s) \<and> pid (procs s ! i) = q"

definition within :: "nat \<Rightarrow> nat \<Rightarrow> int \<Rightarrow> lockid \<Rightarrow> 'z pmachine_scheme \<Rightarrow> bool" where
  "within c i q L s \<longleftrightarrow> (\<exists>s0. calm c i q s0 \<and> same_cpu c (took c L s0 :: 'z pmachine_scheme) s) \<and>
     i < length (procs s) \<and> pid (procs s ! i) = q"

lemma calm_cong:
  assumes "calm c i q s" and "same_cpu c s t" and "i < length (procs t)" and "pid (procs t ! i) = q"
  shows "calm c i q t"
  using assms cpu_ok_same_cpu [OF assms(2)] same_cpu_nth(3,4) [OF assms(2)] lock_free_same_cpu [OF assms(2)]
  by (simp add: calm_def)

lemma within_cong:
  assumes "within c i q L s" and "same_cpu c s t" and "i < length (procs t)" and "pid (procs t ! i) = q"
  shows "within c i q L t"
  using assms same_cpu_trans [OF _ assms(2)] unfolding within_def by blast

lemma calm_acquire:
  assumes "calm c i q s"
  shows "acquire L s = Ret () (took c L s)" "within c i q L (took c L s)"
proof -
  show "acquire L s = Ret () (took c L s)"
    using assms acquire_free [of c s L] by (simp add: calm_def lock_free_def)
  show "within c i q L (took c L s)"
    using assms unfolding within_def by (intro conjI exI [of _ s]) (simp_all add: calm_def)
qed

lemma within_release:
  assumes "within c i q L s"
  shows "release L s = Ret () (dropped c L s)" "calm c i q (dropped c L s)" "myproc s = Ret (Some i) s"
    "owns c L s" "ncli (cpus s ! c) = 1" "cproc (cpus s ! c) = Some i" "K \<noteq> L \<Longrightarrow> lock_free K s"
proof -
  obtain s0 :: "'a pmachine_scheme" where s0: "calm c i q s0" and sc: "same_cpu c (took c L s0) s"
    using assms by (auto simp: within_def)
  have ok: "cpu_ok c s0" and fr: "lock_free L s0" using s0 by (simp_all add: calm_def)
  show own: "owns c L s" by (rule owns_same_cpu [OF sc owns_took [OF ok]])
  have c: "c < length (cpus s0)" using ok by (auto simp: cpu_ok_def dest: cur_cpu_bound)
  show "ncli (cpus s ! c) = 1" using same_cpu_nth(3) [OF sc] s0 c by (simp add: calm_def)
  show "K \<noteq> L \<Longrightarrow> lock_free K s" using s0 lock_free_same_cpu [OF sc] lock_free_took [of L K c s0] by (simp add: calm_def)
  show "release L s = Ret () (dropped c L s)" by (rule release_owned [OF own])
  show "calm c i q (dropped c L s)"
    using assms by (intro calm_cong [OF s0 same_cpu_dropped [OF ok fr sc]]) (simp_all add: within_def)
  show cp: "cproc (cpus s ! c) = Some i" using same_cpu_nth(4) [OF sc] s0 c by (simp add: calm_def)
  then show "myproc s = Ret (Some i) s"
    using myproc_eq [OF owns_cpu_ok [OF own]] touch_owned [OF own] by simp
qed

lemma within_wakeup_procs:
  assumes "within c i q L s" and "L \<noteq> PtableLock"
  shows "\<exists>t. wakeup ch s = Ret () t \<and> within c i q L t \<and> pmachine.more t = pmachine.more s \<and>
    procs t = map (woken (Some ch)) (procs s)"
proof -
  obtain s0 :: "'a pmachine_scheme" where s0: "calm c i q s0" and sc: "same_cpu c (took c L s0) s"
    using assms(1) by (auto simp: within_def)
  have ok: "cpu_ok c s"
    using s0 by (intro cpu_ok_same_cpu [OF sc] cpu_ok_took) (simp add: calm_def)
  have "lock_free PtableLock s"
    using s0 assms(2) by (simp add: lock_free_same_cpu [OF sc] lock_free_took calm_def)
  then obtain t where t: "wakeup ch s = Ret () t" "only_procs c s t (map (woken (Some ch)) (procs s))"
    using wakeup_eq [OF ok] by blast
  have "pid (woken (Some ch) p) = pid p" for p by (simp add: woken_def)
  then have "within c i q L t"
    using assms(1) t(2) only_procs_procs(1) [OF t(2)]
    by (intro within_cong [OF assms(1)]) (simp_all add: only_procs_def within_def)
  moreover have "pmachine.more t = pmachine.more s"
    using t(2) pm_of_machine(17) [of t "s\<lparr>procs := map (woken (Some ch)) (procs s)\<rparr>"] by (simp add: only_procs_def)
  ultimately show ?thesis using t(1) only_procs_procs(1) [OF t(2)] by blast
qed

lemma within_wakeup:
  assumes "within c i q L s" and "L \<noteq> PtableLock"
  shows "\<exists>t. wakeup ch s = Ret () t \<and> within c i q L t \<and> pmachine.more t = pmachine.more s"
  using within_wakeup_procs [OF assms] by blast

lemma pm_upper [simp]:
  "pmachine.more (took c L s) = pmachine.more s" "pmachine.more (dropped c L s) = pmachine.more s"
  "pmachine.more (touch c s) = pmachine.more s"
  by (rule pm_of_machine, simp)+

lemma calm_myproc:
  assumes "calm c i q s"
  shows "myproc s = Ret (Some i) (touch c s)" "calm c i q (touch c s)"
  using assms myproc_eq [of c s] calm_cong [OF assms same_cpu_touch] by (simp_all add: calm_def)

section \<open>Sleep locks\<close>

lemma sl_of_upper:
  assumes "pmachine.more t = pmachine.more s"
  shows "sleeplks t = sleeplks s" "slmachine.more t = slmachine.more s"
  using assms by (cases s; cases t; simp)+

lemma sl_section [simp]:
  "sleeplks (took c L s1) = sleeplks s1" "sleeplks (dropped c L s2) = sleeplks s2" "sleeplks (touch c s3) = sleeplks s3"
  by (rule sl_of_upper, simp)+

lemma upd_sleep_sel [simp]:
  "procs (upd_sleep l f s) = procs s" "same_cpu c s (upd_sleep l f s)"
  "sleeplks (upd_sleep l f s) = (sleeplks s)(l := f (sleeplks s l))"
  "slmachine.more (upd_sleep l f s) = slmachine.more s"
  by (simp_all add: upd_sleep_def) (rule same_cpuI; simp)

lemma upper_upd_sleep:
  "pmachine.more t = pmachine.more s \<Longrightarrow> pmachine.more (upd_sleep l f t) = pmachine.more (upd_sleep l f s)"
  by (cases s; cases t) (simp add: upd_sleep_def)

lemma upd_sleep_twice: "upd_sleep l f (upd_sleep l g s) = upd_sleep l (f \<circ> g) s"
  by (simp add: upd_sleep_def)

lemma acquiresleep_free:
  assumes "calm c i q s" and "sl_locked (sleeplks s l) = 0"
  shows "\<exists>t. acquiresleep l s = Ret () t \<and> calm c i q t \<and>
    pmachine.more t = pmachine.more (upd_sleep l (\<lambda>k. k\<lparr>sl_locked := 1, sl_pid := q\<rparr>) s)"
proof -
  let ?s1 = "took c (SleepLk l) s"
  let ?s2 = "upd_sleep l (\<lambda>k. k\<lparr>sl_locked := 1\<rparr>) ?s1"
  let ?s3 = "upd_sleep l (\<lambda>k. k\<lparr>sl_pid := q\<rparr>) ?s2"
  note a = calm_acquire [OF assms(1), of "SleepLk l"]
  have w2: "within c i q (SleepLk l) ?s2" using a(2) by (rule within_cong) (use a(2) in \<open>simp_all add: within_def\<close>)
  have w3: "within c i q (SleepLk l) ?s3" using w2 by (rule within_cong) (use w2 in \<open>simp_all add: within_def\<close>)
  have p: "pid (procs ?s2 ! i) = q" using w2 by (simp add: within_def)
  have "acquiresleep l s = Ret () (dropped c (SleepLk l) ?s3)"
    using assms(2) a within_release(3) [OF w2] within_release(1) [OF w3] p
    by (simp add: acquiresleep_def acquiresleep_loop_def thenK_def bindK_def derefK_def)
  moreover have "pmachine.more ?s3 = pmachine.more (upd_sleep l (\<lambda>k. k\<lparr>sl_locked := 1, sl_pid := q\<rparr>) s)"
    unfolding upd_sleep_twice by (simp add: comp_def) (rule upper_upd_sleep, simp)
  ultimately show ?thesis using within_release(2) [OF w3] by (metis pm_upper(2))
qed

lemma releasesleep_eq:
  assumes "calm c i q s"
  shows "\<exists>t. releasesleep l s = Ret () t \<and> calm c i q t \<and>
    pmachine.more t = pmachine.more (upd_sleep l (\<lambda>k. k\<lparr>sl_locked := 0, sl_pid := 0\<rparr>) s)"
proof -
  let ?s1 = "took c (SleepLk l) s"
  let ?s2 = "upd_sleep l (\<lambda>k. k\<lparr>sl_locked := 0, sl_pid := 0\<rparr>) ?s1"
  note a = calm_acquire [OF assms(1), of "SleepLk l"]
  have w2: "within c i q (SleepLk l) ?s2" using a(2) by (rule within_cong) (use a(2) in \<open>simp_all add: within_def\<close>)
  obtain t where t: "wakeup (ChanSleeplock l) ?s2 = Ret () t" "within c i q (SleepLk l) t"
      "pmachine.more t = pmachine.more ?s2"
    using within_wakeup [OF w2] by blast
  have "releasesleep l s = Ret () (dropped c (SleepLk l) t)"
    using a t(1) within_release(1) [OF t(2)] by (simp add: releasesleep_def thenK_def bindK_def)
  moreover have "pmachine.more ?s2 = pmachine.more (upd_sleep l (\<lambda>k. k\<lparr>sl_locked := 0, sl_pid := 0\<rparr>) s)"
    by (rule upper_upd_sleep) simp
  ultimately show ?thesis using within_release(2) [OF t(2)] t(3) by (metis pm_upper(2))
qed

lemma holdingsleep_eq:
  assumes "calm c i q s"
  shows "\<exists>t. holdingsleep l s = Ret (sl_locked (sleeplks s l) \<noteq> 0 \<and> sl_pid (sleeplks s l) = q) t \<and>
    calm c i q t \<and> pmachine.more t = pmachine.more s"
proof -
  let ?s1 = "took c (SleepLk l) s"
  note a = calm_acquire [OF assms(1), of "SleepLk l"]
  have p: "pid (procs s ! i) = q" using assms by (simp add: calm_def)
  have "holdingsleep l s = Ret (sl_locked (sleeplks s l) \<noteq> 0 \<and> sl_pid (sleeplks s l) = q) (dropped c (SleepLk l) ?s1)"
    using a within_release [OF a(2)] p by (simp add: holdingsleep_def thenK_def bindK_def derefK_def)
  then show ?thesis using within_release(2) [OF a(2)] by simp
qed

section \<open>Buffers\<close>

definition valid :: "buf \<Rightarrow> bool" where
  "valid b \<longleftrightarrow> bflags b AND B_VALID \<noteq> 0"

definition dirty :: "buf \<Rightarrow> bool" where
  "dirty b \<longleftrightarrow> bflags b AND B_DIRTY \<noteq> 0"

lemma bit_flags: "bit (2 :: int) n \<longleftrightarrow> n = 1" "bit (4 :: int) n \<longleftrightarrow> n = 2" "bit (6 :: int) n \<longleftrightarrow> n = 1 \<or> n = 2"
  "bit (- 5 :: int) n \<longleftrightarrow> n \<noteq> 2"
proof -
  show two: "bit (2 :: int) n \<longleftrightarrow> n = 1" for n using bit_exp_iff [where 'a = int, of 1 n] by auto
  show four: "bit (4 :: int) n \<longleftrightarrow> n = 2" for n using bit_exp_iff [where 'a = int, of 2 n] by auto
  have "(6 :: int) = 2 OR 4" "(- 5 :: int) = NOT 4" by simp_all
  then show "bit (6 :: int) n \<longleftrightarrow> n = 1 \<or> n = 2" "bit (- 5 :: int) n \<longleftrightarrow> n \<noteq> 2"
    by (simp_all only: bit_or_iff bit_not_iff_eq two four) simp
qed

lemma word_bits_iff: "(v :: uint32) = w \<longleftrightarrow> (\<forall>n<32. bit v n = bit w n)"
  by (auto intro: bit_word_eqI)

lemma flag_bits:
  fixes w :: uint32
  shows "w AND 2 = 0 \<longleftrightarrow> \<not> bit w 1" "w AND 4 = 0 \<longleftrightarrow> \<not> bit w 2" "w AND 6 = 2 \<longleftrightarrow> bit w 1 \<and> \<not> bit w 2"
  by (auto simp: word_bits_iff bit_and_iff bit_flags dest: spec [of _ "Suc 0"] spec [of _ 2])

lemma flag_updates [simp]:
  "valid (b\<lparr>bflags := bflags b OR 2\<rparr>)" "dirty (b\<lparr>bflags := bflags b OR 2\<rparr>) = dirty b"
  "valid (b\<lparr>bflags := bflags b AND - 5 OR 2\<rparr>)" "\<not> dirty (b\<lparr>bflags := bflags b AND - 5 OR 2\<rparr>)"
  "valid (b\<lparr>bflags := bflags b OR 4\<rparr>) = valid b" "dirty (b\<lparr>bflags := bflags b OR 4\<rparr>)"
  by (auto simp: valid_def dirty_def flag_bits bit_or_iff bit_and_iff bit_flags)

lemma upd_buf_sel [simp]:
  "procs (upd_buf b f s) = procs s" "same_cpu c s (upd_buf b f s)" "sleeplks (upd_buf b f s) = sleeplks s"
  "bufs (upd_buf b f s) = (bufs s)[b := f (bufs s ! b)]" "head_prev (upd_buf b f s) = head_prev s"
  "head_next (upd_buf b f s) = head_next s" "memdisk (upd_buf b f s) = memdisk s" "disksize (upd_buf b f s) = disksize s"
  "dwrites (upd_buf b f s) = dwrites s" "bmachine.more (upd_buf b f s) = bmachine.more s"
  by (simp_all add: upd_buf_def) (rule same_cpuI; simp)

lemma disk_write_sel [simp]:
  "procs (disk_write k d s) = procs s" "same_cpu c s (disk_write k d s)" "sleeplks (disk_write k d s) = sleeplks s"
  "bufs (disk_write k d s) = bufs s" "head_prev (disk_write k d s) = head_prev s"
  "head_next (disk_write k d s) = head_next s" "memdisk (disk_write k d s) = (memdisk s)[k := d]"
  "disksize (disk_write k d s) = disksize s"
  "dwrites (disk_write k d s) = dwrites s @ [(k, d)]" "bmachine.more (disk_write k d s) = bmachine.more s"
  by (simp_all add: disk_write_def) (rule same_cpuI; simp)

lemma bio_of_upper:
  assumes "pmachine.more t = pmachine.more s"
  shows "sleeplks t = sleeplks s" "bufs t = bufs s" "head_prev t = head_prev s" "head_next t = head_next s"
    "memdisk t = memdisk s" "disksize t = disksize s" "dwrites t = dwrites s" "bmachine.more t = bmachine.more s"
  using assms by (cases s; cases t; simp)+

lemma bio_of_slmachine:
  assumes "slmachine.more t = slmachine.more s"
  shows "bufs t = bufs s" "head_prev t = head_prev s" "head_next t = head_next s"
    "memdisk t = memdisk s" "disksize t = disksize s" "dwrites t = dwrites s" "bmachine.more t = bmachine.more s"
  using assms by (cases s; cases t; simp)+

lemma bio_section [simp]:
  "bufs (took c L s1) = bufs s1" "bufs (dropped c L s2) = bufs s2"
  "head_prev (took c L s3) = head_prev s3" "head_prev (dropped c L s4) = head_prev s4"
  "head_next (took c L s5) = head_next s5" "head_next (dropped c L s6) = head_next s6"
  "memdisk (took c L s7) = memdisk s7" "memdisk (dropped c L s8) = memdisk s8"
  "disksize (took c L s9) = disksize s9" "disksize (dropped c L s10) = disksize s10"
  "dwrites (took c L s11) = dwrites s11" "dwrites (dropped c L s12) = dwrites s12"
  "bmachine.more (took c L s13) = bmachine.more s13" "bmachine.more (dropped c L s14) = bmachine.more s14"
  by (rule bio_of_upper, simp)+

lemma bio_upd_sleep [simp]:
  "bufs (upd_sleep l f s1) = bufs s1" "head_prev (upd_sleep l f s2) = head_prev s2"
  "head_next (upd_sleep l f s3) = head_next s3" "memdisk (upd_sleep l f s4) = memdisk s4"
  "disksize (upd_sleep l f s5) = disksize s5" "dwrites (upd_sleep l f s6) = dwrites s6"
  "bmachine.more (upd_sleep l f s7) = bmachine.more s7"
  by (rule bio_of_slmachine, simp)+

lemma calm_upd [simp]:
  "calm c i q s \<Longrightarrow> calm c i q (upd_buf b f s)" "calm c i q s \<Longrightarrow> calm c i q (disk_write k d s)"
proof -
  assume a: "calm c i q s"
  show "calm c i q (upd_buf b f s)" "calm c i q (disk_write k d s)"
    using a by (auto intro!: calm_cong [OF a]) (auto simp: calm_def)
qed

section \<open>The disk\<close>

text \<open>\<open>keeps_buf q b s\<close>: the process with id \<open>q\<close> has the buffer \<open>b\<close> locked.\<close>

definition keeps_buf :: "int \<Rightarrow> nat \<Rightarrow> 'z bmachine_scheme \<Rightarrow> bool" where
  "keeps_buf q b s \<longleftrightarrow> sl_locked (sleeplks s (BufLock b)) \<noteq> 0 \<and> sl_pid (sleeplks s (BufLock b)) = q"

lemma iderw_read:
  assumes "calm c i q s" and "keeps_buf q b s" and "\<not> valid (bufs s ! b)" and "\<not> dirty (bufs s ! b)"
    and "bdev (bufs s ! b) = 1" and "blockno (bufs s ! b) < disksize s"
  shows "\<exists>t. iderw b s = Ret () t \<and> calm c i q t \<and> sleeplks t = sleeplks s \<and>
    bufs t = (bufs s)[b := (bufs s ! b)\<lparr>bdata := memdisk s ! unat (blockno (bufs s ! b)),
      bflags := bflags (bufs s ! b) OR 2\<rparr>] \<and>
    head_prev t = head_prev s \<and> head_next t = head_next s \<and> memdisk t = memdisk s \<and> disksize t = disksize s \<and>
    dwrites t = dwrites s \<and> bmachine.more t = bmachine.more s"
proof -
  obtain t where t: "holdingsleep (BufLock b) s = Ret True t" "calm c i q t" "pmachine.more t = pmachine.more s"
    using holdingsleep_eq [OF assms(1), of "BufLock b"] assms(2) by (auto simp: keeps_buf_def)
  have f: "bflags (bufs s ! b) AND 6 \<noteq> 2" "bflags (bufs s ! b) AND 4 = 0"
    using assms(3,4) by (simp_all add: valid_def dirty_def flag_bits)
  let ?u = "upd_buf b (\<lambda>x. x\<lparr>bflags := bflags x OR 2\<rparr>) (upd_buf b (\<lambda>x. x\<lparr>bdata := memdisk t ! unat (blockno (bufs s ! b))\<rparr>) t)"
  have "iderw b s = Ret () ?u"
    using t(1) f assms(5,6) by (simp add: iderw_def bindK_def thenK_def Let_def bio_of_upper [OF t(3)])
  then show ?thesis
    using t(2) by (intro exI [of _ ?u]) (simp add: bio_of_upper [OF t(3)], cases "b < length (bufs s)"; simp add: list_update_beyond)
qed

lemma iderw_write:
  assumes "calm c i q s" and "keeps_buf q b s" and "dirty (bufs s ! b)"
    and "bdev (bufs s ! b) = 1" and "blockno (bufs s ! b) < disksize s"
  shows "\<exists>t. iderw b s = Ret () t \<and> calm c i q t \<and> sleeplks t = sleeplks s \<and>
    bufs t = (bufs s)[b := (bufs s ! b)\<lparr>bflags := bflags (bufs s ! b) AND NOT 4 OR 2\<rparr>] \<and>
    head_prev t = head_prev s \<and> head_next t = head_next s \<and>
    memdisk t = (memdisk s)[unat (blockno (bufs s ! b)) := bdata (bufs s ! b)] \<and> disksize t = disksize s \<and>
    dwrites t = dwrites s @ [(unat (blockno (bufs s ! b)), bdata (bufs s ! b))] \<and> bmachine.more t = bmachine.more s"
proof -
  obtain t where t: "holdingsleep (BufLock b) s = Ret True t" "calm c i q t" "pmachine.more t = pmachine.more s"
    using holdingsleep_eq [OF assms(1), of "BufLock b"] assms(2) by (auto simp: keeps_buf_def)
  have f: "bflags (bufs s ! b) AND 6 \<noteq> 2" "bflags (bufs s ! b) AND 4 \<noteq> 0"
    using assms(3) by (simp_all add: dirty_def flag_bits)
  let ?u = "upd_buf b (\<lambda>x. x\<lparr>bflags := bflags x OR 2\<rparr>) (disk_write (unat (blockno (bufs s ! b))) (bdata (bufs s ! b))
    (upd_buf b (\<lambda>x. x\<lparr>bflags := bflags x AND NOT 4\<rparr>) t))"
  have "iderw b s = Ret () ?u"
    using t(1) f assms(4,5) by (simp add: iderw_def bindK_def thenK_def Let_def bio_of_upper [OF t(3)])
  then show ?thesis
    using t(2) by (intro exI [of _ ?u]) (simp add: bio_of_upper [OF t(3)], cases "b < length (bufs s)"; simp add: list_update_beyond)
qed

section \<open>The list of buffers\<close>

text \<open>\<open>chain nx pv xs\<close>: neighbours in \<open>xs\<close> are linked to each other in both directions.\<close>

fun chain :: "(blink \<Rightarrow> blink) \<Rightarrow> (blink \<Rightarrow> blink) \<Rightarrow> blink list \<Rightarrow> bool" where
  "chain nx pv (x # y # xs) \<longleftrightarrow> nx x = y \<and> pv y = x \<and> chain nx pv (y # xs)"
| "chain nx pv _ \<longleftrightarrow> True"

text \<open>\<open>lru xs s\<close>: the links of the cache form the circular list of the buffers \<open>xs\<close>, most recently used first.\<close>

definition lru :: "nat list \<Rightarrow> 'z bmachine_scheme \<Rightarrow> bool" where
  "lru xs s \<longleftrightarrow> distinct xs \<and> set xs = {0..<NBUF} \<and> length (bufs s) = NBUF \<and>
     chain (next_of s) (prev_of s) (Head # map Blk xs @ [Head])"

lemma chain_append: "chain nx pv (xs @ y # ys) \<longleftrightarrow> chain nx pv (xs @ [y]) \<and> chain nx pv (y # ys)"
proof (induction xs)
  case (Cons x xs)
  then show ?case by (cases xs) auto
qed simp

lemma chain_cong:
  "(\<And>x. x \<in> set (butlast xs) \<Longrightarrow> nx x = nx' x) \<Longrightarrow> (\<And>y. y \<in> set (tl xs) \<Longrightarrow> pv y = pv' y) \<Longrightarrow>
   chain nx pv xs = chain nx' pv' xs"
proof (induction nx pv xs rule: chain.induct)
  case (1 nx pv x y xs)
  have "chain nx pv (y # xs) = chain nx' pv' (y # xs)"
    by (rule 1(1)) (use 1(2,3) in \<open>auto split: if_splits\<close>)
  then show ?case using 1(2) [of x] 1(3) [of y] by simp
qed simp_all

lemma chain_unlink:
  assumes "chain nx pv (Head # map Blk (xs @ b # ys) @ [Head])" and "distinct (xs @ b # ys)"
  shows "chain (nx(pv (Blk b) := nx (Blk b))) (pv(nx (Blk b) := pv (Blk b))) (Head # map Blk (xs @ ys) @ [Head])"
proof -
  define l r where "l = butlast (Head # map Blk xs)" and "r = tl (map Blk ys @ [Head])"
  define p n where "p = last (Head # map Blk xs)" and "n = hd (map Blk ys @ [Head])"
  have L: "Head # map Blk xs = l @ [p]" unfolding l_def p_def by (rule append_butlast_last_id [symmetric]) simp
  have R: "map Blk ys @ [Head] = n # r" unfolding n_def r_def by (cases ys) simp_all
  have e: "Head # map Blk (xs @ b # ys) @ [Head] = l @ p # Blk b # n # r" using L R by simp
  have c: "chain nx pv (l @ [p])" "nx p = Blk b" "pv (Blk b) = p" "nx (Blk b) = n" "pv n = Blk b" "chain nx pv (n # r)"
    using assms(1) chain_append [of nx pv l p "Blk b # n # r"] unfolding e by simp_all
  have dl: "distinct (Head # map Blk xs)" and dr: "distinct (map Blk ys @ [Head])"
    using assms(2) by (auto simp: distinct_map inj_on_def)
  have p: "p = Head \<or> p \<in> Blk ` set xs" and n: "n = Head \<or> n \<in> Blk ` set ys"
    unfolding p_def n_def by (cases xs rule: rev_cases; simp) (cases ys; simp)
  let ?nx = "nx(p := n)" and ?pv = "pv(n := p)"
  have tl: "tl (l @ [p]) = map Blk xs" unfolding L [symmetric] by simp
  have bl: "butlast (n # r) = map Blk ys" unfolding R [symmetric] by (simp add: butlast_append)
  have "chain ?nx ?pv (l @ [p]) = chain nx pv (l @ [p])"
  proof (rule chain_cong)
    show "x \<in> set (butlast (l @ [p])) \<Longrightarrow> ?nx x = nx x" for x using dl unfolding L by auto
    show "y \<in> set (tl (l @ [p])) \<Longrightarrow> ?pv y = pv y" for y using n assms(2) unfolding tl by auto
  qed
  moreover have "chain ?nx ?pv (n # r) = chain nx pv (n # r)"
  proof (rule chain_cong)
    show "x \<in> set (butlast (n # r)) \<Longrightarrow> ?nx x = nx x" for x using p assms(2) unfolding bl by auto
    show "y \<in> set (tl (n # r)) \<Longrightarrow> ?pv y = pv y" for y using dr unfolding R by auto
  qed
  moreover have "Head # map Blk (xs @ ys) @ [Head] = l @ p # n # r" using L R by simp
  ultimately show ?thesis using c chain_append [of ?nx ?pv l p "n # r"] by simp
qed

lemma chain_link_front:
  assumes "chain nx pv (Head # map Blk xs @ [Head])" and "b \<notin> set xs" and "distinct xs"
  shows "chain (nx(Blk b := nx Head, Head := Blk b)) (pv(Blk b := Head, nx Head := Blk b)) (Head # map Blk (b # xs) @ [Head])"
proof -
  obtain n r where R: "map Blk xs @ [Head] = n # r" by (cases xs) simp_all
  have n: "nx Head = n" and c: "chain nx pv (n # r)" using assms(1) unfolding append_Cons R by simp_all
  have bl: "butlast (n # r) = map Blk xs" unfolding R [symmetric] by (simp add: butlast_append)
  have "chain (nx(Blk b := n, Head := Blk b)) (pv(Blk b := Head, n := Blk b)) (n # r) = chain nx pv (n # r)"
  proof (rule chain_cong)
    show "x \<in> set (butlast (n # r)) \<Longrightarrow> (nx(Blk b := n, Head := Blk b)) x = nx x" for x using assms(2) unfolding bl by auto
    have "distinct (n # r)" "Blk b \<notin> set (n # r)"
      unfolding R [symmetric] using assms(2,3) by (auto simp: distinct_map inj_on_def)
    then show "y \<in> set (tl (n # r)) \<Longrightarrow> (pv(Blk b := Head, n := Blk b)) y = pv y" for y by auto
  qed
  moreover have "n \<noteq> Blk b" using assms(2) R by (cases xs) auto
  ultimately show ?thesis using n c R by simp
qed

fun in_cache :: "'z bmachine_scheme \<Rightarrow> blink \<Rightarrow> bool" where
  "in_cache s Head \<longleftrightarrow> True"
| "in_cache s (Blk i) \<longleftrightarrow> i < length (bufs s)"

lemma nth_upd_field: "(\<And>x. g (f x) = g x) \<Longrightarrow> g (xs[i := f (xs ! i)] ! j) = g (xs ! j)"
  by (cases "i = j"; cases "j < length xs") (auto simp: list_update_beyond)

lemma set_link_sel [simp]:
  "length (bufs (set_next x v s)) = length (bufs s)" "length (bufs (set_prev x v s)) = length (bufs s)"
  "prev_of (set_next x v s) = prev_of s" "next_of (set_prev x v s) = next_of s"
proof -
  show "length (bufs (set_next x v s)) = length (bufs s)" "length (bufs (set_prev x v s)) = length (bufs s)"
    by (cases x; simp)+
  have "prev_of (set_next x v s) y = prev_of s y" "next_of (set_prev x v s) y = next_of s y" for y
    by (cases x; cases y; simp add: nth_upd_field [of bprev "\<lambda>b. b\<lparr>bnext := v\<rparr>"] nth_upd_field [of bnext "\<lambda>b. b\<lparr>bprev := v\<rparr>"])+
  then show "prev_of (set_next x v s) = prev_of s" "next_of (set_prev x v s) = next_of s" by (simp_all add: fun_eq_iff)
qed

lemma set_blk_head: "head_next (set_next (Blk i) v s) = head_next s" "head_next (set_prev (Blk i) v s) = head_next s"
  by simp_all

lemma in_cache_set [simp]: "in_cache (set_next x v s) y = in_cache s y" "in_cache (set_prev x v s) y = in_cache s y"
  by (cases y; simp)+

lemma next_of_set: "in_cache s x \<Longrightarrow> next_of (set_next x v s) = (next_of s)(x := v)"
proof
  fix y assume "in_cache s x"
  then show "next_of (set_next x v s) y = ((next_of s)(x := v)) y"
    by (cases x; cases y) (auto simp: upd_buf_def nth_list_update)
qed

lemma prev_of_set: "in_cache s x \<Longrightarrow> prev_of (set_prev x v s) = (prev_of s)(x := v)"
proof
  fix y assume "in_cache s x"
  then show "prev_of (set_prev x v s) y = ((prev_of s)(x := v)) y"
    by (cases x; cases y) (auto simp: upd_buf_def nth_list_update)
qed

lemma scan_next:
  "chain (next_of s) pv (map Blk xs @ [Head]) \<Longrightarrow> length xs \<le> n \<Longrightarrow>
   scan next_of P n (hd (map Blk xs @ [Head])) s = Ret (find (\<lambda>i. P (bufs s ! i)) xs) s"
proof (induction xs arbitrary: n)
  case (Cons x xs)
  obtain m where n: "n = Suc m" using Cons(3) by (cases n) auto
  have "chain (next_of s) pv (map Blk xs @ [Head]) \<and> next_of s (Blk x) = hd (map Blk xs @ [Head])"
    using Cons(2) by (cases xs) auto
  then show ?case using Cons(1) [of m] Cons(3) n by simp
qed simp

lemma last_link: "\<exists>l p. Head # map Blk xs = l @ [p] \<and> p = last (Head # map Blk xs)"
  by (metis append_butlast_last_id list.distinct(1))

lemma scan_prev:
  "chain nx (prev_of s) (Head # map Blk xs) \<Longrightarrow> length xs \<le> n \<Longrightarrow>
   scan prev_of P n (last (Head # map Blk xs)) s = Ret (find (\<lambda>i. P (bufs s ! i)) (rev xs)) s"
proof (induction xs arbitrary: n rule: rev_induct)
  case (snoc x xs)
  obtain m where n: "n = Suc m" using snoc(3) by (cases n) auto
  obtain l p where L: "Head # map Blk xs = l @ [p]" "p = last (Head # map Blk xs)"
    using last_link by blast
  have e: "Head # map Blk (xs @ [x]) = l @ p # [Blk x]" using L(1) by simp
  have "chain nx (prev_of s) (l @ [p]) \<and> prev_of s (Blk x) = p"
    using snoc(2) chain_append [of nx "prev_of s" l p "[Blk x]"] unfolding e by simp
  then have "chain nx (prev_of s) (Head # map Blk xs) \<and> prev_of s (Blk x) = p" by (simp only: L(1))
  then show ?case using snoc(1) [of m] snoc(3) n L(2) by simp
qed simp

lemma lru_scans:
  assumes "lru xs s"
  shows "scan next_of P NBUF (head_next s) s = Ret (find (\<lambda>i. P (bufs s ! i)) xs) s"
    and "scan prev_of P NBUF (head_prev s) s = Ret (find (\<lambda>i. P (bufs s ! i)) (rev xs)) s"
proof -
  have d: "distinct xs" "set xs = {0..<NBUF}"
    and c: "chain (next_of s) (prev_of s) (Head # map Blk xs @ [Head])"
    using assms by (simp_all add: lru_def)
  have len: "length xs \<le> NBUF" using distinct_card [OF d(1)] by (simp add: d(2))
  obtain n r where R: "map Blk xs @ [Head] = n # r" by (cases xs) simp_all
  have h: "head_next s = hd (map Blk xs @ [Head])" and c1: "chain (next_of s) (prev_of s) (map Blk xs @ [Head])"
    using c unfolding R by simp_all
  show "scan next_of P NBUF (head_next s) s = Ret (find (\<lambda>i. P (bufs s ! i)) xs) s"
    unfolding h by (rule scan_next [OF c1 len])
  obtain l p where L: "Head # map Blk xs = l @ [p]" "p = last (Head # map Blk xs)"
    using last_link by blast
  then have e: "Head # map Blk xs @ [Head] = l @ p # [Head]" by simp
  have c2: "chain (next_of s) (prev_of s) (l @ [p])" and p: "head_prev s = p"
    using c chain_append [of "next_of s" "prev_of s" l p "[Head]"] unfolding e by simp_all
  show "scan prev_of P NBUF (head_prev s) s = Ret (find (\<lambda>i. P (bufs s ! i)) (rev xs)) s"
    unfolding p L(2) by (rule scan_prev [OF c2 [folded L(1)] len])
qed

lemma lru_cong:
  assumes "head_next t = head_next s" and "head_prev t = head_prev s" and "length (bufs t) = length (bufs s)"
    and "\<And>i. i < length (bufs s) \<Longrightarrow> bnext (bufs t ! i) = bnext (bufs s ! i) \<and> bprev (bufs t ! i) = bprev (bufs s ! i)"
  shows "lru xs t = lru xs s"
proof -
  have "chain (next_of t) (prev_of t) (Head # map Blk xs @ [Head]) = chain (next_of s) (prev_of s) (Head # map Blk xs @ [Head])"
    if "set xs = {0..<NBUF}" "length (bufs s) = NBUF"
  proof (rule chain_cong)
    show "x \<in> set (butlast (Head # map Blk xs @ [Head])) \<Longrightarrow> next_of t x = next_of s x" for x
      using assms that by (auto simp: butlast_append)
    show "x \<in> set (tl (Head # map Blk xs @ [Head])) \<Longrightarrow> prev_of t x = prev_of s x" for x
      using assms that by auto
  qed
  then show ?thesis using assms(3) by (auto simp: lru_def)
qed

text \<open>Moving a buffer to the front.\<close>

definition to_front :: "nat \<Rightarrow> nat list \<Rightarrow> nat list" where
  "to_front b xs = b # remove1 b xs"

lemma lru_to_front:
  assumes "lru xs s" and "b < NBUF"
  shows "lru (to_front b xs) (link_front b (unlink b s))"
proof -
  have b: "b \<in> set xs" using assms by (simp add: lru_def)
  then obtain ys zs where xs: "xs = ys @ b # zs" "b \<notin> set ys" by (metis split_list_first)
  have d: "distinct (ys @ b # zs)" and len: "length (bufs s) = NBUF" and st: "set xs = {0..<NBUF}"
    and c: "chain (next_of s) (prev_of s) (Head # map Blk (ys @ b # zs) @ [Head])"
    using assms(1) xs by (simp_all add: lru_def)
  have inb: "in_cache s (Blk b)" using assms(2) len by simp
  have ys: "set ys \<subseteq> {0..<NBUF}" "set zs \<subseteq> {0..<NBUF}" using st xs by auto
  obtain l p where L: "Head # map Blk ys = l @ [p]" "p = last (Head # map Blk ys)"
    using last_link by blast
  obtain n r where R: "map Blk zs @ [Head] = n # r" by (cases zs) simp_all
  have e: "Head # map Blk (ys @ b # zs) @ [Head] = l @ p # Blk b # n # r" using L R by simp
  have pn: "prev_of s (Blk b) = p" "next_of s (Blk b) = n"
    using c chain_append [of "next_of s" "prev_of s" l p "Blk b # n # r"] unfolding e by simp_all
  have inn: "in_cache s p" "in_cache s n"
    using L(2) R ys len by (cases ys rule: rev_cases; cases zs; auto)+
  let ?u = "unlink b s"
  have nb: "n \<noteq> Blk b" using R d by (cases zs) auto
  note pn' = pn [unfolded next_of.simps prev_of.simps]
  have "prev_of (set_prev n p s) (Blk b) = p" unfolding prev_of_set [OF inn(2)] using pn nb by simp
  then have pv: "bprev (bufs (set_prev n p s) ! b) = p" by simp
  have "next_of (set_prev n p s) (Blk b) = n" using pn by simp
  then have nx: "bnext (bufs (set_prev n p s) ! b) = n" unfolding next_of.simps .
  have u: "next_of ?u = (next_of s)(p := n)" "prev_of ?u = (prev_of s)(n := p)" "length (bufs ?u) = NBUF"
    using pn(1) inn len nb pv nx unfolding unlink_def Let_def pn' by (simp_all add: next_of_set prev_of_set)
  have cu: "chain (next_of ?u) (prev_of ?u) (Head # map Blk (ys @ zs) @ [Head])"
    using chain_unlink [OF c d] unfolding u(1,2) pn .
  obtain n' r' where R': "map Blk (ys @ zs) @ [Head] = n' # r'" by (cases "ys @ zs") simp_all
  have hn: "head_next ?u = n'" using cu unfolding append_Cons R' by simp
  have "in_cache ?u n'"
  proof (cases "ys @ zs")
    case (Cons a as)
    then have "a < NBUF" using ys by (cases ys) auto
    then show ?thesis using R' Cons u(3) by auto
  qed (use R' in simp)
  then have "in_cache ?u (head_next ?u)" "in_cache ?u (Blk b)" using hn assms(2) u(3) by simp_all
  then have f: "next_of (link_front b ?u) = (next_of ?u)(Blk b := next_of ?u Head, Head := Blk b)"
    "prev_of (link_front b ?u) = (prev_of ?u)(Blk b := Head, next_of ?u Head := Blk b)"
    "length (bufs (link_front b ?u)) = NBUF"
    using u(3) by (simp_all add: link_front_def Let_def prev_of_set next_of_set set_blk_head
        del: set_next.simps set_prev.simps)
  have "to_front b xs = b # ys @ zs" using xs by (simp add: to_front_def remove1_append)
  moreover have "distinct (b # ys @ zs)" "set (b # ys @ zs) = {0..<NBUF}" using d st xs(1) by auto
  moreover have "b \<notin> set (ys @ zs)" "distinct (ys @ zs)" using d by auto
  ultimately show ?thesis using chain_link_front [OF cu] f(3) unfolding lru_def f(1,2) by presburger
qed

end
