(* ===== verification/Bio_Cache.thy ===== *)
theory Bio_Cache
  imports Bio_Inv
begin

text \<open>
  The buffer cache as its callers see it: at most one copy of a block, which stays in the cache while
  it is locked or waits for the log, and which is as the disk is otherwise; the least recently used
  buffer is recycled.
\<close>

section \<open>bget\<close>

definition same_rest :: "'z bmachine_scheme \<Rightarrow> 'z bmachine_scheme \<Rightarrow> bool" where
  "same_rest s t \<longleftrightarrow> head_prev t = head_prev s \<and> head_next t = head_next s \<and> memdisk t = memdisk s \<and>
     disksize t = disksize s \<and> dwrites t = dwrites s \<and> bmachine.more t = bmachine.more s"

definition hold :: "int \<Rightarrow> sleeplock \<Rightarrow> sleeplock" where
  "hold q k = k\<lparr>sl_locked := 1, sl_pid := q\<rparr>"

lemma lru_took [simp]: "lru xs (took c L s) = lru xs s"
  by (rule lru_cong) simp_all

lemma acquire_buffer:
  assumes w: "within c i q BcacheLock s" and "sl_locked (sleeplks s (BufLock b)) = 0"
  shows "\<exists>t. thenK (release BcacheLock) (thenK (acquiresleep (BufLock b)) (retK b)) s = Ret b t \<and> calm c i q t \<and>
    sleeplks t = (sleeplks s)(BufLock b := hold q (sleeplks s (BufLock b))) \<and> bufs t = bufs s \<and> same_rest s t"
proof -
  let ?s = "dropped c BcacheLock s"
  obtain t where t: "acquiresleep (BufLock b) ?s = Ret () t" "calm c i q t"
      "pmachine.more t = pmachine.more (upd_sleep (BufLock b) (\<lambda>k. k\<lparr>sl_locked := 1, sl_pid := q\<rparr>) ?s)"
    using acquiresleep_free [OF within_release(2) [OF w], of "BufLock b"] assms(2) by auto
  have "thenK (release BcacheLock) (thenK (acquiresleep (BufLock b)) (retK b)) s = Ret b t"
    using within_release(1) [OF w] t(1) by (simp add: thenK_def bindK_def)
  then show ?thesis using t(2) bio_of_upper [OF t(3)] by (intro exI [of _ t]) (simp add: same_rest_def hold_def)
qed

definition has :: "uint32 \<Rightarrow> uint32 \<Rightarrow> buf \<Rightarrow> bool" where
  "has dv bno x \<longleftrightarrow> bdev x = dv \<and> blockno x = bno"

definition idle :: "buf \<Rightarrow> bool" where
  "idle x \<longleftrightarrow> refcnt x = 0 \<and> \<not> dirty x"

lemma bget_eq:
  assumes calm: "calm c i q s" and lru: "lru xs s" and free: "\<And>b. find (\<lambda>b. has dv bno (bufs s ! b)) xs = Some b \<or>
      find (\<lambda>b. idle (bufs s ! b)) (rev xs) = Some b \<Longrightarrow> sl_locked (sleeplks s (BufLock b)) = 0"
  shows "case find (\<lambda>b. has dv bno (bufs s ! b)) xs of
      Some b \<Rightarrow> \<exists>t. bget dv bno s = Ret b t \<and> calm c i q t \<and>
        sleeplks t = (sleeplks s)(BufLock b := hold q (sleeplks s (BufLock b))) \<and>
        bufs t = (bufs s)[b := (bufs s ! b)\<lparr>refcnt := refcnt (bufs s ! b) + 1\<rparr>] \<and> same_rest s t
    | None \<Rightarrow> (case find (\<lambda>b. idle (bufs s ! b)) (rev xs) of
        Some b \<Rightarrow> \<exists>t. bget dv bno s = Ret b t \<and> calm c i q t \<and>
          sleeplks t = (sleeplks s)(BufLock b := hold q (sleeplks s (BufLock b))) \<and>
          bufs t = (bufs s)[b := (bufs s ! b)\<lparr>bdev := dv, blockno := bno, bflags := 0, refcnt := 1\<rparr>] \<and> same_rest s t
      | None \<Rightarrow> bget dv bno s = Panic ''bget: no buffers'')"
proof -
  let ?s = "took c BcacheLock s"
  note a = calm_acquire [OF calm, of BcacheLock]
  have sn: "scan next_of (\<lambda>b. bdev b = dv \<and> blockno b = bno) NBUF (head_next ?s) ?s =
      Ret (find (\<lambda>b. has dv bno (bufs s ! b)) xs) ?s"
    using lru_scans(1) [of xs ?s] lru by (simp add: has_def)
  have sp: "scan prev_of (\<lambda>b. refcnt b = 0 \<and> bflags b AND B_DIRTY = 0) NBUF (head_prev ?s) ?s =
      Ret (find (\<lambda>b. idle (bufs s ! b)) (rev xs)) ?s"
    using lru_scans(2) [of xs ?s] lru by (simp add: idle_def dirty_def)
  have upd: "within c i q BcacheLock (upd_buf b f ?s)" for b f
    using a(2) by (rule within_cong) (use a(2) in \<open>simp_all add: within_def\<close>)
  show ?thesis
  proof (cases "find (\<lambda>b. has dv bno (bufs s ! b)) xs")
    case (Some b)
    have "sl_locked (sleeplks s (BufLock b)) = 0" using free Some by blast
    with acquire_buffer [OF upd [of b "\<lambda>x. x\<lparr>refcnt := refcnt x + 1\<rparr>"], of b] Some a(1) sn show ?thesis
      by (auto simp: bget_def thenK_def bindK_def same_rest_def)
  next
    case None
    show ?thesis
    proof (cases "find (\<lambda>b. idle (bufs s ! b)) (rev xs)")
      case (Some b)
      have "sl_locked (sleeplks s (BufLock b)) = 0" using free Some by blast
      with acquire_buffer [OF upd [of b "\<lambda>x. x\<lparr>bdev := dv, blockno := bno, bflags := 0, refcnt := 1\<rparr>"], of b] Some None a(1) sn sp
      show ?thesis by (auto simp: bget_def thenK_def bindK_def same_rest_def)
    qed (use a(1) sn sp None in \<open>simp add: bget_def thenK_def bindK_def\<close>)
  qed
qed

section \<open>The invariant of the cache\<close>

text \<open>
  \<open>buf_ok q H s b\<close>, for the buffers \<open>H\<close> that the process with id \<open>q\<close> keeps_buf: a held buffer is valid; one that is
  not held is unlocked and, when it is valid and clean, is as the block on the disk.
\<close>

definition buf_ok :: "int \<Rightarrow> nat set \<Rightarrow> 'z bmachine_scheme \<Rightarrow> nat \<Rightarrow> bool" where
  "buf_ok q H s b \<longleftrightarrow>
     (let x = bufs s ! b in
        (if b \<in> H then keeps_buf q b s \<and> refcnt x = 1 \<and> bdev x = 1 \<and> valid x \<and> blockno x < disksize s
         else sl_locked (sleeplks s (BufLock b)) = 0 \<and> refcnt x = 0 \<and>
           (bdev x = 1 \<and> valid x \<and> \<not> dirty x \<longrightarrow> bdata x = memdisk s ! unat (blockno x))) \<and>
        (dirty x \<longrightarrow> bdev x = 1 \<and> valid x \<and> blockno x < disksize s))"

definition one_copy :: "buf list \<Rightarrow> bool" where
  "one_copy bs \<longleftrightarrow> (\<forall>a<NBUF. \<forall>b<NBUF. \<forall>k. has 1 k (bs ! a) \<longrightarrow> has 1 k (bs ! b) \<longrightarrow> a = b)"

definition cache_ok :: "nat \<Rightarrow> nat \<Rightarrow> int \<Rightarrow> nat set \<Rightarrow> 'z bmachine_scheme \<Rightarrow> bool" where
  "cache_ok c i q H s \<longleftrightarrow> calm c i q s \<and> (\<exists>xs. lru xs s) \<and> unat (disksize s) = length (memdisk s) \<and>
     one_copy (bufs s) \<and> (\<forall>b<NBUF. buf_ok q H s b)"

text \<open>What a reader of block \<open>k\<close> sees, and the blocks that wait for the log.\<close>

definition bview :: "'z bmachine_scheme \<Rightarrow> uint32 \<Rightarrow> uchar list" where
  "bview s k = (case find (\<lambda>x. has 1 k x \<and> valid x) (bufs s) of Some x \<Rightarrow> bdata x | None \<Rightarrow> memdisk s ! unat k)"

definition dirty_blocks :: "'z bmachine_scheme \<Rightarrow> uint32 set" where
  "dirty_blocks s = blockno ` {x \<in> set (bufs s). dirty x}"

lemma find_SomeI:
  assumes "x \<in> set xs" and "P x" and "\<And>y. y \<in> set xs \<Longrightarrow> P y \<Longrightarrow> y = x"
  shows "find P xs = Some x"
proof -
  obtain y where "find P xs = Some y" using assms(1,2) by (cases "find P xs") (auto simp: find_None_iff)
  moreover from this have "y \<in> set xs" "P y" by (auto simp: find_Some_iff)
  ultimately show ?thesis using assms(3) by simp
qed

lemma bview_hit:
  assumes "one_copy (bufs s)" and "length (bufs s) = NBUF" and "a < NBUF" and "has 1 k (bufs s ! a)" and "valid (bufs s ! a)"
  shows "bview s k = bdata (bufs s ! a)"
proof -
  have "find (\<lambda>x. has 1 k x \<and> valid x) (bufs s) = Some (bufs s ! a)"
    using assms by (intro find_SomeI) (auto simp: one_copy_def in_set_conv_nth)
  then show ?thesis by (simp add: bview_def)
qed

lemma bview_miss:
  assumes "length (bufs s) = NBUF" and "\<And>a. a < NBUF \<Longrightarrow> has 1 k (bufs s ! a) \<Longrightarrow> \<not> valid (bufs s ! a)"
  shows "bview s k = memdisk s ! unat k"
proof -
  have "find (\<lambda>x. has 1 k x \<and> valid x) (bufs s) = None"
    using assms by (auto simp: find_None_iff in_set_conv_nth)
  then show ?thesis by (simp add: bview_def)
qed

lemma dirty_blocks_iff: "k \<in> dirty_blocks s \<longleftrightarrow> (\<exists>a<length (bufs s). dirty (bufs s ! a) \<and> blockno (bufs s ! a) = k)"
  by (auto simp: dirty_blocks_def in_set_conv_nth image_iff)

lemma cache_okD:
  assumes "cache_ok c i q H s"
  shows "calm c i q s" "length (bufs s) = NBUF" "one_copy (bufs s)" "unat (disksize s) = length (memdisk s)"
    "b < NBUF \<Longrightarrow> buf_ok q H s b"
  using assms by (auto simp: cache_ok_def lru_def)

lemma held_buf:
  assumes "cache_ok c i q H s" and "b \<in> H" and "b < NBUF"
  shows "keeps_buf q b s" "refcnt (bufs s ! b) = 1" "bdev (bufs s ! b) = 1" "valid (bufs s ! b)"
    "blockno (bufs s ! b) < disksize s" "bview s (blockno (bufs s ! b)) = bdata (bufs s ! b)"
proof -
  note D = cache_okD [OF assms(1)]
  show h: "keeps_buf q b s" "refcnt (bufs s ! b) = 1" "bdev (bufs s ! b) = 1" "valid (bufs s ! b)"
    "blockno (bufs s ! b) < disksize s"
    using D(5) [OF assms(3)] assms(2) by (simp_all add: buf_ok_def Let_def)
  show "bview s (blockno (bufs s ! b)) = bdata (bufs s ! b)"
    using h by (intro bview_hit [OF D(3,2) assms(3)]) (simp_all add: has_def)
qed

section \<open>bread\<close>

lemma bread_of_bget:
  assumes "bget dv bno s = Ret b u"
  shows "bread dv bno s = (if valid (bufs u ! b) then Ret b u else thenK (iderw b) (retK b) u)"
  using assms by (simp add: bread_def valid_def bindK_def thenK_def condK_def)

text \<open>The buffer a reader gets, in terms of the buffers before.\<close>

definition fetched :: "'z bmachine_scheme \<Rightarrow> uint32 \<Rightarrow> nat \<Rightarrow> buf \<Rightarrow> bool" where
  "fetched s k b y \<longleftrightarrow> has 1 k y \<and> refcnt y = 1 \<and> valid y \<and> bdata y = bview s k \<and>
     bnext y = bnext (bufs s ! b) \<and> bprev y = bprev (bufs s ! b) \<and> dirty y = dirty (bufs s ! b) \<and>
     (dirty (bufs s ! b) \<longrightarrow> blockno (bufs s ! b) = k) \<and> (\<forall>a<NBUF. a \<noteq> b \<longrightarrow> \<not> has 1 k (bufs s ! a))"

definition taken :: "nat \<Rightarrow> nat \<Rightarrow> int \<Rightarrow> nat \<Rightarrow> buf \<Rightarrow> 'z bmachine_scheme \<Rightarrow> 'z bmachine_scheme \<Rightarrow> bool" where
  "taken c i q b y s t \<longleftrightarrow> calm c i q t \<and> sleeplks t = (sleeplks s)(BufLock b := hold q (sleeplks s (BufLock b))) \<and>
     bufs t = (bufs s)[b := y] \<and> same_rest s t"

lemma fill_buffer:
  assumes t: "taken c i q b y s u" and b: "b < length (bufs s)" and y: "has 1 k y" "\<not> valid y" "\<not> dirty y" and k: "k < disksize s"
  shows "\<exists>t. thenK (iderw b) (retK b) u = Ret b t \<and>
    taken c i q b (y\<lparr>bdata := memdisk s ! unat k, bflags := bflags y OR 2\<rparr>) s t"
proof -
  have e: "bufs u ! b = y" using t b by (simp add: taken_def)
  have "keeps_buf q b u" using t by (simp add: taken_def keeps_buf_def hold_def)
  then obtain t where "iderw b u = Ret () t" "calm c i q t" "sleeplks t = sleeplks u"
    "bufs t = (bufs u)[b := y\<lparr>bdata := memdisk u ! unat k, bflags := bflags y OR 2\<rparr>]"
    "head_prev t = head_prev u" "head_next t = head_next u" "memdisk t = memdisk u" "disksize t = disksize u"
    "dwrites t = dwrites u" "bmachine.more t = bmachine.more u"
    using iderw_read [of c i q u b] t y k e by (auto simp: taken_def same_rest_def has_def)
  then show ?thesis using t by (intro exI [of _ t]) (simp add: taken_def same_rest_def thenK_def bindK_def)
qed

lemma bread_taken:
  assumes ok: "cache_ok c i q H s" and k: "k < disksize s"
    and free: "\<And>b. b \<in> H \<Longrightarrow> b < NBUF \<Longrightarrow> blockno (bufs s ! b) \<noteq> k"
    and room: "k \<in> dirty_blocks s \<or> (\<exists>b<NBUF. b \<notin> H \<and> \<not> dirty (bufs s ! b))"
  shows "\<exists>b t y. bread 1 k s = Ret b t \<and> b < NBUF \<and> b \<notin> H \<and> taken c i q b y s t \<and> fetched s k b y"
proof -
  note D = cache_okD [OF ok]
  obtain xs where lru: "lru xs s" using ok by (auto simp: cache_ok_def)
  have set: "set xs = {0..<NBUF}" using lru by (simp add: lru_def)
  have unheld: "b \<notin> H \<and> sl_locked (sleeplks s (BufLock b)) = 0 \<and> refcnt (bufs s ! b) = 0"
    if "b < NBUF" "has 1 k (bufs s ! b) \<or> idle (bufs s ! b)" for b
    using that D(5) [of b] free [of b] by (auto simp: buf_ok_def Let_def has_def idle_def split: if_splits)
  have find: "b < NBUF \<and> P b" if "find P xs = Some b \<or> find P (rev xs) = Some b" for P b
    using that set by (auto simp: find_Some_iff) (metis nth_mem atLeastLessThan_iff set_rev length_rev)+
  have bget: "case find (\<lambda>b. has 1 k (bufs s ! b)) xs of
      Some b \<Rightarrow> \<exists>t. bget 1 k s = Ret b t \<and> taken c i q b ((bufs s ! b)\<lparr>refcnt := refcnt (bufs s ! b) + 1\<rparr>) s t
    | None \<Rightarrow> (case find (\<lambda>b. idle (bufs s ! b)) (rev xs) of
        Some b \<Rightarrow> \<exists>t. bget 1 k s = Ret b t \<and>
          taken c i q b ((bufs s ! b)\<lparr>bdev := 1, blockno := k, bflags := 0, refcnt := 1\<rparr>) s t
      | None \<Rightarrow> bget 1 k s = Panic ''bget: no buffers'')"
    unfolding taken_def by (rule bget_eq [OF D(1) lru]) (use find unheld in blast)
  show ?thesis
  proof (cases "find (\<lambda>b. has 1 k (bufs s ! b)) xs")
    case (Some b)
    let ?y = "(bufs s ! b)\<lparr>refcnt := refcnt (bufs s ! b) + 1\<rparr>"
    obtain u where u: "bget 1 k s = Ret b u" "taken c i q b ?y s u" using bget Some by auto
    have b: "b < NBUF" "has 1 k (bufs s ! b)" using find [of _ b] Some by blast+
    have nb: "b \<notin> H" "refcnt (bufs s ! b) = 0" using unheld [of b] b by auto
    have other: "\<forall>a<NBUF. a \<noteq> b \<longrightarrow> \<not> has 1 k (bufs s ! a)" using D(3) b unfolding one_copy_def by blast
    have ub: "bufs u ! b = ?y" using u(2) b D(2) by (simp add: taken_def)
    show ?thesis
    proof (cases "valid (bufs s ! b)")
      case True
      then have "bread 1 k s = Ret b u" using bread_of_bget [OF u(1)] ub by (simp add: valid_def)
      moreover have "fetched s k b ?y"
        using b nb other True bview_hit [OF D(3,2) b True] by (simp add: fetched_def has_def valid_def dirty_def)
      ultimately show ?thesis using u(2) b nb by blast
    next
      case False
      then have nd: "\<not> dirty (bufs s ! b)" using D(5) [OF b(1)] by (auto simp: buf_ok_def Let_def)
      obtain t where t: "thenK (iderw b) (retK b) u = Ret b t"
          "taken c i q b (?y\<lparr>bdata := memdisk s ! unat k, bflags := bflags ?y OR 2\<rparr>) s t"
        using fill_buffer [OF u(2), of k] b D(2) False nd k by (auto simp: has_def valid_def dirty_def)
      have "bview s k = memdisk s ! unat k" using other False by (intro bview_miss [OF D(2)]) auto
      then have "fetched s k b (?y\<lparr>bdata := memdisk s ! unat k, bflags := bflags ?y OR 2\<rparr>)"
        using b nb nd other flag_updates(1,2) [of ?y] by (simp add: fetched_def has_def valid_def dirty_def)
      moreover have "bread 1 k s = Ret b t" using bread_of_bget [OF u(1)] ub False t(1) by (simp add: valid_def)
      ultimately show ?thesis using t(2) b nb by blast
    qed
  next
    case None
    then have other: "\<forall>a<NBUF. \<not> has 1 k (bufs s ! a)" using set by (simp add: find_None_iff)
    then have "k \<notin> dirty_blocks s"
      using D(2,5) by (fastforce simp: dirty_blocks_iff buf_ok_def Let_def has_def)
    then obtain b0 where "b0 < NBUF" "b0 \<notin> H" "\<not> dirty (bufs s ! b0)" using room by blast
    then have "b0 \<in> set (rev xs)" "idle (bufs s ! b0)" using D(5) [of b0] set by (auto simp: idle_def buf_ok_def Let_def)
    then obtain b where b: "find (\<lambda>b. idle (bufs s ! b)) (rev xs) = Some b"
      by (cases "find (\<lambda>b. idle (bufs s ! b)) (rev xs)") (auto simp: find_None_iff)
    let ?y = "(bufs s ! b)\<lparr>bdev := 1, blockno := k, bflags := 0, refcnt := 1\<rparr>"
    obtain u where u: "bget 1 k s = Ret b u" "taken c i q b ?y s u" using bget None b by auto
    have b': "b < NBUF" "idle (bufs s ! b)" using find [of _ b] b by blast+
    have nb: "b \<notin> H" using unheld [of b] b' by auto
    have ub: "bufs u ! b = ?y" using u(2) b' D(2) by (simp add: taken_def)
    obtain t where t: "thenK (iderw b) (retK b) u = Ret b t"
        "taken c i q b (?y\<lparr>bdata := memdisk s ! unat k, bflags := bflags ?y OR 2\<rparr>) s t"
      using fill_buffer [OF u(2), of k] b' D(2) k by (auto simp: has_def valid_def dirty_def)
    have "bview s k = memdisk s ! unat k" using other by (intro bview_miss [OF D(2)]) auto
    then have "fetched s k b (?y\<lparr>bdata := memdisk s ! unat k, bflags := bflags ?y OR 2\<rparr>)"
      using b' other by (simp add: fetched_def has_def valid_def dirty_def idle_def)
    moreover have "bread 1 k s = Ret b t" using bread_of_bget [OF u(1)] ub t(1) by (simp add: valid_def)
    ultimately show ?thesis using t(2) b' nb by blast
  qed
qed

text \<open>
  How the cache changes when one buffer does: \<open>cache_step\<close> collects what the operations below have to
  show of the buffer, and gives the invariant and what readers see afterwards.
\<close>

lemma cache_replace:
  assumes ok: "cache_ok c i q H s" and calm: "calm c i q t" and lru: "\<exists>xs. lru xs t" and b: "b < NBUF"
    and bufs: "\<And>a. a < NBUF \<Longrightarrow> a \<noteq> b \<Longrightarrow> \<exists>n p. bufs t ! a = (bufs s ! a)\<lparr>bnext := n, bprev := p\<rparr>"
    and locks: "\<And>a. a \<noteq> b \<Longrightarrow> sleeplks t (BufLock a) = sleeplks s (BufLock a)"
    and held: "\<And>a. a \<noteq> b \<Longrightarrow> a \<in> K \<longleftrightarrow> a \<in> H"
    and disk: "disksize t = disksize s" "length (memdisk t) = length (memdisk s)"
      "\<And>a k. a < NBUF \<Longrightarrow> a \<noteq> b \<Longrightarrow> has 1 k (bufs s ! a) \<Longrightarrow> memdisk t ! unat k = memdisk s ! unat k"
    and other: "\<And>a k. a < NBUF \<Longrightarrow> a \<noteq> b \<Longrightarrow> has 1 k (bufs t ! b) \<Longrightarrow> \<not> has 1 k (bufs s ! a)"
    and buf: "buf_ok q K t b"
  shows "cache_ok c i q K t"
proof -
  note D = cache_okD [OF ok]
  have same: "has 1 k (bufs t ! a) = has 1 k (bufs s ! a)" "valid (bufs t ! a) = valid (bufs s ! a)"
    "dirty (bufs t ! a) = dirty (bufs s ! a)" "bdata (bufs t ! a) = bdata (bufs s ! a)" "refcnt (bufs t ! a) = refcnt (bufs s ! a)"
    "bdev (bufs t ! a) = bdev (bufs s ! a)" "blockno (bufs t ! a) = blockno (bufs s ! a)"
    if "a < NBUF" "a \<noteq> b" for a k
    using bufs [OF that] by (auto simp: has_def valid_def dirty_def)
  have "buf_ok q K t a" if a: "a < NBUF" for a
  proof (cases "a = b")
    case False
    have "bdev (bufs s ! a) = 1 \<longrightarrow> memdisk t ! unat (blockno (bufs s ! a)) = memdisk s ! unat (blockno (bufs s ! a))"
      using disk(3) [OF a False] by (simp add: has_def)
    then show ?thesis
      using D(5) [OF a] same [OF a False] locks [OF False] held [OF False] disk(1)
      by (auto simp: buf_ok_def Let_def keeps_buf_def)
  qed (use buf in simp)
  moreover have "one_copy (bufs t)"
    unfolding one_copy_def
  proof (intro allI impI)
    fix a d k assume a: "a < NBUF" "d < NBUF" "has 1 k (bufs t ! a)" "has 1 k (bufs t ! d)"
    show "a = d"
      using a other [of a k] other [of d k] same(1) [of a k] same(1) [of d k] D(3) unfolding one_copy_def
      by (cases "a = b"; cases "d = b") auto
  qed
  ultimately show ?thesis using calm lru disk(1,2) D(4) by (simp add: cache_ok_def)
qed

lemma lru_same_links:
  assumes "lru xs s" and "same_rest s t" and "bufs t = (bufs s)[b := y]"
    and "bnext y = bnext (bufs s ! b)" and "bprev y = bprev (bufs s ! b)"
  shows "lru xs t"
proof -
  have "bnext (bufs t ! a) = bnext (bufs s ! a) \<and> bprev (bufs t ! a) = bprev (bufs s ! a)"
    if "a < length (bufs s)" for a
    using assms(3-) that by (cases "a = b") simp_all
  then have "lru xs t = lru xs s"
    using assms(2,3) by (intro lru_cong) (simp_all add: same_rest_def)
  then show ?thesis using assms(1) by simp
qed

lemma bread_ok:
  assumes ok: "cache_ok c i q H s" and k: "k < disksize s"
    and free: "\<And>b. b \<in> H \<Longrightarrow> b < NBUF \<Longrightarrow> blockno (bufs s ! b) \<noteq> k"
    and room: "k \<in> dirty_blocks s \<or> (\<exists>b<NBUF. b \<notin> H \<and> \<not> dirty (bufs s ! b))"
  shows "\<exists>b t. bread 1 k s = Ret b t \<and> b < NBUF \<and> b \<notin> H \<and> cache_ok c i q (insert b H) t \<and>
    blockno (bufs t ! b) = k \<and> bdata (bufs t ! b) = bview s k \<and> bview t = bview s \<and> dirty_blocks t = dirty_blocks s \<and>
    (\<forall>a. a \<noteq> b \<longrightarrow> bufs t ! a = bufs s ! a) \<and> same_rest s t"
proof -
  note D = cache_okD [OF ok]
  obtain b t y where r: "bread 1 k s = Ret b t" "b < NBUF" "b \<notin> H" "taken c i q b y s t" "fetched s k b y"
    using bread_taken [OF assms] by blast
  have t: "calm c i q t" "bufs t = (bufs s)[b := y]" "same_rest s t"
      "sleeplks t = (sleeplks s)(BufLock b := hold q (sleeplks s (BufLock b)))"
    using r(4) by (simp_all add: taken_def)
  have tb: "bufs t ! b = y" and ta: "\<And>a. a \<noteq> b \<Longrightarrow> bufs t ! a = bufs s ! a" using t(2) r(2) D(2) by simp_all
  note y = r(5) [unfolded fetched_def]
  have ok': "cache_ok c i q (insert b H) t"
  proof (rule cache_replace [OF ok t(1) _ r(2)])
    show "\<exists>xs. lru xs t" using ok lru_same_links [OF _ t(3,2)] y by (auto simp: cache_ok_def)
    show "\<exists>n p. bufs t ! a = (bufs s ! a)\<lparr>bnext := n, bprev := p\<rparr>" if "a \<noteq> b" for a
      using ta [OF that] by (intro exI [of _ "bnext (bufs s ! a)"] exI [of _ "bprev (bufs s ! a)"]) simp
    show "buf_ok q (insert b H) t b"
      using y k t(3,4) by (auto simp: buf_ok_def Let_def tb keeps_buf_def hold_def has_def same_rest_def)
    show "a < NBUF \<Longrightarrow> a \<noteq> b \<Longrightarrow> has 1 k' (bufs t ! b) \<Longrightarrow> \<not> has 1 k' (bufs s ! a)" for a k'
      using y by (auto simp: tb has_def)
  qed (use t(3,4) in \<open>simp_all add: same_rest_def\<close>)
  note D' = cache_okD [OF ok']
  have "bview t k' = bview s k'" for k'
  proof (cases "\<exists>a<NBUF. has 1 k' (bufs t ! a) \<and> valid (bufs t ! a)")
    case True
    then obtain a where a: "a < NBUF" "has 1 k' (bufs t ! a)" "valid (bufs t ! a)" by blast
    then have "bview t k' = bdata (bufs t ! a)" by (rule bview_hit [OF D'(3,2)])
    also have "\<dots> = bview s k'"
    proof (cases "a = b")
      case True
      then have "k' = k" using a(2) y by (simp add: tb has_def)
      then show ?thesis using True y by (simp add: tb)
    next
      case False
      then show ?thesis using a ta [OF False] bview_hit [OF D(3,2) a(1), of k'] by simp
    qed
    finally show ?thesis .
  next
    case False
    then have n: "k' \<noteq> k" using y r(2) tb by auto
    have m: "bview t k' = memdisk t ! unat k'" using False by (intro bview_miss [OF D'(2)]) auto
    show ?thesis
    proof (cases "has 1 k' (bufs s ! b) \<and> valid (bufs s ! b)")
      case True
      then have "bview s k' = bdata (bufs s ! b)" using bview_hit [OF D(3,2) r(2)] by blast
      also have "\<dots> = memdisk s ! unat k'"
        using D(5) [OF r(2)] True y n r(3) by (auto simp: buf_ok_def Let_def has_def)
      finally show ?thesis using m t(3) by (simp add: same_rest_def)
    next
      case nb: False
      have "bview s k' = memdisk s ! unat k'"
        using False nb ta by (intro bview_miss [OF D(2)]) metis
      then show ?thesis using m t(3) by (simp add: same_rest_def)
    qed
  qed
  moreover have "dirty_blocks t = dirty_blocks s"
  proof -
    have "dirty (bufs t ! a) \<and> blockno (bufs t ! a) = k' \<longleftrightarrow> dirty (bufs s ! a) \<and> blockno (bufs s ! a) = k'" for a k'
      using y ta [of a] by (cases "a = b") (auto simp: tb has_def)
    then show ?thesis using D(2) D'(2) by (auto simp: dirty_blocks_iff)
  qed
  ultimately show ?thesis using r(1-3) ok' t(3) y tb ta by (intro exI [of _ b] exI [of _ t]) (auto simp: has_def)
qed

section \<open>Changing, writing and releasing a buffer\<close>

text \<open>\<open>relinked s t\<close>: apart from the order of the list and buffer \<open>b\<close>, the cache is the same.\<close>

definition relinked :: "nat \<Rightarrow> 'z bmachine_scheme \<Rightarrow> 'z bmachine_scheme \<Rightarrow> bool" where
  "relinked b s t \<longleftrightarrow> (\<forall>a<NBUF. a \<noteq> b \<longrightarrow> (\<exists>n p. bufs t ! a = (bufs s ! a)\<lparr>bnext := n, bprev := p\<rparr>))"

lemma relinkedD:
  assumes "relinked b s t" and "a < NBUF" and "a \<noteq> b"
  shows "has 1 k (bufs t ! a) = has 1 k (bufs s ! a)" "valid (bufs t ! a) = valid (bufs s ! a)"
    "dirty (bufs t ! a) = dirty (bufs s ! a)" "bdata (bufs t ! a) = bdata (bufs s ! a)"
    "blockno (bufs t ! a) = blockno (bufs s ! a)"
  using assms by (auto simp: relinked_def has_def valid_def dirty_def)

lemma relinked_update: "(\<And>a. a \<noteq> b \<Longrightarrow> bufs t ! a = bufs s ! a) \<Longrightarrow> relinked b s t"
  unfolding relinked_def
proof (intro allI impI)
  fix a assume "\<And>a. a \<noteq> b \<Longrightarrow> bufs t ! a = bufs s ! a" and "a \<noteq> b"
  then show "\<exists>n p. bufs t ! a = (bufs s ! a)\<lparr>bnext := n, bprev := p\<rparr>"
    by (intro exI [of _ "bnext (bufs s ! a)"] exI [of _ "bprev (bufs s ! a)"]) simp
qed

lemma bview_replace:
  assumes s: "cache_ok c i q H s" and t: "cache_ok c i q K t" and b: "b < NBUF" and re: "relinked b s t"
    and bs: "has 1 k (bufs s ! b)" "valid (bufs s ! b)" and bt: "has 1 k (bufs t ! b)" "valid (bufs t ! b)"
    and disk: "\<And>k'. k' \<noteq> k \<Longrightarrow> memdisk t ! unat k' = memdisk s ! unat k'"
  shows "bview t = (bview s)(k := bdata (bufs t ! b))"
proof
  note S = cache_okD [OF s] and T = cache_okD [OF t]
  fix k'
  show "bview t k' = ((bview s)(k := bdata (bufs t ! b))) k'"
  proof (cases "k' = k")
    case True
    then show ?thesis using bview_hit [OF T(3,2) b bt] by simp
  next
    case False
    show ?thesis
    proof (cases "\<exists>a<NBUF. has 1 k' (bufs s ! a) \<and> valid (bufs s ! a)")
      case True
      then obtain a where a: "a < NBUF" "has 1 k' (bufs s ! a)" "valid (bufs s ! a)" by blast
      have "a \<noteq> b" using a(2) bs False by (auto simp: has_def)
      note r = relinkedD [OF re a(1) this]
      show ?thesis
        using False a r bview_hit [OF S(3,2) a] bview_hit [OF T(3,2) a(1), of k'] by simp
    next
      case miss: False
      have "bview s k' = memdisk s ! unat k'" using miss by (intro bview_miss [OF S(2)]) auto
      moreover have "bview t k' = memdisk t ! unat k'"
      proof (rule bview_miss [OF T(2)])
        show "\<not> valid (bufs t ! a)" if "a < NBUF" "has 1 k' (bufs t ! a)" for a
          using that miss False bt relinkedD(1,2) [OF re that(1)] by (cases "a = b") (auto simp: has_def)
      qed
      ultimately show ?thesis using False disk by simp
    qed
  qed
qed

lemma dirty_replace:
  assumes s: "cache_ok c i q H s" and t: "cache_ok c i q K t" and b: "b < NBUF" and re: "relinked b s t"
    and bs: "has 1 k (bufs s ! b)" and bt: "has 1 k (bufs t ! b)"
  shows "dirty_blocks t = (if dirty (bufs t ! b) then insert k (dirty_blocks s) else dirty_blocks s - {k})"
proof -
  note S = cache_okD [OF s] and T = cache_okD [OF t]
  have iff: "k' \<in> dirty_blocks t \<longleftrightarrow> (\<exists>a<NBUF. a \<noteq> b \<and> dirty (bufs s ! a) \<and> blockno (bufs s ! a) = k') \<or> dirty (bufs t ! b) \<and> k' = k" for k'
    using T(2) relinkedD(3,5) [OF re] b bt unfolding dirty_blocks_iff has_def by (metis (no_types, lifting))
  have iff': "k' \<in> dirty_blocks s \<longleftrightarrow> (\<exists>a<NBUF. a \<noteq> b \<and> dirty (bufs s ! a) \<and> blockno (bufs s ! a) = k') \<or> dirty (bufs s ! b) \<and> k' = k" for k'
    using S(2) b bs unfolding dirty_blocks_iff has_def by (metis (no_types, lifting))
  have "\<not> (a < NBUF \<and> a \<noteq> b \<and> dirty (bufs s ! a) \<and> blockno (bufs s ! a) = k)" for a
    using S(3) S(5) [of a] b bs by (auto simp: one_copy_def buf_ok_def Let_def has_def)
  then show ?thesis using iff iff' by auto
qed

lemma set_data_ok:
  fixes f :: "buf \<Rightarrow> uchar list"
  assumes ok: "cache_ok c i q H s" and b: "b \<in> H" "b < NBUF"
  defines "t \<equiv> upd_buf b (\<lambda>x. x\<lparr>bdata := f x\<rparr>) s" and "k \<equiv> blockno (bufs s ! b)"
  shows "cache_ok c i q H t" "bview t = (bview s)(k := f (bufs s ! b))" "dirty_blocks t = dirty_blocks s"
    "same_rest s t" "\<And>a. a \<noteq> b \<Longrightarrow> bufs t ! a = bufs s ! a" "bufs t ! b = (bufs s ! b)\<lparr>bdata := f (bufs s ! b)\<rparr>"
proof -
  note D = cache_okD [OF ok] and h = held_buf [OF ok b]
  show r: "same_rest s t" by (simp add: t_def same_rest_def)
  show a: "\<And>a. a \<noteq> b \<Longrightarrow> bufs t ! a = bufs s ! a" by (simp add: t_def)
  show tb: "bufs t ! b = (bufs s ! b)\<lparr>bdata := f (bufs s ! b)\<rparr>" using b(2) D(2) by (simp add: t_def)
  have re: "relinked b s t" using a by (rule relinked_update)
  show ok': "cache_ok c i q H t"
  proof (rule cache_replace [OF ok _ _ b(2)])
    show "calm c i q t" using D(1) by (simp add: t_def)
    show "\<exists>xs. lru xs t"
      using ok lru_same_links [OF _ r, of _ b "(bufs s ! b)\<lparr>bdata := f (bufs s ! b)\<rparr>"] by (auto simp: cache_ok_def t_def)
    show "buf_ok q H t b"
      using D(5) [OF b(2)] b(1) h by (simp add: buf_ok_def Let_def tb valid_def dirty_def) (simp add: keeps_buf_def t_def)
    show "a < NBUF \<Longrightarrow> a \<noteq> b \<Longrightarrow> has 1 k' (bufs t ! b) \<Longrightarrow> \<not> has 1 k' (bufs s ! a)" for a k'
      using D(3) b(2) by (auto simp: tb one_copy_def has_def)
  qed (use re in \<open>simp_all add: relinked_def t_def\<close>)
  have hk: "has 1 k (bufs s ! b)" "has 1 k (bufs t ! b)" "valid (bufs t ! b)" "dirty (bufs t ! b) = dirty (bufs s ! b)"
    using h by (simp_all add: has_def tb k_def valid_def dirty_def)
  show "bview t = (bview s)(k := f (bufs s ! b))"
    using bview_replace [OF ok ok' b(2) re hk(1) h(4) hk(2,3)] by (simp add: tb) (simp add: t_def)
  show "dirty_blocks t = dirty_blocks s"
    using dirty_replace [OF ok ok' b(2) re hk(1,2)] hk(4) dirty_replace [OF ok ok b(2) _ hk(1,1)] relinked_update [of b s s]
    by simp
qed

lemma bwrite_eq:
  assumes ok: "cache_ok c i q H s" and b: "b \<in> H" "b < NBUF"
  shows "\<exists>t. bwrite b s = Ret () t \<and> calm c i q t \<and> sleeplks t = sleeplks s \<and>
    bufs t = (bufs s)[b := (bufs s ! b)\<lparr>bflags := (bflags (bufs s ! b) OR 4) AND - 5 OR 2\<rparr>] \<and>
    head_prev t = head_prev s \<and> head_next t = head_next s \<and>
    memdisk t = (memdisk s)[unat (blockno (bufs s ! b)) := bdata (bufs s ! b)] \<and> disksize t = disksize s \<and>
    dwrites t = dwrites s @ [(unat (blockno (bufs s ! b)), bdata (bufs s ! b))] \<and> bmachine.more t = bmachine.more s"
proof -
  note D = cache_okD [OF ok] and h = held_buf [OF ok b]
  obtain u where u: "holdingsleep (BufLock b) s = Ret True u" "calm c i q u" "pmachine.more u = pmachine.more s"
    using holdingsleep_eq [OF D(1), of "BufLock b"] h(1) by (auto simp: keeps_buf_def)
  note e = bio_of_upper [OF u(3)]
  let ?v = "upd_buf b (\<lambda>x. x\<lparr>bflags := bflags x OR 4\<rparr>) u"
  have vb: "bufs ?v ! b = (bufs s ! b)\<lparr>bflags := bflags (bufs s ! b) OR 4\<rparr>" using b(2) D(2) by (simp add: e)
  have "keeps_buf q b ?v" using h(1) by (simp add: keeps_buf_def e)
  then obtain t where t: "iderw b ?v = Ret () t" "calm c i q t" "sleeplks t = sleeplks ?v"
    "bufs t = (bufs ?v)[b := (bufs ?v ! b)\<lparr>bflags := bflags (bufs ?v ! b) AND NOT 4 OR 2\<rparr>]"
    "head_prev t = head_prev ?v" "head_next t = head_next ?v"
    "memdisk t = (memdisk ?v)[unat (blockno (bufs ?v ! b)) := bdata (bufs ?v ! b)]" "disksize t = disksize ?v"
    "dwrites t = dwrites ?v @ [(unat (blockno (bufs ?v ! b)), bdata (bufs ?v ! b))]" "bmachine.more t = bmachine.more ?v"
    using iderw_write [of c i q ?v b] u(2) h(3,5) flag_updates(6) [of "bufs s ! b"] unfolding vb by (auto simp: e)
  have "bwrite b s = Ret () t" using u(1) t(1) by (simp add: bwrite_def bindK_def thenK_def)
  then show ?thesis using t(2-) unfolding vb by (intro exI [of _ t]) (simp add: e)
qed

lemma bwrite_ok:
  assumes ok: "cache_ok c i q H s" and b: "b \<in> H" "b < NBUF"
  defines "k \<equiv> blockno (bufs s ! b)"
  shows "\<exists>t. bwrite b s = Ret () t \<and> cache_ok c i q H t \<and> bview t = bview s \<and> dirty_blocks t = dirty_blocks s - {k} \<and>
    memdisk t = (memdisk s)[unat k := bdata (bufs s ! b)] \<and> dwrites t = dwrites s @ [(unat k, bdata (bufs s ! b))] \<and>
    disksize t = disksize s \<and> bmachine.more t = bmachine.more s \<and> (\<forall>a. a \<noteq> b \<longrightarrow> bufs t ! a = bufs s ! a) \<and>
    blockno (bufs t ! b) = k \<and> bdata (bufs t ! b) = bdata (bufs s ! b)"
proof -
  note D = cache_okD [OF ok] and h = held_buf [OF ok b]
  obtain t where t: "bwrite b s = Ret () t" "calm c i q t" "sleeplks t = sleeplks s"
    "bufs t = (bufs s)[b := (bufs s ! b)\<lparr>bflags := (bflags (bufs s ! b) OR 4) AND - 5 OR 2\<rparr>]"
    "head_prev t = head_prev s" "head_next t = head_next s"
    "memdisk t = (memdisk s)[unat k := bdata (bufs s ! b)]" "disksize t = disksize s"
    "dwrites t = dwrites s @ [(unat k, bdata (bufs s ! b))]" "bmachine.more t = bmachine.more s"
    using bwrite_eq [OF ok b] unfolding k_def by auto
  have a: "\<And>a. a \<noteq> b \<Longrightarrow> bufs t ! a = bufs s ! a" by (simp add: t(4))
  have tb: "bufs t ! b = (bufs s ! b)\<lparr>bflags := (bflags (bufs s ! b) OR 4) AND - 5 OR 2\<rparr>" using b(2) D(2) by (simp add: t(4))
  have fl: "valid (bufs t ! b)" "\<not> dirty (bufs t ! b)"
    using flag_updates(3,4) [of "(bufs s ! b)\<lparr>bflags := bflags (bufs s ! b) OR 4\<rparr>"] by (simp_all add: tb)
  have hk: "has 1 k (bufs s ! b)" "has 1 k (bufs t ! b)" using h by (simp_all add: has_def k_def tb)
  have re: "relinked b s t" using a by (rule relinked_update)
  have dk: "memdisk t ! unat k' = memdisk s ! unat k'" if "k' \<noteq> k" for k'
    unfolding t(7) using that by (intro nth_list_update_neq) (simp add: word_unat_eq_iff)
  have ok': "cache_ok c i q H t"
  proof (rule cache_replace [OF ok t(2) _ b(2)])
    have "lru xs t = lru xs s" for xs
      by (rule lru_cong) (simp_all add: t(4-6) nth_upd_field [of _ "\<lambda>x. x\<lparr>bflags := (bflags x OR 4) AND - 5 OR 2\<rparr>"])
    then show "\<exists>xs. lru xs t" using ok by (simp add: cache_ok_def)
    show "buf_ok q H t b"
      using b(1) h fl unfolding buf_ok_def Let_def by (simp add: tb keeps_buf_def t(3,8))
    show other: "a < NBUF \<Longrightarrow> a \<noteq> b \<Longrightarrow> has 1 k' (bufs t ! b) \<Longrightarrow> \<not> has 1 k' (bufs s ! a)" for a k'
      using D(3) b(2) by (auto simp: tb one_copy_def has_def)
    show "memdisk t ! unat k' = memdisk s ! unat k'" if "a < NBUF" "a \<noteq> b" "has 1 k' (bufs s ! a)" for a k'
      using other [of a k] that hk(2) by (intro dk) (auto simp: has_def)
  qed (use re in \<open>simp_all add: relinked_def t(3,7,8)\<close>)
  have "bview t = (bview s)(k := bdata (bufs t ! b))"
    by (rule bview_replace [OF ok ok' b(2) re hk(1) h(4) hk(2) fl(1) dk])
  also have "\<dots> = bview s" using h(6) by (auto simp: tb k_def)
  finally have "bview t = bview s" .
  moreover have "dirty_blocks t = dirty_blocks s - {k}"
    using dirty_replace [OF ok ok' b(2) re hk] fl(2) by simp
  ultimately show ?thesis using t(1,7-10) ok' a tb hk(2) by (intro exI [of _ t]) (auto simp: has_def)
qed

definition only_links :: "'z bmachine_scheme \<Rightarrow> 'z bmachine_scheme \<Rightarrow> bool" where
  "only_links s t \<longleftrightarrow> (\<forall>a. \<exists>n p. bufs t ! a = (bufs s ! a)\<lparr>bnext := n, bprev := p\<rparr>) \<and> procs t = procs s \<and>
     (\<forall>c. same_cpu c s t) \<and> sleeplks t = sleeplks s \<and> memdisk t = memdisk s \<and> disksize t = disksize s \<and>
     dwrites t = dwrites s \<and> bmachine.more t = bmachine.more s"

lemma only_links_trans: "only_links s t \<Longrightarrow> only_links t u \<Longrightarrow> only_links s u"
proof -
  assume st: "only_links s t" and tu: "only_links t u"
  have "\<exists>n p. bufs u ! a = (bufs s ! a)\<lparr>bnext := n, bprev := p\<rparr>" for a
  proof -
    obtain n p where "bufs t ! a = (bufs s ! a)\<lparr>bnext := n, bprev := p\<rparr>" using st unfolding only_links_def by blast
    moreover obtain n' p' where "bufs u ! a = (bufs t ! a)\<lparr>bnext := n', bprev := p'\<rparr>"
      using tu unfolding only_links_def by blast
    ultimately show ?thesis by (intro exI [of _ n'] exI [of _ p']) simp
  qed
  moreover have "same_cpu c s u" for c using st tu same_cpu_trans unfolding only_links_def by blast
  ultimately show ?thesis using st tu by (simp add: only_links_def)
qed

lemma nth_upd_link:
  "\<exists>n p. xs[j := (xs ! j)\<lparr>bnext := v\<rparr>] ! a = (xs ! a)\<lparr>bnext := n, bprev := p\<rparr>"
  "\<exists>n p. xs[j := (xs ! j)\<lparr>bprev := v\<rparr>] ! a = (xs ! a)\<lparr>bnext := n, bprev := p\<rparr>"
proof -
  have upd: "xs[j := y] ! a = xs ! a \<or> xs[j := y] ! a = y \<and> j = a" for y
    by (cases "j = a"; cases "a < length xs") (simp_all add: list_update_beyond)
  have same: "\<exists>n p. xs ! a = (xs ! a)\<lparr>bnext := n, bprev := p\<rparr>"
    by (intro exI [of _ "bnext (xs ! a)"] exI [of _ "bprev (xs ! a)"]) simp
  have n: "\<exists>n p. (xs ! a)\<lparr>bnext := v\<rparr> = (xs ! a)\<lparr>bnext := n, bprev := p\<rparr>"
    by (intro exI [of _ v] exI [of _ "bprev (xs ! a)"]) simp
  have p: "\<exists>n p. (xs ! a)\<lparr>bprev := v\<rparr> = (xs ! a)\<lparr>bnext := n, bprev := p\<rparr>"
    by (intro exI [of _ "bnext (xs ! a)"] exI [of _ v]) simp
  show "\<exists>n p. xs[j := (xs ! j)\<lparr>bnext := v\<rparr>] ! a = (xs ! a)\<lparr>bnext := n, bprev := p\<rparr>"
    "\<exists>n p. xs[j := (xs ! j)\<lparr>bprev := v\<rparr>] ! a = (xs ! a)\<lparr>bnext := n, bprev := p\<rparr>"
    using upd [of "(xs ! j)\<lparr>bnext := v\<rparr>"] upd [of "(xs ! j)\<lparr>bprev := v\<rparr>"]
    by (elim disjE conjE; simp only: same n p)+
qed

lemma only_links_set: "only_links s (set_next x v s)" "only_links s (set_prev x v s)"
proof -
  have h: "\<exists>n p. bufs s ! a = (bufs s ! a)\<lparr>bnext := n, bprev := p\<rparr>" for a
    by (intro exI [of _ "bnext (bufs s ! a)"] exI [of _ "bprev (bufs s ! a)"]) simp
  have c: "same_cpu c s (s\<lparr>head_next := v\<rparr>)" "same_cpu c s (s\<lparr>head_prev := v\<rparr>)" for c by (rule same_cpuI; simp)+
  have l: "\<exists>n p. bufs (set_next x v s) ! a = (bufs s ! a)\<lparr>bnext := n, bprev := p\<rparr>"
    "\<exists>n p. bufs (set_prev x v s) ! a = (bufs s ! a)\<lparr>bnext := n, bprev := p\<rparr>" for a
  proof (atomize (full), cases x)
    case Head
    then have "bufs (set_next x v s) = bufs s" "bufs (set_prev x v s) = bufs s" by simp_all
    then show "(\<exists>n p. bufs (set_next x v s) ! a = (bufs s ! a)\<lparr>bnext := n, bprev := p\<rparr>) \<and>
      (\<exists>n p. bufs (set_prev x v s) ! a = (bufs s ! a)\<lparr>bnext := n, bprev := p\<rparr>)" by (simp only: h simp_thms)
  next
    case (Blk j)
    then have "bufs (set_next x v s) = (bufs s)[j := (bufs s ! j)\<lparr>bnext := v\<rparr>]"
      "bufs (set_prev x v s) = (bufs s)[j := (bufs s ! j)\<lparr>bprev := v\<rparr>]" by simp_all
    then show "(\<exists>n p. bufs (set_next x v s) ! a = (bufs s ! a)\<lparr>bnext := n, bprev := p\<rparr>) \<and>
      (\<exists>n p. bufs (set_prev x v s) ! a = (bufs s ! a)\<lparr>bnext := n, bprev := p\<rparr>)" by (simp only: nth_upd_link simp_thms)
  qed
  show "only_links s (set_next x v s)" "only_links s (set_prev x v s)"
    unfolding only_links_def by (intro conjI allI l; cases x; simp add: c)+
qed

lemma only_links_front: "only_links s (link_front b (unlink b s))"
proof -
  have "only_links s (unlink b s)"
    unfolding unlink_def Let_def by (rule only_links_trans [OF only_links_set(2) only_links_set(1)])
  moreover have "only_links t (link_front b t)" for t :: "'a bmachine_scheme"
    unfolding link_front_def Let_def
    by (rule only_links_trans [OF only_links_trans [OF only_links_trans [OF only_links_set(1) only_links_set(2)] only_links_set(2)] only_links_set(1)])
  ultimately show ?thesis by (rule only_links_trans)
qed

lemma brelse_eq:
  assumes ok: "cache_ok c i q H s" and b: "b \<in> H" "b < NBUF" and lru: "lru xs s"
  shows "\<exists>t. brelse b s = Ret () t \<and> calm c i q t \<and> lru (to_front b xs) t \<and>
    sleeplks t = (sleeplks s)(BufLock b := (sleeplks s (BufLock b))\<lparr>sl_locked := 0, sl_pid := 0\<rparr>) \<and>
    (\<exists>n p. bufs t ! b = (bufs s ! b)\<lparr>refcnt := 0, bnext := n, bprev := p\<rparr>) \<and> relinked b s t \<and>
    memdisk t = memdisk s \<and> disksize t = disksize s \<and> dwrites t = dwrites s \<and> bmachine.more t = bmachine.more s"
proof -
  note D = cache_okD [OF ok] and h = held_buf [OF ok b]
  obtain u where u: "holdingsleep (BufLock b) s = Ret True u" "calm c i q u" "pmachine.more u = pmachine.more s"
    using holdingsleep_eq [OF D(1), of "BufLock b"] h(1) by (auto simp: keeps_buf_def)
  obtain v where v: "releasesleep (BufLock b) u = Ret () v" "calm c i q v"
      "pmachine.more v = pmachine.more (upd_sleep (BufLock b) (\<lambda>k. k\<lparr>sl_locked := 0, sl_pid := 0\<rparr>) u)"
    using releasesleep_eq [OF u(2)] by blast
  note e = bio_of_upper [OF u(3)] and f = bio_of_upper [OF v(3)]
  define w where "w = took c BcacheLock v"
  define x where "x = upd_buf b (\<lambda>x. x\<lparr>refcnt := refcnt x - 1\<rparr>) w"
  define y where "y = link_front b (unlink b x)"
  note a = calm_acquire [OF v(2), of BcacheLock, folded w_def]
  have xb: "bufs x ! b = (bufs s ! b)\<lparr>refcnt := 0\<rparr>" and xa: "\<And>a. a \<noteq> b \<Longrightarrow> bufs x ! a = bufs s ! a"
    using b(2) D(2) h(2) by (simp_all add: x_def w_def e f)
  have ol: "only_links x y" unfolding y_def by (rule only_links_front)
  then have lk: "\<exists>n p. bufs y ! a = (bufs x ! a)\<lparr>bnext := n, bprev := p\<rparr>" for a by (simp add: only_links_def)
  have y: "procs y = procs w" "sleeplks y = sleeplks w" "memdisk y = memdisk w" "disksize y = disksize w"
    "dwrites y = dwrites w" "bmachine.more y = bmachine.more w" "same_cpu c x y"
    using ol by (simp_all add: only_links_def x_def)
  have sc: "same_cpu c w y" using same_cpu_trans [of c w x y] y(7) by (simp add: x_def)
  have wi: "within c i q BcacheLock y"
    by (rule within_cong [OF a(2) sc]) (use a(2) y(1) in \<open>simp_all add: within_def\<close>)
  have "brelse b s = thenK (modifyK (\<lambda>s. link_front b (unlink b s))) (release BcacheLock) x"
    using u(1) v(1) a(1) xb by (simp add: brelse_def bindK_def thenK_def condK_def x_def)
  then have r: "brelse b s = Ret () (dropped c BcacheLock y)"
    using within_release(1) [OF wi] by (simp add: thenK_def bindK_def y_def)
  have "lru xs x = lru xs s"
    by (rule lru_cong) (simp_all add: x_def w_def e f nth_upd_field [of _ "\<lambda>x. x\<lparr>refcnt := refcnt x - 1\<rparr>"])
  then have "lru (to_front b xs) y" unfolding y_def using lru_to_front [OF _ b(2)] lru by blast
  then have l: "lru (to_front b xs) (dropped c BcacheLock y)" using lru_cong [of "dropped c BcacheLock y" y] by simp
  have "\<exists>n p. bufs y ! b = (bufs s ! b)\<lparr>refcnt := 0, bnext := n, bprev := p\<rparr>" using lk [of b] unfolding xb .
  moreover have "relinked b s (dropped c BcacheLock y)" unfolding relinked_def bio_section using lk xa by metis
  ultimately show ?thesis
    using within_release(2) [OF wi] l r y(2-6) by (intro exI [of _ "dropped c BcacheLock y"]) (simp add: w_def e f)
qed

lemma brelse_ok:
  assumes ok: "cache_ok c i q H s" and b: "b \<in> H" "b < NBUF"
    and clean: "dirty (bufs s ! b) \<or> bdata (bufs s ! b) = memdisk s ! unat (blockno (bufs s ! b))"
  shows "\<exists>t. brelse b s = Ret () t \<and> cache_ok c i q (H - {b}) t \<and> bview t = bview s \<and> dirty_blocks t = dirty_blocks s \<and>
    memdisk t = memdisk s \<and> dwrites t = dwrites s \<and> disksize t = disksize s \<and> bmachine.more t = bmachine.more s \<and>
    (\<forall>a<NBUF. blockno (bufs t ! a) = blockno (bufs s ! a) \<and> bdata (bufs t ! a) = bdata (bufs s ! a) \<and>
       dirty (bufs t ! a) = dirty (bufs s ! a))"
proof -
  note D = cache_okD [OF ok] and h = held_buf [OF ok b]
  obtain xs where lru: "lru xs s" using ok by (auto simp: cache_ok_def)
  obtain t n p where t: "brelse b s = Ret () t" "calm c i q t" "lru (to_front b xs) t"
    "sleeplks t = (sleeplks s)(BufLock b := (sleeplks s (BufLock b))\<lparr>sl_locked := 0, sl_pid := 0\<rparr>)"
    "bufs t ! b = (bufs s ! b)\<lparr>refcnt := 0, bnext := n, bprev := p\<rparr>" "relinked b s t"
    "memdisk t = memdisk s" "disksize t = disksize s" "dwrites t = dwrites s" "bmachine.more t = bmachine.more s"
    using brelse_eq [OF ok b lru] by blast
  have tb: "valid (bufs t ! b)" "dirty (bufs t ! b) = dirty (bufs s ! b)" "bdata (bufs t ! b) = bdata (bufs s ! b)"
    "has 1 k (bufs t ! b) = has 1 k (bufs s ! b)" "has 1 (blockno (bufs s ! b)) (bufs s ! b)"
    "blockno (bufs t ! b) = blockno (bufs s ! b)" for k
    using t(5) h by (simp_all add: valid_def dirty_def has_def)
  have ok': "cache_ok c i q (H - {b}) t"
  proof (rule cache_replace [OF ok t(2) _ b(2)])
    show "buf_ok q (H - {b}) t b"
      using clean tb h D(5) [OF b(2)] by (auto simp: buf_ok_def Let_def t(4,5,7,8))
    show "a < NBUF \<Longrightarrow> a \<noteq> b \<Longrightarrow> has 1 k' (bufs t ! b) \<Longrightarrow> \<not> has 1 k' (bufs s ! a)" for a k'
      using D(3) b(2) by (auto simp: tb(4) one_copy_def)
  qed (use t(3,4,6-) in \<open>auto simp: relinked_def\<close>)
  have tk: "has 1 (blockno (bufs s ! b)) (bufs t ! b)" using tb(4,5) by blast
  have "bview t = (bview s)(blockno (bufs s ! b) := bdata (bufs t ! b))"
    by (rule bview_replace [OF ok ok' b(2) t(6) tb(5) h(4) tk tb(1)]) (simp add: t(7))
  moreover have "dirty_blocks t = dirty_blocks s"
    using dirty_replace [OF ok ok' b(2) t(6) tb(5) tk] dirty_replace [OF ok ok b(2) _ tb(5,5)] relinked_update [of b s s] tb(2)
    by simp
  moreover have "blockno (bufs t ! a) = blockno (bufs s ! a) \<and> bdata (bufs t ! a) = bdata (bufs s ! a) \<and>
       dirty (bufs t ! a) = dirty (bufs s ! a)" if "a < NBUF" for a
    using relinkedD [OF t(6) that] tb by (cases "a = b") auto
  ultimately show ?thesis using t(1,7-) ok' h(6) tb(3) by (intro exI [of _ t]) (simp add: fun_upd_idem)
qed

section \<open>Choice of a buffer\<close>

lemma bget_lru:
  assumes "cache_ok c i q H s" and "lru xs s" and "\<forall>b\<in>H. b < NBUF \<longrightarrow> \<not> has dv bno (bufs s ! b)"
  shows "case find (\<lambda>b. has dv bno (bufs s ! b)) xs of
      Some b \<Rightarrow> \<exists>t. bget dv bno s = Ret b t \<and> lru xs t \<and> keeps_buf q b t \<and> bdata (bufs t ! b) = bdata (bufs s ! b)
    | None \<Rightarrow> (case find (\<lambda>b. idle (bufs s ! b)) (rev xs) of
        Some b \<Rightarrow> \<exists>t. bget dv bno s = Ret b t \<and> lru xs t \<and> keeps_buf q b t \<and> has dv bno (bufs t ! b)
      | None \<Rightarrow> bget dv bno s = Panic ''bget: no buffers'')"
proof -
  note D = cache_okD [OF assms(1)]
  have xs: "b < NBUF \<and> P b" if "find P xs = Some b \<or> find P (rev xs) = Some b" for P b
    using that assms(2) unfolding lru_def by (auto simp: find_Some_iff) (metis nth_mem atLeastLessThan_iff set_rev length_rev)+
  have free: "sl_locked (sleeplks s (BufLock b)) = 0"
    if "find (\<lambda>b. has dv bno (bufs s ! b)) xs = Some b \<or> find (\<lambda>b. idle (bufs s ! b)) (rev xs) = Some b" for b
  proof -
    have "b < NBUF" "has dv bno (bufs s ! b) \<or> idle (bufs s ! b)" using that xs by blast+
    then show ?thesis using D(5) [of b] assms(3) by (auto simp: buf_ok_def Let_def idle_def split: if_splits)
  qed
  note g = bget_eq [OF D(1) assms(2), of dv bno, OF free]
  have len: "length (bufs s) = NBUF" by (rule D(2))
  have keep: "lru xs t" "keeps_buf q b t" "bufs t ! b = f (bufs s ! b)"
    if "sleeplks t = (sleeplks s)(BufLock b := hold q (sleeplks s (BufLock b)))" "bufs t = (bufs s)[b := f (bufs s ! b)]" "same_rest s t"
      "bnext (f (bufs s ! b)) = bnext (bufs s ! b)" "bprev (f (bufs s ! b)) = bprev (bufs s ! b)" "b < NBUF" for t b f
    using that lru_same_links [OF assms(2) that(3,2,4,5)] len by (simp_all add: keeps_buf_def hold_def)
  show "case find (\<lambda>b. has dv bno (bufs s ! b)) xs of
      Some b \<Rightarrow> \<exists>t. bget dv bno s = Ret b t \<and> lru xs t \<and> keeps_buf q b t \<and> bdata (bufs t ! b) = bdata (bufs s ! b)
    | None \<Rightarrow> (case find (\<lambda>b. idle (bufs s ! b)) (rev xs) of
        Some b \<Rightarrow> \<exists>t. bget dv bno s = Ret b t \<and> lru xs t \<and> keeps_buf q b t \<and> has dv bno (bufs t ! b)
      | None \<Rightarrow> bget dv bno s = Panic ''bget: no buffers'')"
  proof (cases "find (\<lambda>b. has dv bno (bufs s ! b)) xs")
    case (Some b)
    then have "b < NBUF" using xs by blast
    then show ?thesis using g Some keep [of _ b "\<lambda>x. x\<lparr>refcnt := refcnt x + 1\<rparr>"] by fastforce
  next
    case None
    show ?thesis
    proof (cases "find (\<lambda>b. idle (bufs s ! b)) (rev xs)")
      case (Some b)
      then have "b < NBUF" using xs by blast
      then show ?thesis
        using g Some None keep [of _ b "\<lambda>x. x\<lparr>bdev := dv, blockno := bno, bflags := 0, refcnt := 1\<rparr>"] by (fastforce simp: has_def)
    qed (use g None in simp)
  qed
qed

lemma bview_unheld:
  assumes ok: "cache_ok c i q H s" and "k \<notin> dirty_blocks s" and "\<And>b. b \<in> H \<Longrightarrow> b < NBUF \<Longrightarrow> blockno (bufs s ! b) \<noteq> k"
  shows "bview s k = memdisk s ! unat k"
proof (cases "\<exists>a<NBUF. has 1 k (bufs s ! a) \<and> valid (bufs s ! a)")
  case True
  note D = cache_okD [OF ok]
  obtain a where a: "a < NBUF" "has 1 k (bufs s ! a)" "valid (bufs s ! a)" using True by blast
  have "\<not> dirty (bufs s ! a)" using assms(2) a D(2) by (auto simp: dirty_blocks_iff has_def)
  moreover have "a \<notin> H" using assms(3) [of a] a by (auto simp: has_def)
  ultimately show ?thesis using bview_hit [OF D(3,2) a] D(5) [OF a(1)] a by (simp add: buf_ok_def Let_def has_def)
next
  case False
  then show ?thesis by (intro bview_miss [OF cache_okD(2) [OF ok]]) auto
qed

lemma dirty_buf:
  assumes ok: "cache_ok c i q H s" and "b < NBUF" and "bdev (bufs s ! b) = 1" and "blockno (bufs s ! b) \<in> dirty_blocks s"
  shows "dirty (bufs s ! b)"
proof -
  note D = cache_okD [OF ok]
  obtain a where a: "a < NBUF" "dirty (bufs s ! a)" "blockno (bufs s ! a) = blockno (bufs s ! b)"
    using assms(4) D(2) by (auto simp: dirty_blocks_iff)
  then have "bdev (bufs s ! a) = 1" using D(5) [OF a(1)] by (simp add: buf_ok_def Let_def)
  then have "a = b" using D(3) a assms(2,3) unfolding one_copy_def has_def by blast
  then show ?thesis using a by simp
qed

section \<open>The cache of the machine that has booted\<close>

lemma nth_blank: "i < 30 \<Longrightarrow> map blank_buf [0..<30] ! i = blank_buf i"
  by simp

lemma booted_chain: "n \<le> 30 \<Longrightarrow> chain (next_of booted) (prev_of booted) (map Blk (rev [0..<n]) @ [Head])"
proof (induction n)
  case (Suc n)
  have "next_of booted (Blk n) = hd (map Blk (rev [0..<n]) @ [Head])" using Suc(2) by (cases n) (simp_all add: blank_buf_def)
  moreover have "prev_of booted (hd (map Blk (rev [0..<n]) @ [Head])) = Blk n" using Suc(2) by (cases n) (simp_all add: blank_buf_def)
  ultimately show ?case using Suc by (cases n) simp_all
qed simp

lemma booted_lru: "lru (rev [0..<30]) booted"
proof -
  have e: "rev [0..<30] = 29 # rev [0..<29]" using upt_Suc_append [of 0 29] by simp
  have "chain (next_of booted) (prev_of booted) (Head # map Blk (rev [0..<30]) @ [Head])"
    using booted_chain [of 30] unfolding e by (simp add: blank_buf_def)
  then show ?thesis by (simp add: lru_def atLeast0LessThan)
qed

lemma booted_calm: "calm 0 0 1 booted"
  using booted_ok by (simp add: calm_def pm_demo_sel one_cpu_def)

lemma booted_cache: "cache_ok 0 0 1 {} booted" "dirty_blocks booted = {}"
proof -
  have b: "bufs booted ! b = blank_buf b" if "b < 30" for b using that by simp
  have "one_copy (bufs booted)" by (auto simp: one_copy_def has_def blank_buf_def)
  moreover have "buf_ok 1 {} booted a" if "a < 30" for a
    using that by (simp add: buf_ok_def Let_def blank_buf_def valid_def dirty_def)
  ultimately show "cache_ok 0 0 1 {} booted" using booted_calm booted_lru by (auto simp: cache_ok_def)
  show "dirty_blocks booted = {}" by (auto simp: dirty_blocks_iff dirty_def blank_buf_def)
qed

section \<open>Main properties\<close>

text \<open>
  C17. \<^verbatim>\<open>bget\<close> and \<^verbatim>\<open>brelse\<close> keep the buffers in the order of their last use. \<open>xs\<close> is that order, most recent
  first: \<^verbatim>\<open>bget\<close> locks and returns the buffer that has the block; if there is none it takes the least
  recently used buffer that nobody refers to and that does not wait for the log, and panics when
  there is no such buffer. \<^verbatim>\<open>brelse\<close> of a buffer that its last user holds makes it the most recent.
\<close>

theorem buffer_cache_lru:
  assumes "cache_ok c i q H s" and "lru xs s" and "\<forall>b\<in>H. b < NBUF \<longrightarrow> \<not> has dv bno (bufs s ! b)"
  shows "(case find (\<lambda>b. has dv bno (bufs s ! b)) xs of
      Some b \<Rightarrow> \<exists>t. bget dv bno s = Ret b t \<and> lru xs t \<and> keeps_buf q b t \<and> bdata (bufs t ! b) = bdata (bufs s ! b)
    | None \<Rightarrow> (case find (\<lambda>b. idle (bufs s ! b)) (rev xs) of
        Some b \<Rightarrow> \<exists>t. bget dv bno s = Ret b t \<and> lru xs t \<and> keeps_buf q b t \<and> has dv bno (bufs t ! b)
      | None \<Rightarrow> bget dv bno s = Panic ''bget: no buffers'')) \<and>
    (\<forall>b\<in>H. b < NBUF \<longrightarrow> (\<exists>t. brelse b s = Ret () t \<and> lru (to_front b xs) t))"
  using bget_lru [OF assms] brelse_eq [OF assms(1) _ _ assms(2)] by blast

text \<open>On the machine that has booted the first block read goes to buffer 0, the one at the end of the list.\<close>

theorem buffer_cache_lru_witness: "\<exists>t. bget 1 7 booted = Ret 0 t \<and> lru (rev [0..<30]) t \<and> keeps_buf 1 0 t"
proof -
  have "find (\<lambda>b. has 1 7 (bufs booted ! b)) (rev [0..<30]) = None"
    by (auto simp: find_None_iff has_def blank_buf_def)
  moreover have "[0..<30] = 0 # [Suc 0..<30]" by (rule upt_conv_Cons) simp
  then have "find (\<lambda>b. idle (bufs booted ! b)) (rev (rev [0..<30])) = Some 0"
    by (simp add: idle_def dirty_def blank_buf_def)
  ultimately show ?thesis
    using buffer_cache_lru [OF booted_cache(1) booted_lru, of 1 7] by auto
qed

text \<open>
  C4. The cache is transparent: there is at most one copy of a block, \<^verbatim>\<open>bread\<close> returns a locked buffer with
  what the last writer of the block left, whether that is on the disk or only in the cache;
  reading, writing and releasing do not change what readers of any block see, and \<^verbatim>\<open>bwrite\<close> puts it
  on the disk.
\<close>

theorem buffer_cache_consistent:
  assumes "cache_ok c i q H s" and "k < disksize s" and "\<forall>b\<in>H. b < NBUF \<longrightarrow> blockno (bufs s ! b) \<noteq> k"
    and "k \<in> dirty_blocks s \<or> (\<exists>b<NBUF. b \<notin> H \<and> \<not> dirty (bufs s ! b))"
  shows "\<exists>b t. bread 1 k s = Ret b t \<and> b \<notin> H \<and> cache_ok c i q (insert b H) t \<and> bdata (bufs t ! b) = bview s k \<and>
    bview t = bview s \<and> memdisk t = memdisk s \<and>
    (\<exists>u. bwrite b t = Ret () u \<and> cache_ok c i q (insert b H) u \<and> bview u = bview s \<and> memdisk u = (memdisk s)[unat k := bview s k]) \<and>
    (\<exists>u. brelse b t = Ret () u \<and> cache_ok c i q H u \<and> bview u = bview s \<and> memdisk u = memdisk s)"
proof -
  obtain b t where t: "bread 1 k s = Ret b t" "b < NBUF" "b \<notin> H" "cache_ok c i q (insert b H) t"
      "blockno (bufs t ! b) = k" "bdata (bufs t ! b) = bview s k" "bview t = bview s" "dirty_blocks t = dirty_blocks s" "same_rest s t"
    using bread_ok [OF assms(1,2) _ assms(4)] assms(3) by blast
  have m: "memdisk t = memdisk s" using t(9) by (simp add: same_rest_def)
  have w: "\<exists>u. bwrite b t = Ret () u \<and> cache_ok c i q (insert b H) u \<and> bview u = bview s \<and> memdisk u = (memdisk s)[unat k := bview s k]"
    using bwrite_ok [OF t(4) _ t(2)] t(5-7) m by auto
  have "dirty (bufs t ! b) \<or> bdata (bufs t ! b) = memdisk t ! unat k"
  proof (cases "k \<in> dirty_blocks s")
    case True
    then show ?thesis using dirty_buf [OF t(4,2)] held_buf(3) [OF t(4) _ t(2)] t(5,8) by simp
  next
    case False
    then show ?thesis using bview_unheld [OF assms(1)] assms(3) t(6) m by simp
  qed
  then have "\<exists>u. brelse b t = Ret () u \<and> cache_ok c i q (insert b H - {b}) u \<and> bview u = bview s \<and> memdisk u = memdisk s"
    using brelse_ok [OF t(4) _ t(2)] t(5,7) m by auto
  then show ?thesis using t m w by (intro exI [of _ b] exI [of _ t]) simp
qed

theorem buffer_cache_consistent_witness:
  "\<exists>b t u. bread 1 7 booted = Ret b t \<and> bdata (bufs t ! b) = replicate 512 0 \<and> brelse b t = Ret () u \<and> cache_ok 0 0 1 {} u"
proof -
  have "bview booted 7 = replicate 512 0"
    using bview_unheld [OF booted_cache(1), of 7] booted_cache(2) by simp
  moreover have "\<not> dirty (bufs booted ! 0)" by (simp add: dirty_def blank_buf_def)
  then have "\<exists>b<NBUF. b \<notin> {} \<and> \<not> dirty (bufs booted ! b)" by (intro exI [of _ 0]) simp
  ultimately show ?thesis using buffer_cache_consistent [OF booted_cache(1), of 7] by auto
qed

end
