(* ===== verification/Log_Inv.thy ===== *)
theory Log_Inv
  imports Bio_Cache
begin

text \<open>
  The log as a promise about crashes: the order in which \<^verbatim>\<open>commit\<close> writes blocks to the disk, and that
  recovery from the disk as it is after any number of these writes finds all of the transaction or
  nothing of it.
\<close>

section \<open>Integers in blocks\<close>

lemma get32_put32:
  assumes "i + 3 < length d"
  shows "get32 (put32 i v d) i = v"
proof -
  have "put32 i v d ! i = ucast v" "put32 i v d ! (i + 1) = ucast (drop_bit 8 v)"
    "put32 i v d ! (i + 2) = ucast (drop_bit 16 v)" "put32 i v d ! (i + 3) = ucast (drop_bit 24 v)"
    using assms by (simp_all add: put32_def)
  note b = this
  show ?thesis
  proof (rule bit_word_eqI)
    fix n assume "n < LENGTH(32)"
    then consider "n < 8" | "8 \<le> n" "n < 16" | "16 \<le> n" "n < 24" | "24 \<le> n" "n < 32"
      by fastforce
    then show "bit (get32 (put32 i v d) i) n = bit v n"
      unfolding get32_def b by cases (auto simp: bit_or_iff bit_push_bit_iff bit_unsigned_iff bit_drop_bit_eq)
  qed
qed

lemma get32_put32_apart: "j + 3 < i \<or> i + 3 < j \<Longrightarrow> get32 (put32 i v d) j = get32 d j"
  by (auto simp: get32_def put32_def)

lemma length_put32 [simp]: "length (put32 i v d) = length d"
  by (simp add: put32_def)

lemma length_put_blocks [simp]: "length (put_blocks i bs d) = length d"
  by (induction i bs d rule: put_blocks.induct) simp_all

lemma get32_put_blocks_below: "j + 3 < 4 + 4 * i \<Longrightarrow> get32 (put_blocks i bs d) j = get32 d j"
  by (induction i bs d rule: put_blocks.induct) (simp_all add: get32_put32_apart)

lemma get32_put_blocks:
  "j < length bs \<Longrightarrow> 4 + 4 * (i + length bs) \<le> length d \<Longrightarrow> get32 (put_blocks i bs d) (4 + 4 * (i + j)) = bs ! j"
proof (induction i bs d arbitrary: j rule: put_blocks.induct)
  case (2 i x xs d)
  show ?case
  proof (cases j)
    case 0
    then show ?thesis using 2(3) get32_put_blocks_below [of "4 + 4 * i" "i + 1" xs] by (simp add: get32_put32)
  next
    case (Suc m)
    then show ?thesis using 2(1) [of m] 2(2,3) by simp
  qed
qed simp

section \<open>Writes to the disk\<close>

definition apply_writes :: "(nat \<times> uchar list) list \<Rightarrow> uchar list list \<Rightarrow> uchar list list" where
  "apply_writes ws d = fold (\<lambda>(k, x) d. d[k := x]) ws d"

definition wrote :: "(nat \<times> uchar list) list \<Rightarrow> 'z bmachine_scheme \<Rightarrow> 'z bmachine_scheme \<Rightarrow> bool" where
  "wrote ws s t \<longleftrightarrow> dwrites t = dwrites s @ ws \<and> memdisk t = apply_writes ws (memdisk s) \<and> disksize t = disksize s"

lemma apply_writes_simps [simp]:
  "apply_writes [] d = d" "apply_writes ((k, x) # ws) d = apply_writes ws (d[k := x])"
  "apply_writes (ws @ vs) d = apply_writes vs (apply_writes ws d)"
  by (simp_all add: apply_writes_def)

lemma length_apply_writes [simp]: "length (apply_writes ws d) = length d"
  by (induction ws arbitrary: d) auto

lemma wrote_trans: "wrote ws s t \<Longrightarrow> wrote vs t u \<Longrightarrow> wrote (ws @ vs) s u"
  by (simp add: wrote_def)

lemma wrote_refl [simp]: "wrote [] s s"
  by (simp add: wrote_def)

lemma apply_writes_other: "k \<notin> fst ` set ws \<Longrightarrow> apply_writes ws d ! k = d ! k"
  by (induction ws arbitrary: d) auto

lemma apply_writes_nth:
  "distinct (map fst ws) \<Longrightarrow> j < length ws \<Longrightarrow> fst (ws ! j) < length d \<Longrightarrow> apply_writes ws d ! fst (ws ! j) = snd (ws ! j)"
proof (induction ws arbitrary: d j)
  case (Cons w ws)
  obtain k x where w: "w = (k, x)" by (cases w)
  show ?case
  proof (cases j)
    case 0
    then show ?thesis using Cons(2,4) w apply_writes_other [of k ws] by simp
  next
    case (Suc m)
    then show ?thesis using Cons(1) [of m "d[k := x]"] Cons(2-) w by simp
  qed
qed simp

lemma forK_append: "forK (xs @ ys) f = thenK (forK xs f) (forK ys f)"
  by (induction xs) (simp_all add: thenK_assoc, simp add: thenK_def bindK_def)

lemma forK_upt:
  assumes "P 0 s" and "\<And>j s. j < n \<Longrightarrow> P j s \<Longrightarrow> \<exists>t. f j s = Ret () t \<and> P (Suc j) t"
  shows "\<exists>t. forK [0..<n] f s = Ret () t \<and> P n t"
  using assms(2)
proof (induction n)
  case 0
  then show ?case using assms(1) by simp
next
  case (Suc n)
  then obtain t where t: "forK [0..<n] f s = Ret () t" "P n t" by (metis less_SucI)
  then obtain u where "f n t = Ret () u" "P (Suc n) u" using Suc(2) by blast
  then show ?case using t(1) by (simp add: forK_append thenK_def bindK_def)
qed

section \<open>Copying a block\<close>

lemma bview_clean: "cache_ok c i q {} s \<Longrightarrow> k \<notin> dirty_blocks s \<Longrightarrow> bview s k = memdisk s ! unat k"
  using bview_unheld [of c i q "{}" s k] by simp

lemma room:
  assumes ok: "cache_ok c i q H s" and "card (dirty_blocks s) + card H < NBUF" and "finite H"
  shows "\<exists>b<NBUF. b \<notin> H \<and> \<not> dirty (bufs s ! b)"
proof (rule ccontr)
  note D = cache_okD [OF ok]
  assume no: "\<not> ?thesis"
  let ?A = "{0..<NBUF} - H"
  have d: "dirty (bufs s ! a)" if "a \<in> ?A" for a using no that by auto
  have "inj_on (\<lambda>a. blockno (bufs s ! a)) ?A"
  proof (rule inj_onI)
    fix a b assume ab: "a \<in> ?A" "b \<in> ?A" "blockno (bufs s ! a) = blockno (bufs s ! b)"
    have "bdev (bufs s ! a) = 1" "bdev (bufs s ! b) = 1"
      using d [OF ab(1)] d [OF ab(2)] D(5) [of a] D(5) [of b] ab by (auto simp: buf_ok_def Let_def)
    then show "a = b" using D(3) ab unfolding one_copy_def has_def by auto
  qed
  then have "card ((\<lambda>a. blockno (bufs s ! a)) ` ?A) = card ?A" by (rule card_image)
  moreover have "(\<lambda>a. blockno (bufs s ! a)) ` ?A \<subseteq> dirty_blocks s"
  proof (rule image_subsetI)
    fix a assume "a \<in> ?A"
    then show "blockno (bufs s ! a) \<in> dirty_blocks s" using d D(2) unfolding dirty_blocks_iff by (intro exI [of _ a]) auto
  qed
  then have "card ((\<lambda>a. blockno (bufs s ! a)) ` ?A) \<le> card (dirty_blocks s)"
    by (intro card_mono) (simp_all add: dirty_blocks_def)
  moreover have "card {0..<NBUF} - card H \<le> card ?A" by (rule diff_card_le_card_Diff [OF assms(3)])
  ultimately show False using assms(2) by simp
qed

text \<open>A held buffer that may be released.\<close>

definition settled :: "'z bmachine_scheme \<Rightarrow> nat \<Rightarrow> bool" where
  "settled s b \<longleftrightarrow> dirty (bufs s ! b) \<or> bdata (bufs s ! b) = memdisk s ! unat (blockno (bufs s ! b))"

definition both_read :: "nat \<Rightarrow> nat \<Rightarrow> int \<Rightarrow> uint32 \<Rightarrow> uint32 \<Rightarrow> nat \<Rightarrow> nat \<Rightarrow> 'z bmachine_scheme \<Rightarrow> 'z bmachine_scheme \<Rightarrow> bool" where
  "both_read c i q j k a b s u \<longleftrightarrow> cache_ok c i q {a, b} u \<and> a < NBUF \<and> b < NBUF \<and> a \<noteq> b \<and>
     blockno (bufs u ! a) = j \<and> blockno (bufs u ! b) = k \<and> bdata (bufs u ! a) = bview s j \<and>
     bdata (bufs u ! b) = bview s k \<and> settled u a \<and> settled u b \<and>
     bview u = bview s \<and> dirty_blocks u = dirty_blocks s \<and> same_rest s u"

lemma both_read_swap: "both_read c i q j k a b s u = both_read c i q k j b a s u"
  by (auto simp: both_read_def insert_commute)

lemma two_reads:
  assumes ok: "cache_ok c i q {} s" and k: "j < disksize s" "k < disksize s" "j \<noteq> k"
    and r: "card (dirty_blocks s) < NBUF" "k \<in> dirty_blocks s \<or> card (dirty_blocks s) + 1 < NBUF"
  shows "\<exists>a b t u. bread 1 j s = Ret a t \<and> bread 1 k t = Ret b u \<and> same_rest s t \<and> both_read c i q j k a b s u"
proof -
  obtain a t where t: "bread 1 j s = Ret a t" "a < NBUF" "cache_ok c i q {a} t" "blockno (bufs t ! a) = j"
      "bdata (bufs t ! a) = bview s j" "bview t = bview s" "dirty_blocks t = dirty_blocks s" "same_rest s t"
    using bread_ok [OF ok k(1)] room [OF ok] r(1) by auto
  obtain b u where u: "bread 1 k t = Ret b u" "b < NBUF" "b \<noteq> a" "cache_ok c i q {b, a} u" "blockno (bufs u ! b) = k"
      "bdata (bufs u ! b) = bview s k" "bview u = bview s" "dirty_blocks u = dirty_blocks s" "bufs u ! a = bufs t ! a" "same_rest t u"
    using bread_ok [OF t(3), of k] room [OF t(3)] k t r(2) by (auto simp: same_rest_def)
  have rest: "same_rest s u" using t(8) u(10) by (simp add: same_rest_def)
  have st: "settled u d" if "d \<in> {a, b}" "bdata (bufs u ! d) = bview s (blockno (bufs u ! d))" for d
  proof (cases "blockno (bufs u ! d) \<in> dirty_blocks s")
    case True
    then show ?thesis
      using that dirty_buf [OF u(4), of d] held_buf(3) [OF u(4), of d] t(2) u(2,8) by (auto simp: settled_def)
  next
    case False
    then show ?thesis using that bview_clean [OF ok False] rest by (simp add: settled_def same_rest_def)
  qed
  show ?thesis using t u rest st [of a] st [of b] by (intro exI [of _ a] exI [of _ b] exI [of _ t] exI [of _ u]) (simp add: both_read_def insert_commute)
qed

text \<open>The effect of copying what readers see of block \<open>j\<close> to block \<open>k\<close>.\<close>

definition copied :: "nat \<Rightarrow> nat \<Rightarrow> int \<Rightarrow> uint32 \<Rightarrow> uchar list \<Rightarrow> 'z bmachine_scheme \<Rightarrow> 'z bmachine_scheme \<Rightarrow> bool" where
  "copied c i q k d s t \<longleftrightarrow> cache_ok c i q {} t \<and> wrote [(unat k, d)] s t \<and> bview t = (bview s)(k := d) \<and>
     dirty_blocks t = dirty_blocks s - {k} \<and> bmachine.more t = bmachine.more s"

lemma write_buf:
  assumes ok: "cache_ok c i q H s" and b: "b \<in> H" "b < NBUF"
  defines "k \<equiv> blockno (bufs s ! b)"
  shows "\<exists>t. bwrite b (upd_buf b (\<lambda>x. x\<lparr>bdata := f x\<rparr>) s) = Ret () t \<and> cache_ok c i q H t \<and>
    wrote [(unat k, f (bufs s ! b))] s t \<and> bview t = (bview s)(k := f (bufs s ! b)) \<and>
    dirty_blocks t = dirty_blocks s - {k} \<and> bmachine.more t = bmachine.more s \<and> settled t b \<and>
    blockno (bufs t ! b) = k \<and> (\<forall>a. a \<noteq> b \<longrightarrow> bufs t ! a = bufs s ! a)"
proof -
  let ?u = "upd_buf b (\<lambda>x. x\<lparr>bdata := f x\<rparr>) s"
  note u = set_data_ok [OF ok b, where f = f]
  have uk: "blockno (bufs ?u ! b) = k" "bdata (bufs ?u ! b) = f (bufs s ! b)" unfolding u(6) k_def by simp_all
  obtain t where t: "bwrite b ?u = Ret () t" "cache_ok c i q H t" "bview t = bview ?u"
      "dirty_blocks t = dirty_blocks ?u - {k}" "memdisk t = (memdisk ?u)[unat k := f (bufs s ! b)]"
      "dwrites t = dwrites ?u @ [(unat k, f (bufs s ! b))]" "disksize t = disksize ?u"
      "bmachine.more t = bmachine.more ?u" "\<forall>a. a \<noteq> b \<longrightarrow> bufs t ! a = bufs ?u ! a" "blockno (bufs t ! b) = k"
      "bdata (bufs t ! b) = f (bufs s ! b)"
    using bwrite_ok [OF u(1) b] unfolding uk by blast
  have "unat k < length (memdisk s)"
    using held_buf(5) [OF ok b] cache_okD(4) [OF ok] by (simp add: k_def word_less_nat_alt)
  then have "settled t b" using t(5,10,11) by (simp add: settled_def)
  then show ?thesis using t u(2,3,5) by (intro exI [of _ t]) (simp add: wrote_def k_def)
qed

lemma release_two:
  assumes ok: "cache_ok c i q {a, b} s" and ab: "a < NBUF" "b < NBUF" "a \<noteq> b" and "settled s a" "settled s b"
  shows "\<exists>t. thenK (brelse a) (brelse b) s = Ret () t \<and> cache_ok c i q {} t \<and> wrote [] s t \<and> bview t = bview s \<and>
    dirty_blocks t = dirty_blocks s \<and> bmachine.more t = bmachine.more s"
proof -
  obtain t where t: "brelse a s = Ret () t" "cache_ok c i q {b} t" "wrote [] s t" "bview t = bview s"
      "dirty_blocks t = dirty_blocks s" "bmachine.more t = bmachine.more s" "settled t b"
    using brelse_ok [OF ok, of a] assms by (auto simp: settled_def wrote_def insert_Diff_if)
  obtain u where "brelse b t = Ret () u" "cache_ok c i q {} u" "wrote [] t u" "bview u = bview t"
      "dirty_blocks u = dirty_blocks t" "bmachine.more u = bmachine.more t"
    using brelse_ok [OF t(2), of b] ab t(7) by (auto simp: settled_def wrote_def)
  then show ?thesis using t by (intro exI [of _ u]) (simp add: thenK_def bindK_def wrote_def)
qed

lemma copy_finish:
  assumes both: "both_read c i q j k a b s u" and jk: "j \<noteq> k"
  shows "\<exists>t. thenK (modifyK (copy_buf b a)) (thenK (bwrite b) (thenK (brelse a) (brelse b))) u = Ret () t \<and>
    copied c i q k (bview s j) s t"
proof -
  have r: "cache_ok c i q {a, b} u" "a < NBUF" "b < NBUF" "a \<noteq> b" "blockno (bufs u ! a) = j" "blockno (bufs u ! b) = k"
    "bdata (bufs u ! a) = bview s j" "settled u a" "bview u = bview s" "dirty_blocks u = dirty_blocks s" "same_rest s u"
    using both by (simp_all add: both_read_def)
  obtain t where t: "bwrite b (copy_buf b a u) = Ret () t" "cache_ok c i q {a, b} t" "wrote [(unat k, bview s j)] u t"
      "bview t = (bview u)(k := bview s j)" "dirty_blocks t = dirty_blocks u - {k}"
      "bmachine.more t = bmachine.more u" "settled t b" "bufs t ! a = bufs u ! a"
    using write_buf [OF r(1), where b = b and f = "\<lambda>_. bdata (bufs u ! a)"] r by (auto simp: copy_buf_def)
  have "settled t a"
    using r(5,6,8) t(3,8) jk by (auto simp: settled_def wrote_def nth_list_update_neq word_unat_eq_iff)
  then obtain v where "thenK (brelse a) (brelse b) t = Ret () v" "cache_ok c i q {} v" "wrote [] t v" "bview v = bview t"
      "dirty_blocks v = dirty_blocks t" "bmachine.more v = bmachine.more t"
    using release_two [OF t(2) r(2-4)] t(7) by blast
  then show ?thesis
    using t r(9-11) by (intro exI [of _ v]) (simp add: thenK_def bindK_def copied_def wrote_def same_rest_def)
qed

section \<open>The steps of commit and recovery\<close>

text \<open>
  \<open>logged ls bs s\<close>: the log starts at block \<open>ls\<close> and its header in memory lists the blocks \<open>bs\<close>.
  \<open>fits ls bs n\<close>: on a disk of \<open>n\<close> blocks these are distinct blocks outside the area of the log.
\<close>

definition logged :: "nat \<Rightarrow> uint32 list \<Rightarrow> 'z lmachine_scheme \<Rightarrow> bool" where
  "logged ls bs s \<longleftrightarrow> ldev (log s) = 1 \<and> lstart (log s) = int ls \<and> lh_n (lh (log s)) = int (length bs) \<and>
     take (length bs) (lh_block (lh (log s))) = bs"

definition fits :: "nat \<Rightarrow> uint32 list \<Rightarrow> nat \<Rightarrow> bool" where
  "fits ls bs n \<longleftrightarrow> distinct bs \<and> length bs \<le> LOGSIZE \<and> ls + LOGSIZE < n \<and>
     (\<forall>b\<in>set bs. unat b < n \<and> (unat b < ls \<or> ls + LOGSIZE < unat b))"

definition header :: "uint32 list \<Rightarrow> uchar list \<Rightarrow> uchar list" where
  "header bs d = put_blocks 0 bs (put32 0 (of_nat (length bs)) d)"

lemma log_of_more: "bmachine.more t = bmachine.more s \<Longrightarrow> log t = log s"
  by (cases s; cases t) simp

lemma log_index:
  assumes "cache_ok c i q H s" and "k < length (memdisk s)"
  shows "unat (of_nat k :: uint32) = k" "(of_nat k :: uint32) < disksize s"
proof -
  have "length (memdisk s) < 2 ^ 32" using cache_okD(4) [OF assms(1)] unsigned_less [of "disksize s", where 'a = nat] by simp
  then show u: "unat (of_nat k :: uint32) = k" using assms(2) by (simp add: unat_of_nat)
  show "(of_nat k :: uint32) < disksize s" using u assms(2) cache_okD(4) [OF assms(1)] by (simp add: word_less_nat_alt)
qed

lemma home_block:
  assumes "cache_ok c i q {} s" and "fits ls bs (length (memdisk s))" and "j < length bs" and "k \<le> LOGSIZE"
  shows "bs ! j < disksize s" "bs ! j \<noteq> of_nat (ls + k)" "ls + k < length (memdisk s)"
proof -
  have f: "unat (bs ! j) < length (memdisk s)" "unat (bs ! j) < ls \<or> ls + LOGSIZE < unat (bs ! j)"
    using assms(2,3) by (auto simp: fits_def)
  show "bs ! j < disksize s" using f(1) cache_okD(4) [OF assms(1)] by (simp add: word_less_nat_alt)
  show l: "ls + k < length (memdisk s)" using assms(2,4) by (simp add: fits_def)
  show "bs ! j \<noteq> of_nat (ls + k)" using log_index(1) [OF assms(1) l] f(2) assms(4) by auto
qed

text \<open>The block that keeps_buf the copy of the block with index \<open>j\<close> in the header.\<close>

definition log_addr :: "nat \<Rightarrow> nat \<Rightarrow> uint32" where
  "log_addr ls j = of_nat (ls + (j + 1))"

lemma log_addr:
  assumes "cache_ok c i q {} s" and "fits ls bs (length (memdisk s))" and "j < LOGSIZE"
  shows "unat (log_addr ls j) = ls + (j + 1)" "log_addr ls j < disksize s"
    "a < length bs \<Longrightarrow> bs ! a \<noteq> log_addr ls j" "log_addr ls j \<notin> set bs" "log_addr ls j \<noteq> of_nat ls"
    "m < LOGSIZE \<Longrightarrow> log_addr ls m = log_addr ls j \<longleftrightarrow> m = j"
proof -
  have l: "ls + (k + 1) < length (memdisk s)" "ls < length (memdisk s)" if "k < LOGSIZE" for k
    using assms(2) that by (auto simp: fits_def)
  note u = log_index [OF assms(1) l(1), folded log_addr_def]
  show uj: "unat (log_addr ls j) = ls + (j + 1)" "log_addr ls j < disksize s" by (rule u [OF assms(3)])+
  show h: "bs ! a \<noteq> log_addr ls j" if "a < length bs" for a
    unfolding log_addr_def by (rule home_block(2) [OF assms(1,2) that]) (use assms(3) in simp)
  show "log_addr ls j \<notin> set bs" using h by (metis in_set_conv_nth)
  have "unat (log_addr ls j) \<noteq> unat (of_nat ls :: uint32)" unfolding uj(1) log_index(1) [OF assms(1) l(2) [OF assms(3)]] by simp
  then show "log_addr ls j \<noteq> of_nat ls" by (rule contrapos_nn) (rule arg_cong)
  show "log_addr ls m = log_addr ls j \<longleftrightarrow> m = j" if "m < LOGSIZE"
  proof
    assume "log_addr ls m = log_addr ls j"
    then have "ls + (m + 1) = ls + (j + 1)" unfolding u(1) [OF that, symmetric] uj(1) [symmetric] by simp
    then show "m = j" by simp
  qed simp
qed

lemma logged_sel:
  assumes "logged ls bs s" and "j < length bs"
  shows "log_block s j = log_addr ls j" "lh_block (lh (log s)) ! j = bs ! j" "ldev (log s) = 1"
proof -
  show "log_block s j = log_addr ls j" using assms(1) by (simp add: log_block_def logged_def log_addr_def)
  have "bs ! j = take (length bs) (lh_block (lh (log s))) ! j" using assms(1) by (simp add: logged_def)
  then show "lh_block (lh (log s)) ! j = bs ! j" using assms(2) by simp
  show "ldev (log s) = 1" using assms(1) by (simp add: logged_def)
qed

lemma fits_index: "fits ls bs n \<Longrightarrow> j < length bs \<Longrightarrow> j < LOGSIZE"
  by (simp add: fits_def)

lemma write_log_one_ok:
  assumes ok: "cache_ok c i q {} s" and lg: "logged ls bs s" and f: "fits ls bs (length (memdisk s))" and j: "j < length bs"
    and d: "bs ! j \<in> dirty_blocks s" "card (dirty_blocks s) < NBUF"
  shows "\<exists>t. write_log_one j s = Ret () t \<and> copied c i q (log_addr ls j) (bview s (bs ! j)) s t"
proof -
  note l = log_addr [OF ok f fits_index [OF f j]] and h = home_block(1) [OF ok f j order_refl] and sel = logged_sel [OF lg j]
  have "bs ! j \<in> dirty_blocks s \<or> card (dirty_blocks s) + 1 < NBUF" using d(1) ..
  then obtain b a t u where r: "bread 1 (log_addr ls j) s = Ret b t" "bread 1 (bs ! j) t = Ret a u" "same_rest s t"
      "both_read c i q (log_addr ls j) (bs ! j) b a s u"
    using two_reads [OF ok l(2) h l(3) [OF j, symmetric] d(2)] by blast
  have lt: "log t = log s" using r(3) by (intro log_of_more) (simp add: same_rest_def)
  obtain v where v: "thenK (modifyK (copy_buf b a)) (thenK (bwrite b) (thenK (brelse a) (brelse b))) u = Ret () v"
      "copied c i q (log_addr ls j) (bview s (bs ! j)) s v"
    using copy_finish [OF iffD1 [OF both_read_swap r(4)] l(3) [OF j]] by blast
  have "write_log_one j s = Ret () v"
    unfolding write_log_one_def using r(1,2) v(1) sel lt by (simp add: bindK_def)
  then show ?thesis using v(2) by blast
qed

lemma install_one_ok:
  assumes ok: "cache_ok c i q {} s" and lg: "logged ls bs s" and f: "fits ls bs (length (memdisk s))" and j: "j < length bs"
    and d: "bs ! j \<in> dirty_blocks s \<or> card (dirty_blocks s) + 1 < NBUF" "card (dirty_blocks s) < NBUF"
  shows "\<exists>t. install_one j s = Ret () t \<and> copied c i q (bs ! j) (bview s (log_addr ls j)) s t"
proof -
  note l = log_addr [OF ok f fits_index [OF f j]] and h = home_block(1) [OF ok f j order_refl] and sel = logged_sel [OF lg j]
  obtain a b t u where r: "bread 1 (log_addr ls j) s = Ret a t" "bread 1 (bs ! j) t = Ret b u" "same_rest s t"
      "both_read c i q (log_addr ls j) (bs ! j) a b s u"
    using two_reads [OF ok l(2) h l(3) [OF j, symmetric] d(2,1)] by blast
  have lt: "log t = log s" using r(3) by (intro log_of_more) (simp add: same_rest_def)
  obtain v where v: "thenK (modifyK (copy_buf b a)) (thenK (bwrite b) (thenK (brelse a) (brelse b))) u = Ret () v"
      "copied c i q (bs ! j) (bview s (log_addr ls j)) s v"
    using copy_finish [OF r(4) l(3) [OF j, symmetric]] by blast
  have "install_one j s = Ret () v"
    unfolding install_one_def using r(1,2) v(1) sel lt by (simp add: bindK_def)
  then show ?thesis using v(2) by blast
qed

lemma write_head_ok:
  assumes ok: "cache_ok c i q {} s" and lg: "logged ls bs s" and f: "ls < length (memdisk s)" and d: "card (dirty_blocks s) < NBUF"
  shows "\<exists>t. write_head s = Ret () t \<and> copied c i q (of_nat ls) (header bs (bview s (of_nat ls))) s t"
proof -
  note l = log_index [OF ok f]
  obtain b t where t: "bread 1 (of_nat ls) s = Ret b t" "b < NBUF" "cache_ok c i q {b} t" "blockno (bufs t ! b) = of_nat ls"
      "bdata (bufs t ! b) = bview s (of_nat ls)" "bview t = bview s" "dirty_blocks t = dirty_blocks s" "same_rest s t"
    using bread_ok [OF ok l(2)] room [OF ok] d by auto
  have lt: "log t = log s" using t(8) by (intro log_of_more) (simp add: same_rest_def)
  let ?f = "\<lambda>x. header bs (bdata x)"
  obtain u where u: "bwrite b (upd_buf b (\<lambda>x. x\<lparr>bdata := ?f x\<rparr>) t) = Ret () u" "cache_ok c i q {b} u"
      "wrote [(unat (of_nat ls :: uint32), ?f (bufs t ! b))] t u" "bview u = (bview t)(of_nat ls := ?f (bufs t ! b))"
      "dirty_blocks u = dirty_blocks t - {of_nat ls}" "bmachine.more u = bmachine.more t" "settled u b"
    using write_buf [OF t(3), where b = b and f = ?f] t(2,4) by auto
  obtain v where v: "brelse b u = Ret () v" "cache_ok c i q {} v" "bview v = bview u" "dirty_blocks v = dirty_blocks u"
      "memdisk v = memdisk u" "dwrites v = dwrites u" "disksize v = disksize u" "bmachine.more v = bmachine.more u"
    using brelse_ok [OF u(2), of b] t(2) u(7) by (auto simp: settled_def)
  have m: "(let h = lh (log t) in upd_buf b (\<lambda>x. x\<lparr>bdata :=
        put_blocks 0 (take (nat (lh_n h)) (lh_block h)) (put32 0 (of_int (lh_n h)) (bdata x))\<rparr>) t) =
      upd_buf b (\<lambda>x. x\<lparr>bdata := ?f x\<rparr>) t"
    using lg lt by (simp add: logged_def header_def)
  have "write_head s = Ret () v"
    unfolding write_head_def using t(1) u(1) v(1) lg m by (simp add: bindK_def thenK_def logged_def)
  moreover have "copied c i q (of_nat ls) (header bs (bview s (of_nat ls))) s v"
    using v u(3-6) t(5-8) by (simp add: copied_def same_rest_def wrote_def)
  ultimately show ?thesis by blast
qed

definition log_writes :: "nat \<Rightarrow> nat \<Rightarrow> (nat \<Rightarrow> uchar list) \<Rightarrow> (nat \<times> uchar list) list" where
  "log_writes ls n V = map (\<lambda>j. (ls + (j + 1), V j)) [0..<n]"

definition home_writes :: "uint32 list \<Rightarrow> nat \<Rightarrow> (nat \<Rightarrow> uchar list) \<Rightarrow> (nat \<times> uchar list) list" where
  "home_writes bs n V = map (\<lambda>j. (unat (bs ! j), V j)) [0..<n]"

lemma logged_tails: "logged ls bs s \<Longrightarrow> tails s = [0..<length bs]"
  by (simp add: tails_def logged_def)

lemma logged_more: "bmachine.more t = bmachine.more s \<Longrightarrow> logged ls bs t = logged ls bs s"
  using log_of_more [of t s] by (simp add: logged_def)

lemma write_log_ok:
  assumes ok: "cache_ok c i q {} s" and lg: "logged ls bs s" and f: "fits ls bs (length (memdisk s))"
    and d: "set bs = dirty_blocks s" "card (dirty_blocks s) < NBUF"
  shows "\<exists>t. write_log s = Ret () t \<and> cache_ok c i q {} t \<and> wrote (log_writes ls (length bs) (\<lambda>j. bview s (bs ! j))) s t \<and>
    bmachine.more t = bmachine.more s \<and> dirty_blocks t = dirty_blocks s \<and>
    (\<forall>k. (\<forall>j<length bs. k \<noteq> log_addr ls j) \<longrightarrow> bview t k = bview s k) \<and>
    (\<forall>j<length bs. bview t (log_addr ls j) = bview s (bs ! j))"
proof -
  define P where "P m t \<longleftrightarrow> cache_ok c i q {} t \<and> wrote (log_writes ls m (\<lambda>j. bview s (bs ! j))) s t \<and>
    bmachine.more t = bmachine.more s \<and> dirty_blocks t = dirty_blocks s \<and>
    (\<forall>k. (\<forall>j<m. k \<noteq> log_addr ls j) \<longrightarrow> bview t k = bview s k) \<and>
    (\<forall>j<m. bview t (log_addr ls j) = bview s (bs ! j))" for m t
  have "\<exists>t. forK [0..<length bs] write_log_one s = Ret () t \<and> P (length bs) t"
  proof (rule forK_upt)
    show "P 0 s" using ok by (simp add: P_def log_writes_def)
    fix m t assume m: "m < length bs" and "P m t"
    then have P: "cache_ok c i q {} t" "wrote (log_writes ls m (\<lambda>j. bview s (bs ! j))) s t"
      "bmachine.more t = bmachine.more s" "dirty_blocks t = dirty_blocks s"
      "\<And>k. (\<forall>j<m. k \<noteq> log_addr ls j) \<Longrightarrow> bview t k = bview s k"
      "\<And>j. j < m \<Longrightarrow> bview t (log_addr ls j) = bview s (bs ! j)"
      unfolding P_def by blast+
    note mx = fits_index [OF f m] and la = log_addr [OF ok f]
    have v: "bview t (bs ! m) = bview s (bs ! m)" using la(3) [OF _ m] mx by (intro P(5)) simp
    have "fits ls bs (length (memdisk t))" using f P(2) by (simp add: wrote_def)
    moreover have "bs ! m \<in> dirty_blocks t" using d(1) m P(4) nth_mem by blast
    ultimately obtain u where u: "write_log_one m t = Ret () u" "copied c i q (log_addr ls m) (bview s (bs ! m)) t u"
      using write_log_one_ok [OF P(1) _ _ m, of ls] lg d(2) P(3,4) logged_more [OF P(3)] unfolding v by auto
    have "wrote (log_writes ls (Suc m) (\<lambda>j. bview s (bs ! j))) s u"
      using u(2) P(2) la(1) [OF mx] by (simp add: copied_def wrote_def log_writes_def)
    moreover have "dirty_blocks u = dirty_blocks s" using u(2) P(4) d(1) la(4) [OF mx] by (auto simp: copied_def)
    moreover have "log_addr ls j \<noteq> log_addr ls m" if "j < m" for j using la(6) [OF mx, of j] that mx by simp
    ultimately have "P (Suc m) u"
      using u(2) P(3,5,6) by (auto simp: P_def copied_def less_Suc_eq)
    then show "\<exists>u. write_log_one m t = Ret () u \<and> P (Suc m) u" using u(1) by blast
  qed
  then show ?thesis unfolding P_def write_log_def using logged_tails [OF lg] by (simp add: bindK_def)
qed

lemma install_trans_ok:
  assumes ok: "cache_ok c i q {} s" and lg: "logged ls bs s" and f: "fits ls bs (length (memdisk s))"
    and d: "dirty_blocks s = set bs \<or> dirty_blocks s = {}" "card (dirty_blocks s) < NBUF"
  shows "\<exists>t. install_trans s = Ret () t \<and> cache_ok c i q {} t \<and>
    wrote (home_writes bs (length bs) (\<lambda>j. bview s (log_addr ls j))) s t \<and> bmachine.more t = bmachine.more s \<and>
    dirty_blocks t = {} \<and> (\<forall>k. k \<notin> set bs \<longrightarrow> bview t k = bview s k)"
proof -
  define P where "P m t \<longleftrightarrow> cache_ok c i q {} t \<and> wrote (home_writes bs m (\<lambda>j. bview s (log_addr ls j))) s t \<and>
    bmachine.more t = bmachine.more s \<and> dirty_blocks t = dirty_blocks s - set (take m bs) \<and>
    (\<forall>k. k \<notin> set (take m bs) \<longrightarrow> bview t k = bview s k)" for m t
  have "\<exists>t. forK [0..<length bs] install_one s = Ret () t \<and> P (length bs) t"
  proof (rule forK_upt)
    show "P 0 s" using ok by (simp add: P_def home_writes_def)
    fix m t assume m: "m < length bs" and "P m t"
    then have P: "cache_ok c i q {} t" "wrote (home_writes bs m (\<lambda>j. bview s (log_addr ls j))) s t"
      "bmachine.more t = bmachine.more s" "dirty_blocks t = dirty_blocks s - set (take m bs)"
      "\<And>k. k \<notin> set (take m bs) \<Longrightarrow> bview t k = bview s k"
      unfolding P_def by blast+
    note mx = fits_index [OF f m]
    have v: "bview t (log_addr ls m) = bview s (log_addr ls m)"
      using log_addr(4) [OF ok f mx] by (intro P(5)) (auto dest: in_set_takeD)
    have "bs ! m \<notin> set (take m bs)" using f m by (auto simp: fits_def in_set_conv_nth nth_eq_iff_index_eq)
    then have "bs ! m \<in> dirty_blocks t \<or> card (dirty_blocks t) + 1 < NBUF" using P(4) d(1) m by auto
    moreover have "card (dirty_blocks t) < NBUF"
      unfolding P(4) using d(2) card_mono [of "dirty_blocks s" "dirty_blocks s - set (take m bs)"] by (auto simp: dirty_blocks_def)
    moreover have "fits ls bs (length (memdisk t))" using f P(2) by (simp add: wrote_def)
    ultimately obtain u where u: "install_one m t = Ret () u" "copied c i q (bs ! m) (bview s (log_addr ls m)) t u"
      using install_one_ok [OF P(1) _ _ m, of ls] lg logged_more [OF P(3)] unfolding v by auto
    have tk: "take (Suc m) bs = take m bs @ [bs ! m]" using m by (rule take_Suc_conv_app_nth)
    have "P (Suc m) u"
      using u(2) P(2-5) by (auto simp: P_def copied_def tk wrote_def home_writes_def)
    then show "\<exists>u. install_one m t = Ret () u \<and> P (Suc m) u" using u(1) by blast
  qed
  then show ?thesis unfolding P_def install_trans_def using logged_tails [OF lg] d(1) by (auto simp: bindK_def)
qed

section \<open>commit\<close>

lemma upd_lh_sel [simp]:
  "procs (upd_lh f s) = procs s" "same_cpu c s (upd_lh f s)" "sleeplks (upd_lh f s) = sleeplks s"
  "bufs (upd_lh f s) = bufs s" "head_prev (upd_lh f s) = head_prev s" "head_next (upd_lh f s) = head_next s"
  "memdisk (upd_lh f s) = memdisk s" "disksize (upd_lh f s) = disksize s" "dwrites (upd_lh f s) = dwrites s"
  "log (upd_lh f s) = (log s)\<lparr>lh := f (lh (log s))\<rparr>"
  by (simp_all add: upd_lh_def upd_log_def) (rule same_cpuI; simp)

lemma cache_upd_lh [simp]: "bview (upd_lh f s) = bview s" "dirty_blocks (upd_lh f s) = dirty_blocks s"
  by (simp_all add: fun_eq_iff bview_def dirty_blocks_def split: option.split)

lemma cache_ok_upd_lh:
  assumes "cache_ok c i q H s"
  shows "cache_ok c i q H (upd_lh f s)"
proof -
  have "calm c i q (upd_lh f s)" using cache_okD(1) [OF assms] by (rule calm_cong) (use cache_okD(1) [OF assms] in \<open>simp_all add: calm_def\<close>)
  moreover have "lru xs (upd_lh f s) = lru xs s" for xs by (rule lru_cong) simp_all
  moreover have "keeps_buf q b (upd_lh f s) = keeps_buf q b s" for b by (simp add: keeps_buf_def)
  then have "buf_ok q H (upd_lh f s) b = buf_ok q H s b" for b by (simp add: buf_ok_def)
  ultimately show ?thesis using assms by (simp add: cache_ok_def)
qed

definition commit_writes :: "nat \<Rightarrow> uint32 list \<Rightarrow> (nat \<Rightarrow> uchar list) \<Rightarrow> uchar list \<Rightarrow> (nat \<times> uchar list) list" where
  "commit_writes ls bs V h = log_writes ls (length bs) V @ [(ls, header bs h)] @ home_writes bs (length bs) V @
     [(ls, header [] (header bs h))]"

lemma home_writes_cong: "(\<And>j. j < n \<Longrightarrow> V j = U j) \<Longrightarrow> home_writes bs n V = home_writes bs n U"
  by (simp add: home_writes_def)

lemma clear_log:
  assumes ok: "cache_ok c i q {} s" and lg: "logged ls bs s" and l: "ls < length (memdisk s)" and d: "dirty_blocks s = {}"
  shows "\<exists>t. thenK (modifyK (upd_lh (\<lambda>h. h\<lparr>lh_n := 0\<rparr>))) write_head s = Ret () t \<and> cache_ok c i q {} t \<and>
    wrote [(ls, header [] (bview s (of_nat ls)))] s t \<and> dirty_blocks t = {} \<and> logged ls [] t"
proof -
  let ?s = "upd_lh (\<lambda>h. h\<lparr>lh_n := 0\<rparr>) s"
  have lg': "logged ls [] ?s" using lg by (simp add: logged_def)
  obtain t where t: "write_head ?s = Ret () t" "copied c i q (of_nat ls) (header [] (bview ?s (of_nat ls))) ?s t"
    using write_head_ok [OF cache_ok_upd_lh [OF ok] lg'] l d by auto
  have "logged ls [] t" using lg' logged_more [of t ?s] t(2) by (simp add: copied_def)
  then show ?thesis
    using t d log_index(1) [OF ok l] by (intro exI [of _ t]) (simp add: copied_def wrote_def)
qed

lemma commit_ok:
  assumes ok: "cache_ok c i q {} s" and lg: "logged ls bs s" and f: "fits ls bs (length (memdisk s))" and ne: "bs \<noteq> []"
    and d: "set bs = dirty_blocks s" "length bs < NBUF"
  shows "\<exists>t. commit s = Ret () t \<and> cache_ok c i q {} t \<and> dirty_blocks t = {} \<and> logged ls [] t \<and>
    wrote (commit_writes ls bs (\<lambda>j. bview s (bs ! j)) (bview s (of_nat ls))) s t"
proof -
  have card: "card (dirty_blocks s) < NBUF" using d f distinct_card [of bs] by (simp add: fits_def)
  have l: "ls < length (memdisk s)" using f by (simp add: fits_def)
  note la = log_addr [OF ok f] and l' = log_index [OF ok l]
  let ?V = "\<lambda>j. bview s (bs ! j)" and ?h = "bview s (of_nat ls)"
  obtain t1 where t1: "write_log s = Ret () t1" "cache_ok c i q {} t1" "wrote (log_writes ls (length bs) ?V) s t1"
      "bmachine.more t1 = bmachine.more s" "dirty_blocks t1 = dirty_blocks s"
      "\<And>k. (\<forall>j<length bs. k \<noteq> log_addr ls j) \<Longrightarrow> bview t1 k = bview s k"
      "\<And>j. j < length bs \<Longrightarrow> bview t1 (log_addr ls j) = bview s (bs ! j)"
    using write_log_ok [OF ok lg f d(1) card] by blast
  have la': "log_addr ls j \<noteq> of_nat ls" if "j < length bs" for j using la(5) [OF fits_index [OF f that]] .
  have h1: "bview t1 (of_nat ls) = ?h" using la' by (intro t1(6)) metis
  have lg1: "logged ls bs t1" using lg logged_more [OF t1(4)] by simp
  have l1: "length (memdisk t1) = length (memdisk s)" using t1(3) by (simp add: wrote_def)
  obtain t2 where t2: "write_head t1 = Ret () t2" "copied c i q (of_nat ls) (header bs ?h) t1 t2"
    using write_head_ok [OF t1(2) lg1] l card t1(5) h1 l1 by auto
  have lsd: "of_nat ls \<notin> set bs" using home_block(2) [OF ok f, of _ 0] by (auto simp: in_set_conv_nth)
  have c2: "cache_ok c i q {} t2" "wrote [(ls, header bs ?h)] t1 t2" "dirty_blocks t2 = set bs" "logged ls bs t2"
      "bview t2 = (bview t1)(of_nat ls := header bs ?h)"
    using t2(2) l'(1) t1(5) d(1) lsd lg1 logged_more [of t2 t1] by (simp_all add: copied_def)
  have l2: "length (memdisk t2) = length (memdisk s)" using c2(2) l1 by (simp add: wrote_def)
  obtain t3 where t3: "install_trans t2 = Ret () t3" "cache_ok c i q {} t3"
      "wrote (home_writes bs (length bs) (\<lambda>j. bview t2 (log_addr ls j))) t2 t3" "bmachine.more t3 = bmachine.more t2"
      "dirty_blocks t3 = {}" "\<And>k. k \<notin> set bs \<Longrightarrow> bview t3 k = bview t2 k"
    using install_trans_ok [OF c2(1,4)] f c2(3) card d(1) l2 by auto
  have V: "home_writes bs (length bs) (\<lambda>j. bview t2 (log_addr ls j)) = home_writes bs (length bs) ?V"
    using la' t1(7) by (intro home_writes_cong) (simp add: c2(5))
  have lg3: "logged ls bs t3" using c2(4) logged_more [OF t3(4)] by simp
  have l3: "ls < length (memdisk t3)" using t3(3) l2 l by (simp add: wrote_def)
  have h3: "bview t3 (of_nat ls) = header bs ?h" using t3(6) [OF lsd] by (simp add: c2(5))
  obtain t4 where t4: "thenK (modifyK (upd_lh (\<lambda>h. h\<lparr>lh_n := 0\<rparr>))) write_head t3 = Ret () t4" "cache_ok c i q {} t4"
      "wrote [(ls, header [] (header bs ?h))] t3 t4" "dirty_blocks t4 = {}" "logged ls [] t4"
    using clear_log [OF t3(2) lg3 l3 t3(5)] unfolding h3 by blast
  have "lh_n (lh (log s)) > 0" using lg ne by (simp add: logged_def)
  then have "commit s = Ret () t4"
    unfolding commit_def using t1(1) t2(1) t3(1) t4(1) by (simp add: condK_def thenK_def bindK_def)
  moreover have "wrote (commit_writes ls bs ?V ?h) s t4"
    unfolding commit_writes_def using t1(3) c2(2) t3(3) t4(3) unfolding V by (blast intro: wrote_trans)
  ultimately show ?thesis using t4 by blast
qed

section \<open>Crashes\<close>

text \<open>
  What recovery makes of a disk: the blocks that the header on the disk lists are overwritten with
  their copies in the log. \<open>outside ls d e\<close>: \<open>d\<close> and \<open>e\<close> are the same disk outside the log.
\<close>

definition disk_log :: "nat \<Rightarrow> uchar list list \<Rightarrow> uint32 list" where
  "disk_log ls d = map (\<lambda>j. get32 (d ! ls) (4 + 4 * j)) [0..<nat (sint (get32 (d ! ls) 0))]"

definition recovered :: "nat \<Rightarrow> uchar list list \<Rightarrow> uchar list list" where
  "recovered ls d = apply_writes (home_writes (disk_log ls d) (length (disk_log ls d)) (\<lambda>j. d ! (ls + (j + 1)))) d"

definition outside :: "nat \<Rightarrow> uchar list list \<Rightarrow> uchar list list \<Rightarrow> bool" where
  "outside ls d e \<longleftrightarrow> length e = length d \<and> (\<forall>k<length d. k < ls \<or> ls + LOGSIZE < k \<longrightarrow> e ! k = d ! k)"

lemma outside_trans: "outside ls d e \<Longrightarrow> outside ls e f \<Longrightarrow> outside ls d f"
  by (simp add: outside_def)

lemma length_header [simp]: "length (header bs h) = length h"
  by (simp add: header_def)

lemma disk_log_header:
  assumes "d ! ls = header bs h" and "length h = BSIZE" and "length bs \<le> LOGSIZE"
  shows "disk_log ls d = bs"
proof -
  have "get32 (header bs h) 0 = of_nat (length bs)"
    using assms(2) by (simp add: header_def get32_put_blocks_below get32_put32)
  moreover have "sint (of_nat (length bs) :: uint32) = int (length bs)"
    using assms(3) by (simp add: signed_of_nat signed_take_bit_int_eq_self)
  ultimately have n: "nat (sint (get32 (d ! ls) 0)) = length bs" using assms(1) by simp
  have "get32 (d ! ls) (4 + 4 * j) = bs ! j" if "j < length bs" for j
    using get32_put_blocks [of j bs 0 "put32 0 (of_nat (length bs)) h"] that assms by (simp add: header_def)
  then show ?thesis unfolding disk_log_def n by (intro nth_equalityI) simp_all
qed

lemma recovered_empty: "disk_log ls d = [] \<Longrightarrow> recovered ls d = d"
  by (simp add: recovered_def home_writes_def)

lemma outside_writes:
  "(\<And>k x. (k, x) \<in> set ws \<Longrightarrow> ls \<le> k \<and> k \<le> ls + LOGSIZE) \<Longrightarrow> outside ls d (apply_writes ws d)"
  unfolding outside_def
proof (intro conjI allI impI)
  fix k assume "\<And>k x. (k, x) \<in> set ws \<Longrightarrow> ls \<le> k \<and> k \<le> ls + LOGSIZE" and "k < ls \<or> ls + LOGSIZE < k"
  then show "apply_writes ws d ! k = d ! k" by (intro apply_writes_other) force
qed simp

lemma home_writes_nth:
  assumes f: "fits ls bs (length d)" and k: "k < length d"
  shows "apply_writes (home_writes bs (length bs) V) d ! k =
    (case first_index (\<lambda>b. unat b = k) bs of Some j \<Rightarrow> V j | None \<Rightarrow> d ! k)"
proof (cases "first_index (\<lambda>b. unat b = k) bs")
  case None
  then have "k \<notin> fst ` set (home_writes bs (length bs) V)"
    by (auto simp: home_writes_def first_index_None_iff)
  then show ?thesis using None by (simp add: apply_writes_other)
next
  case (Some j)
  then have j: "j < length bs" "unat (bs ! j) = k" by (auto dest: first_index_SomeD)
  have "map fst (home_writes bs (length bs) V) = map unat bs"
    by (rule nth_equalityI) (simp_all add: home_writes_def)
  moreover have "distinct (map unat bs)" using f by (auto simp: fits_def distinct_map inj_on_def word_unat_eq_iff)
  ultimately have "distinct (map fst (home_writes bs (length bs) V))" by simp
  then have "apply_writes (home_writes bs (length bs) V) d ! fst (home_writes bs (length bs) V ! j) = snd (home_writes bs (length bs) V ! j)"
    by (rule apply_writes_nth) (use j k in \<open>simp_all add: home_writes_def\<close>)
  then show ?thesis using j Some by (simp add: home_writes_def)
qed

text \<open>Installing again from any state in between gives the same disk.\<close>

lemma install_again:
  assumes f: "fits ls bs (length d)" and e: "length e = length d"
    and same: "\<And>k. k < length d \<Longrightarrow> k < ls \<or> ls + LOGSIZE < k \<Longrightarrow> k \<notin> unat ` set bs \<Longrightarrow> e ! k = d ! k"
  shows "outside ls (apply_writes (home_writes bs (length bs) V) d) (apply_writes (home_writes bs (length bs) V) e)"
  unfolding outside_def
proof (intro conjI allI impI)
  fix k assume k: "k < length (apply_writes (home_writes bs (length bs) V) d)" "k < ls \<or> ls + LOGSIZE < k"
  then have kd: "k < length d" by simp
  show "apply_writes (home_writes bs (length bs) V) e ! k = apply_writes (home_writes bs (length bs) V) d ! k"
    using home_writes_nth [OF f kd] home_writes_nth [of ls bs e k V] f e kd same [OF kd k(2)]
    by (cases "first_index (\<lambda>b. unat b = k) bs") (auto simp: first_index_None_iff)
qed (use e in simp)

lemma log_writes_at: "(k, x) \<in> set (log_writes ls n V) \<Longrightarrow> n \<le> LOGSIZE \<Longrightarrow> ls < k \<and> k \<le> ls + LOGSIZE"
  by (auto simp: log_writes_def)

lemma home_writes_at: "fits ls bs n \<Longrightarrow> (k, x) \<in> set (home_writes bs (length bs) V) \<Longrightarrow> k \<in> unat ` set bs \<and> (k < ls \<or> ls + LOGSIZE < k)"
  by (auto simp: home_writes_def fits_def)

text \<open>The disk once the header is written and \<open>r\<close> of the blocks are installed.\<close>

lemma after_header:
  fixes V :: "nat \<Rightarrow> uchar list" and x :: "uchar list" and r :: nat
  assumes f: "fits ls bs (length d)"
  defines "e \<equiv> apply_writes (take r (home_writes bs (length bs) V)) (apply_writes (log_writes ls (length bs) V @ [(ls, x)]) d)"
  shows "e ! ls = x" "j < length bs \<Longrightarrow> e ! (ls + (j + 1)) = V j" "length e = length d"
    "k < ls \<or> ls + LOGSIZE < k \<Longrightarrow> k \<notin> unat ` set bs \<Longrightarrow> e ! k = d ! k"
proof -
  let ?L = "log_writes ls (length bs) V" and ?e = "apply_writes (log_writes ls (length bs) V @ [(ls, x)]) d"
  have n: "length bs \<le> LOGSIZE" "ls + LOGSIZE < length d" using f by (simp_all add: fits_def)
  have keep: "e ! k = ?e ! k" if "ls \<le> k \<and> k \<le> ls + LOGSIZE \<or> k \<notin> unat ` set bs" for k
    unfolding e_def using that home_writes_at [OF f, of k _ V]
    by (intro apply_writes_other) (auto dest!: in_set_takeD)
  show "length e = length d" by (simp add: e_def)
  show "e ! ls = x" using keep [of ls] n by simp
  show "e ! (ls + (j + 1)) = V j" if j: "j < length bs"
  proof -
    have "distinct (map fst ?L)" by (simp add: log_writes_def comp_def distinct_map inj_on_def)
    then have "apply_writes ?L d ! fst (?L ! j) = snd (?L ! j)"
      by (rule apply_writes_nth) (use j n in \<open>simp_all add: log_writes_def\<close>)
    then show ?thesis using keep [of "ls + (j + 1)"] j n by (simp add: log_writes_def)
  qed
  show "e ! k = d ! k" if "k < ls \<or> ls + LOGSIZE < k" "k \<notin> unat ` set bs"
  proof -
    have "apply_writes ?L d ! k = d ! k" using that(1) log_writes_at [of k _ ls "length bs" V] n by (intro apply_writes_other) force
    then show ?thesis using keep [of k] that by auto
  qed
qed

lemma commit_crash:
  fixes V :: "nat \<Rightarrow> uchar list" and m :: nat
  assumes f: "fits ls bs (length d)" and h: "length h = BSIZE" and old: "disk_log ls d = []"
  defines "e \<equiv> apply_writes (take m (commit_writes ls bs V h)) d"
  shows "if m \<le> length bs then outside ls d (recovered ls e)
    else outside ls (apply_writes (home_writes bs (length bs) V) d) (recovered ls e)"
proof (cases "m \<le> length bs")
  case True
  have n: "length bs \<le> LOGSIZE" using f by (simp add: fits_def)
  let ?L = "take m (log_writes ls (length bs) V)"
  have e: "e = apply_writes ?L d" using True by (simp add: e_def commit_writes_def log_writes_def)
  have at: "(k, x) \<in> set ?L \<Longrightarrow> ls < k \<and> k \<le> ls + LOGSIZE" for k x using log_writes_at [OF _ n] by (blast dest: in_set_takeD)
  then have "e ! ls = d ! ls" unfolding e by (intro apply_writes_other) force
  then have "recovered ls e = e" using old by (intro recovered_empty) (simp add: disk_log_def)
  moreover have "outside ls d e" unfolding e using at by (intro outside_writes) (meson less_imp_le)
  ultimately show ?thesis using True by simp
next
  case False
  define r where "r = m - length bs - 1"
  let ?H = "home_writes bs (length bs) V"
  have n: "length bs \<le> LOGSIZE" using f by (simp add: fits_def)
  have m: "m = length bs + Suc r" using False by (simp add: r_def)
  note a = after_header [OF f, where V = V and x = "header bs h"]
  have W: "take m (commit_writes ls bs V h) = (log_writes ls (length bs) V @ [(ls, header bs h)]) @ take r (?H @ [(ls, header [] (header bs h))])"
    by (simp add: m commit_writes_def log_writes_def)
  show ?thesis
  proof (cases "r \<le> length bs")
    case True
    then have e: "e = apply_writes (take r ?H) (apply_writes (log_writes ls (length bs) V @ [(ls, header bs h)]) d)"
      unfolding e_def W by (simp add: home_writes_def)
    have bs: "disk_log ls e = bs" using a(1) [where r = r, folded e] h n by (rule disk_log_header)
    have "recovered ls e = apply_writes ?H e"
      unfolding recovered_def bs using a(2) [where r = r, folded e] by (simp cong: home_writes_cong)
    then show ?thesis
      using False install_again [OF f, of e V] a(3,4) [where r = r, folded e] by simp
  next
    case r: False
    let ?e = "apply_writes (take (length bs) ?H) (apply_writes (log_writes ls (length bs) V @ [(ls, header bs h)]) d)"
    have e: "e = ?e[ls := header [] (header bs h)]"
      unfolding e_def W using r by (simp add: home_writes_def)
    have l: "ls < length ?e" using f by (simp add: fits_def)
    then have "disk_log ls e = []" using h by (intro disk_log_header [of _ _ _ "header bs h"]) (simp_all add: e)
    then have "recovered ls e = e" by (rule recovered_empty)
    moreover have "outside ls (apply_writes ?H d) ?e"
      using install_again [OF f, of "apply_writes (log_writes ls (length bs) V @ [(ls, header bs h)]) d" V]
        a(3,4) [where r = 0] by (simp add: home_writes_def)
    moreover have "outside ls ?e e" unfolding e by (simp add: outside_def nth_list_update)
    ultimately show ?thesis using False outside_trans by simp
  qed
qed

section \<open>Recovery\<close>

lemma upd_lh_twice: "upd_lh f (upd_lh g s) = upd_lh (f \<circ> g) s"
  by (simp add: upd_lh_def upd_log_def)

lemma upd_lh_cong: "f (lh (log s)) = g (lh (log s)) \<Longrightarrow> upd_lh f s = upd_lh g s"
  by (simp add: upd_lh_def upd_log_def)

lemma read_blocks:
  fixes d :: "uchar list"
  assumes n: "n \<le> LOGSIZE" and len: "length (lh_block (lh (log s))) = LOGSIZE"
  shows "\<exists>bl. forK [0..<n] (\<lambda>i s. if i < LOGSIZE
      then Ret () (upd_lh (\<lambda>h. h\<lparr>lh_block := (lh_block h)[i := get32 d (4 + 4 * i)]\<rparr>) s) else Fault) s =
    Ret () (upd_lh (\<lambda>h. h\<lparr>lh_block := bl\<rparr>) s) \<and> take n bl = map (\<lambda>i. get32 d (4 + 4 * i)) [0..<n]"
proof -
  let ?g = "\<lambda>i. get32 d (4 + 4 * i)"
  define P where "P m t \<longleftrightarrow> (\<exists>bl. t = upd_lh (\<lambda>h. h\<lparr>lh_block := bl\<rparr>) s \<and> length bl = LOGSIZE \<and> take m bl = map ?g [0..<m])" for m t
  have "\<exists>t. forK [0..<n] (\<lambda>i s. if i < LOGSIZE
      then Ret () (upd_lh (\<lambda>h. h\<lparr>lh_block := (lh_block h)[i := ?g i]\<rparr>) s) else Fault) s = Ret () t \<and> P n t"
  proof (rule forK_upt)
    have "upd_lh (\<lambda>h. h\<lparr>lh_block := lh_block (lh (log s))\<rparr>) s = s" by (simp add: upd_lh_def upd_log_def)
    then show "P 0 s" unfolding P_def using len by (intro exI [of _ "lh_block (lh (log s))"]) simp
    fix m t assume m: "m < n" and "P m t"
    then obtain bl where bl: "t = upd_lh (\<lambda>h. h\<lparr>lh_block := bl\<rparr>) s" "length bl = LOGSIZE" "take m bl = map ?g [0..<m]"
      unfolding P_def by blast
    have "take (Suc m) (bl[m := ?g m]) = map ?g [0..<Suc m]"
      using bl m n by (simp add: take_Suc_conv_app_nth take_update_cancel)
    moreover have "upd_lh (\<lambda>h. h\<lparr>lh_block := (lh_block h)[m := ?g m]\<rparr>) t = upd_lh (\<lambda>h. h\<lparr>lh_block := bl[m := ?g m]\<rparr>) s"
      unfolding bl(1) upd_lh_twice by (rule upd_lh_cong) simp
    ultimately have "P (Suc m) (upd_lh (\<lambda>h. h\<lparr>lh_block := (lh_block h)[m := ?g m]\<rparr>) t)"
      unfolding P_def using bl(2) by (intro exI [of _ "bl[m := ?g m]"]) simp
    then show "\<exists>u. (if m < LOGSIZE then Ret () (upd_lh (\<lambda>h. h\<lparr>lh_block := (lh_block h)[m := ?g m]\<rparr>) t) else Fault) = Ret () u \<and> P (Suc m) u"
      using m n by simp
  qed
  then show ?thesis unfolding P_def by blast
qed

lemma read_head_ok:
  assumes ok: "cache_ok c i q {} s" and d: "dirty_blocks s = {}" and ls: "ls < length (memdisk s)"
    and lg: "ldev (log s) = 1" "lstart (log s) = int ls" "length (lh_block (lh (log s))) = LOGSIZE"
    and n: "0 \<le> sint (get32 (memdisk s ! ls) 0)" "sint (get32 (memdisk s ! ls) 0) \<le> int LOGSIZE"
  shows "\<exists>t. read_head s = Ret () t \<and> cache_ok c i q {} t \<and> bview t = bview s \<and> dirty_blocks t = {} \<and> wrote [] s t \<and>
    logged ls (disk_log ls (memdisk s)) t"
proof -
  note l = log_index [OF ok ls]
  let ?d = "memdisk s ! ls"
  define n where "n = sint (get32 ?d 0)"
  have v: "bview s (of_nat ls) = ?d" using bview_clean [OF ok, of "of_nat ls"] d l(1) by simp
  obtain b t where t: "bread 1 (of_nat ls) s = Ret b t" "b < NBUF" "cache_ok c i q {b} t" "blockno (bufs t ! b) = of_nat ls"
      "bdata (bufs t ! b) = ?d" "bview t = bview s" "dirty_blocks t = {}" "same_rest s t"
    using bread_ok [OF ok l(2)] room [OF ok] d v by auto
  have lt: "log t = log s" using t(8) by (intro log_of_more) (simp add: same_rest_def)
  let ?t = "upd_lh (\<lambda>h. h\<lparr>lh_n := n\<rparr>) t"
  have nb: "nat n \<le> LOGSIZE" using n by (simp add: n_def)
  have len: "length (lh_block (lh (log ?t))) = LOGSIZE" using lg(3) lt by simp
  obtain bl where bl: "forK [0..<nat n] (\<lambda>i s. if i < LOGSIZE
      then Ret () (upd_lh (\<lambda>h. h\<lparr>lh_block := (lh_block h)[i := get32 ?d (4 + 4 * i)]\<rparr>) s) else Fault) ?t =
      Ret () (upd_lh (\<lambda>h. h\<lparr>lh_block := bl\<rparr>) ?t)" "take (nat n) bl = map (\<lambda>i. get32 ?d (4 + 4 * i)) [0..<nat n]"
    using read_blocks [OF nb len, of ?d] by blast
  let ?u = "upd_lh (\<lambda>h. h\<lparr>lh_block := bl\<rparr>) ?t"
  have u: "cache_ok c i q {b} ?u" by (intro cache_ok_upd_lh t(3))
  obtain w where w: "brelse b ?u = Ret () w" "cache_ok c i q {} w" "bview w = bview s" "dirty_blocks w = {}"
      "memdisk w = memdisk s" "dwrites w = dwrites s" "disksize w = disksize s" "bmachine.more w = bmachine.more ?u"
    using brelse_ok [OF u, of b] t(2,4-8) l(1) by (auto simp: same_rest_def)
  have "read_head s = Ret () w"
    unfolding read_head_def using t(1,5) bl(1) w(1) lg(1,2) by (simp add: bindK_def thenK_def n_def)
  moreover have "logged ls (disk_log ls (memdisk s)) ?u"
    using bl(2) lg lt n by (simp add: logged_def disk_log_def n_def)
  then have "logged ls (disk_log ls (memdisk s)) w" using logged_more [OF w(8)] by simp
  ultimately show ?thesis using w by (intro exI [of _ w]) (simp add: wrote_def)
qed

lemma recover_ok:
  assumes ok: "cache_ok c i q {} s" and d: "dirty_blocks s = {}"
    and lg: "ldev (log s) = 1" "lstart (log s) = int ls" "length (lh_block (lh (log s))) = LOGSIZE"
    and n: "0 \<le> sint (get32 (memdisk s ! ls) 0)" "sint (get32 (memdisk s ! ls) 0) \<le> int LOGSIZE"
    and f: "fits ls (disk_log ls (memdisk s)) (length (memdisk s))"
  defines "bs \<equiv> disk_log ls (memdisk s)"
  shows "\<exists>t. recover_from_log s = Ret () t \<and> cache_ok c i q {} t \<and> dirty_blocks t = {} \<and> logged ls [] t \<and>
    wrote (home_writes bs (length bs) (\<lambda>j. memdisk s ! (ls + (j + 1))) @ [(ls, header [] (memdisk s ! ls))]) s t"
proof -
  have l: "ls < length (memdisk s)" using f by (simp add: fits_def)
  obtain t where t: "read_head s = Ret () t" "cache_ok c i q {} t" "bview t = bview s" "dirty_blocks t = {}" "wrote [] s t"
      "logged ls bs t"
    using read_head_ok [OF ok d l lg n] unfolding bs_def by blast
  have m: "memdisk t = memdisk s" using t(5) by (simp add: wrote_def)
  have f': "fits ls bs (length (memdisk t))" using f m by (simp add: bs_def)
  obtain u where u: "install_trans t = Ret () u" "cache_ok c i q {} u"
      "wrote (home_writes bs (length bs) (\<lambda>j. bview t (log_addr ls j))) t u" "bmachine.more u = bmachine.more t"
      "dirty_blocks u = {}" "\<And>k. k \<notin> set bs \<Longrightarrow> bview u k = bview t k"
    using install_trans_ok [OF t(2,6) f'] t(4) by auto
  have "bview t (log_addr ls j) = memdisk s ! (ls + (j + 1))" if "j < length bs" for j
    using bview_clean [OF t(2), of "log_addr ls j"] t(4) log_addr(1) [OF t(2) f' fits_index [OF f' that]] m by simp
  then have V: "home_writes bs (length bs) (\<lambda>j. bview t (log_addr ls j)) = home_writes bs (length bs) (\<lambda>j. memdisk s ! (ls + (j + 1)))"
    by (rule home_writes_cong)
  have "of_nat ls \<notin> set bs" using home_block(2) [OF t(2) f', of _ 0] by (auto simp: in_set_conv_nth)
  then have h: "bview u (of_nat ls) = memdisk s ! ls"
    using u(6) bview_clean [OF t(2), of "of_nat ls"] t(4) log_index(1) [OF ok l] m by simp
  have l': "ls < length (memdisk u)" and lg': "logged ls bs u"
    using l m u(3) t(6) logged_more [OF u(4)] by (simp_all add: wrote_def)
  obtain w where w: "thenK (modifyK (upd_lh (\<lambda>h. h\<lparr>lh_n := 0\<rparr>))) write_head u = Ret () w" "cache_ok c i q {} w"
      "wrote [(ls, header [] (memdisk s ! ls))] u w" "dirty_blocks w = {}" "logged ls [] w"
    using clear_log [OF u(2) lg' l' u(5)] unfolding h by blast
  have "recover_from_log s = Ret () w"
    unfolding recover_from_log_def using t(1) u(1) w(1) by (simp add: thenK_def bindK_def)
  moreover have "wrote (home_writes bs (length bs) (\<lambda>j. memdisk s ! (ls + (j + 1))) @ [(ls, header [] (memdisk s ! ls))]) s w"
    using wrote_trans [OF t(5) wrote_trans [OF u(3) w(3)]] unfolding V by simp
  ultimately show ?thesis using w by blast
qed

lemma recover_crash:
  fixes m :: nat
  assumes f: "fits ls (disk_log ls d) (length d)" and h: "length (d ! ls) = BSIZE"
  defines "bs \<equiv> disk_log ls d" and "V \<equiv> \<lambda>j. d ! (ls + (j + 1))"
  defines "e \<equiv> apply_writes (take m (home_writes bs (length bs) V @ [(ls, header [] (d ! ls))])) d"
  shows "outside ls (recovered ls d) (recovered ls e)" "length bs < m \<Longrightarrow> recovered ls e = e \<and> disk_log ls e = []"
proof -
  let ?H = "home_writes bs (length bs) V"
  have fb: "fits ls bs (length d)" using f by (simp add: bs_def)
  have rd: "recovered ls d = apply_writes ?H d" by (simp add: recovered_def bs_def V_def)
  have l: "ls < length d" "length bs \<le> LOGSIZE" using fb by (simp_all add: fits_def)
  show last: "recovered ls e = e \<and> disk_log ls e = []" if m: "length bs < m"
  proof -
    have e: "e = (apply_writes ?H d)[ls := header [] (d ! ls)]" using m by (simp add: e_def home_writes_def)
    have "disk_log ls e = []" using h l by (intro disk_log_header [of _ _ _ "d ! ls"]) (simp_all add: e)
    then show ?thesis using recovered_empty by blast
  qed
  show "outside ls (recovered ls d) (recovered ls e)"
  proof (cases "m \<le> length bs")
    case True
    then have e: "e = apply_writes (take m ?H) d" by (simp add: e_def home_writes_def)
    have keep: "e ! k = d ! k" if "ls \<le> k \<and> k \<le> ls + LOGSIZE \<or> k \<notin> unat ` set bs" for k
      unfolding e using that home_writes_at [OF fb, of k _ V] by (intro apply_writes_other) (auto dest!: in_set_takeD)
    have bs: "disk_log ls e = bs" using keep [of ls] by (simp add: disk_log_def bs_def)
    have "e ! (ls + (j + 1)) = V j" if "j < length bs" for j using keep [of "ls + (j + 1)"] that l by (simp add: V_def)
    then have "recovered ls e = apply_writes ?H e"
      unfolding recovered_def bs by (simp cong: home_writes_cong)
    then show ?thesis unfolding rd using install_again [OF fb, of e V] keep by (simp add: e)
  next
    case False
    then have "e = (apply_writes ?H d)[ls := header [] (d ! ls)]" by (simp add: e_def home_writes_def)
    then show ?thesis unfolding rd using last False by (simp add: outside_def nth_list_update)
  qed
qed

section \<open>A machine with a transaction\<close>

text \<open>One block, 100, is changed in the cache and listed in the log.\<close>

definition tx_demo :: cmachine where
  "tx_demo = booted\<lparr>bufs := (map blank_buf [0..<30])[0 := (blank_buf 0)\<lparr>bflags := 6, bdev := 1, blockno := 100, bdata := replicate 512 7\<rparr>],
     log := (log booted)\<lparr>lh := \<lparr>lh_n = 1, lh_block = 100 # replicate 29 0\<rparr>\<rparr>\<rparr>"

text \<open>The header on the disk lists block 100, whose copy is in the log.\<close>

definition crashed_demo :: cmachine where
  "crashed_demo = booted\<lparr>memdisk := (replicate 1000 (replicate 512 0))[2 := header [100] (replicate 512 0), 3 := replicate 512 7]\<rparr>"

lemma tx_demo_sel:
  "sleeplks tx_demo = (\<lambda>l. \<lparr>sl_locked = 0, sl_name = [], sl_pid = 0\<rparr>)" "memdisk tx_demo = replicate 1000 (replicate 512 0)"
  "disksize tx_demo = 1000" "length (bufs tx_demo) = 30"
  "bufs tx_demo ! 0 = (blank_buf 0)\<lparr>bflags := 6, bdev := 1, blockno := 100, bdata := replicate 512 7\<rparr>"
  "0 < b \<Longrightarrow> b < 30 \<Longrightarrow> bufs tx_demo ! b = blank_buf b"
  "log tx_demo = \<lparr>lstart = 2, lsize = 30, outstanding = 0, committing = 0, ldev = 1, lh = \<lparr>lh_n = 1, lh_block = 100 # replicate 29 0\<rparr>\<rparr>"
  by (simp_all add: tx_demo_def)

lemma tx_demo_ok: "cache_ok 0 0 1 {} tx_demo" "dirty_blocks tx_demo = {100}"
proof -
  have b: "bufs tx_demo ! b = (if b = 0 then (blank_buf 0)\<lparr>bflags := 6, bdev := 1, blockno := 100, bdata := replicate 512 7\<rparr> else blank_buf b)"
    if "b < 30" for b using that by (cases "b = 0") (simp_all add: tx_demo_sel)
  have "calm 0 0 1 tx_demo"
    by (rule calm_cong [OF booted_calm]) (simp_all add: tx_demo_def pm_demo_sel same_cpuI)
  moreover have "lru xs tx_demo = lru xs booted" for xs
    by (rule lru_cong) (auto simp: tx_demo_def nth_Cons' nth_list_update blank_buf_def)
  then have "\<exists>xs. lru xs tx_demo" using booted_lru by blast
  moreover have "one_copy (bufs tx_demo)"
    by (auto simp: one_copy_def has_def b blank_buf_def split: if_splits)
  moreover have "buf_ok 1 {} tx_demo a" if "a < 30" for a
    using that by (auto simp: buf_ok_def Let_def b tx_demo_sel blank_buf_def valid_def dirty_def)
  ultimately show "cache_ok 0 0 1 {} tx_demo" by (simp add: cache_ok_def tx_demo_sel)
  have "k \<in> dirty_blocks tx_demo \<longleftrightarrow> k = 100" for k
  proof
    show "k = 100 \<Longrightarrow> k \<in> dirty_blocks tx_demo"
      unfolding dirty_blocks_iff by (intro exI [of _ 0]) (simp add: tx_demo_sel dirty_def)
  qed (auto simp: dirty_blocks_iff tx_demo_sel(4) b dirty_def blank_buf_def split: if_splits)
  then show "dirty_blocks tx_demo = {100}" by blast
qed

lemma crashed_demo_ok: "cache_ok 0 0 1 {} crashed_demo" "dirty_blocks crashed_demo = {}"
proof -
  have b: "bufs crashed_demo ! b = blank_buf b" if "b < 30" for b using that by (simp add: crashed_demo_def)
  have sel: "disksize crashed_demo = 1000" "length (memdisk crashed_demo) = 1000" "length (bufs crashed_demo) = 30"
      "sleeplks crashed_demo = (\<lambda>l. \<lparr>sl_locked = 0, sl_name = [], sl_pid = 0\<rparr>)"
    by (simp_all add: crashed_demo_def)
  have "calm 0 0 1 crashed_demo"
    by (rule calm_cong [OF booted_calm]) (simp_all add: crashed_demo_def pm_demo_sel same_cpuI)
  moreover have "lru xs crashed_demo = lru xs booted" for xs
    by (rule lru_cong) (simp_all add: crashed_demo_def)
  then have "\<exists>xs. lru xs crashed_demo" using booted_lru by blast
  moreover have "one_copy (bufs crashed_demo)" by (auto simp: one_copy_def has_def b blank_buf_def)
  moreover have "buf_ok 1 {} crashed_demo a" if "a < 30" for a
    using that by (simp add: buf_ok_def Let_def b sel blank_buf_def valid_def dirty_def)
  ultimately show "cache_ok 0 0 1 {} crashed_demo" by (simp add: cache_ok_def sel)
  show "dirty_blocks crashed_demo = {}" by (auto simp: dirty_blocks_iff sel b dirty_def blank_buf_def)
qed

section \<open>Main properties\<close>

text \<open>
  C2. A transaction is atomic with respect to crashes. \<^verbatim>\<open>commit\<close> returns, and whatever number \<open>m\<close> of its
  writes has reached the disk when the machine stops, recovery finds the disk as it was before the
  transaction or, once the header is written, with all of its blocks: nothing in between. After
  the last write the blocks are in their places and the log on the disk is empty.
\<close>

theorem commit_crash_safe:
  assumes "cache_ok c i q {} s" and "logged ls bs s" and "fits ls bs (length (memdisk s))" and "bs \<noteq> []"
    and "set bs = dirty_blocks s" and "length bs < NBUF" and "disk_log ls (memdisk s) = []" and "length (memdisk s ! ls) = BSIZE"
  shows "\<exists>t W. commit s = Ret () t \<and> wrote W s t \<and>
    (\<forall>m. let e = apply_writes (take m W) (memdisk s) in
       if m \<le> length bs then outside ls (memdisk s) (recovered ls e) else outside ls (memdisk t) (recovered ls e)) \<and>
    (\<forall>j<length bs. memdisk t ! unat (bs ! j) = bview s (bs ! j)) \<and> disk_log ls (memdisk t) = []"
proof -
  let ?V = "\<lambda>j. bview s (bs ! j)" and ?h = "bview s (of_nat ls)" and ?d = "memdisk s"
  let ?W = "commit_writes ls bs ?V ?h" and ?H = "home_writes bs (length bs) (\<lambda>j. bview s (bs ! j))"
  obtain t where t: "commit s = Ret () t" "wrote ?W s t"
    using commit_ok [OF assms(1-6)] by blast
  have l: "ls < length ?d" "length bs \<le> LOGSIZE" using assms(3) by (simp_all add: fits_def)
  have "of_nat ls \<notin> set bs" using home_block(2) [OF assms(1,3), of _ 0] by (auto simp: in_set_conv_nth)
  then have h: "length ?h = BSIZE"
    using bview_clean [OF assms(1), of "of_nat ls"] log_index(1) [OF assms(1) l(1)] assms(5,8) by simp
  note cr = commit_crash [OF assms(3) h assms(7), where V = ?V]
  have lt: "memdisk t = apply_writes (take (length ?W) ?W) ?d" using t(2) by (simp add: wrote_def)
  have dl: "disk_log ls (memdisk t) = []"
    using t(2) l h by (intro disk_log_header [of _ _ _ "header bs ?h"]) (simp_all add: wrote_def commit_writes_def)
  then have "recovered ls (memdisk t) = memdisk t" by (rule recovered_empty)
  moreover have "\<not> length ?W \<le> length bs" by (simp add: commit_writes_def log_writes_def)
  ultimately have new: "outside ls (apply_writes ?H ?d) (memdisk t)" using cr [of "length ?W"] lt by simp
  then have "outside ls (memdisk t) e" if "outside ls (apply_writes ?H ?d) e" for e
    using that by (simp add: outside_def)
  then have "let e = apply_writes (take m ?W) ?d in
      if m \<le> length bs then outside ls ?d (recovered ls e) else outside ls (memdisk t) (recovered ls e)" for m
    using cr [of m] by (simp add: Let_def split: if_splits)
  moreover have "memdisk t ! unat (bs ! j) = bview s (bs ! j)" if j: "j < length bs" for j
  proof -
    have b: "unat (bs ! j) < length ?d" "unat (bs ! j) < ls \<or> ls + LOGSIZE < unat (bs ! j)"
      using assms(3) j by (auto simp: fits_def)
    have "first_index (\<lambda>b. unat b = unat (bs ! j)) bs = Some j"
      using assms(3) j by (auto simp: first_index_Some_iff fits_def nth_eq_iff_index_eq word_unat_eq_iff [symmetric])
    moreover have "memdisk t ! unat (bs ! j) = apply_writes ?H ?d ! unat (bs ! j)" using new b unfolding outside_def by auto
    ultimately show ?thesis using home_writes_nth [OF assms(3) b(1)] by simp
  qed
  ultimately show ?thesis using t dl by blast
qed

theorem commit_crash_safe_witness:
  "\<exists>t. commit tx_demo = Ret () t \<and> memdisk t ! 100 = replicate 512 7 \<and> disk_log 2 (memdisk t) = []"
proof -
  have f: "logged 2 [100] tx_demo" "fits 2 [100] (length (memdisk tx_demo))"
    by (simp_all add: logged_def fits_def tx_demo_sel)
  have d: "disk_log 2 (memdisk tx_demo) = []" "length (memdisk tx_demo ! 2) = BSIZE"
    by (simp_all add: disk_log_def get32_def tx_demo_sel)
  have v: "bview tx_demo 100 = replicate 512 7"
    using bview_hit [OF cache_okD(3,2) [OF tx_demo_ok(1)], of 0 100] by (simp add: tx_demo_sel has_def valid_def)
  show ?thesis
    using commit_crash_safe [OF tx_demo_ok(1) f _ _ _ d] tx_demo_ok(2) by (auto simp: v)
qed

text \<open>
  C3. Recovery implements its specification: \<^verbatim>\<open>recover_from_log\<close> returns with the blocks that the header on
  the disk lists copied from the log to their places, the other blocks outside the log as they
  were, and the log empty. A crash during recovery does no harm: after any number of its writes,
  recovering again gives the same disk.
\<close>

theorem recovery_correct:
  assumes "cache_ok c i q {} s" and "dirty_blocks s = {}"
    and "ldev (log s) = 1" and "lstart (log s) = int ls" and "length (lh_block (lh (log s))) = LOGSIZE"
    and "0 \<le> sint (get32 (memdisk s ! ls) 0)" and "sint (get32 (memdisk s ! ls) 0) \<le> int LOGSIZE"
    and "fits ls (disk_log ls (memdisk s)) (length (memdisk s))" and "length (memdisk s ! ls) = BSIZE"
  shows "\<exists>t W. recover_from_log s = Ret () t \<and> wrote W s t \<and> logged ls [] t \<and>
    outside ls (recovered ls (memdisk s)) (memdisk t) \<and> disk_log ls (memdisk t) = [] \<and>
    (\<forall>m. outside ls (recovered ls (memdisk s)) (recovered ls (apply_writes (take m W) (memdisk s))))"
proof -
  let ?d = "memdisk s" and ?bs = "disk_log ls (memdisk s)"
  let ?W = "home_writes ?bs (length ?bs) (\<lambda>j. ?d ! (ls + (j + 1))) @ [(ls, header [] (?d ! ls))]"
  obtain t where t: "recover_from_log s = Ret () t" "logged ls [] t" "wrote ?W s t"
    using recover_ok [OF assms(1-8)] by blast
  note cr = recover_crash [OF assms(8,9)]
  have lt: "memdisk t = apply_writes (take (length ?W) ?W) ?d" using t(3) by (simp add: wrote_def)
  have "length ?bs < length ?W" by (simp add: home_writes_def)
  then have "recovered ls (memdisk t) = memdisk t \<and> disk_log ls (memdisk t) = []" using cr(2) [of "length ?W"] unfolding lt by blast
  then have "outside ls (recovered ls ?d) (memdisk t) \<and> disk_log ls (memdisk t) = []" using cr(1) [of "length ?W"] unfolding lt by simp
  then show ?thesis using t cr(1) by blast
qed

theorem recovery_correct_witness:
  "disk_log 2 (memdisk crashed_demo) = [100] \<and>
   (\<exists>t. recover_from_log crashed_demo = Ret () t \<and> memdisk t ! 100 = replicate 512 7 \<and> disk_log 2 (memdisk t) = [])"
proof -
  let ?d = "memdisk crashed_demo"
  have m: "?d = (replicate 1000 (replicate 512 0))[2 := header [100] (replicate 512 0), 3 := replicate 512 7]"
    by (simp add: crashed_demo_def)
  have bs: "disk_log 2 ?d = [100]" by (rule disk_log_header [of _ _ _ "replicate 512 0"]) (simp_all add: m)
  have n: "get32 (?d ! 2) 0 = 1" by (simp add: m header_def get32_put32_apart get32_put32)
  have f: "fits 2 (disk_log 2 ?d) (length ?d)" unfolding bs by (simp add: fits_def m)
  have l: "length (?d ! 2) = BSIZE" by (simp add: m)
  have r: "recovered 2 ?d ! 100 = replicate 512 7" unfolding recovered_def bs by (simp add: home_writes_def m numeral_3_eq_3 [symmetric])
  have lg: "ldev (log crashed_demo) = 1" "lstart (log crashed_demo) = int 2" "length (lh_block (lh (log crashed_demo))) = LOGSIZE"
    by (simp_all add: crashed_demo_def)
  obtain t where "recover_from_log crashed_demo = Ret () t" "outside 2 (recovered 2 ?d) (memdisk t)" "disk_log 2 (memdisk t) = []"
    using recovery_correct [OF crashed_demo_ok lg _ _ f l] n by auto
  moreover have "length (recovered 2 ?d) = 1000" by (simp add: recovered_def m)
  ultimately show ?thesis using r bs by (auto simp: outside_def)
qed

end
