(* ===== verification/Pipe_Inv.thy ===== *)
theory Pipe_Inv
  imports Kernel_Safety Log_Inv
begin

text \<open>
  A pipe as a bounded first-in first-out queue. The locale states the contract of such a queue; the ring
  buffer of \<^verbatim>\<open>struct pipe\<close>, with counters that wrap around at \<open>2^32\<close>, is shown to keep it, and
  \<^verbatim>\<open>pipewrite\<close> and \<^verbatim>\<open>piperead\<close> are then described by their effect on the queue.
\<close>

section \<open>The contract of a bounded queue\<close>

locale bounded_fifo =
  fixes ok :: "'q \<Rightarrow> bool"
    and items :: "'q \<Rightarrow> 'a list"
    and full :: "'q \<Rightarrow> bool"
    and put :: "'a \<Rightarrow> 'q \<Rightarrow> 'q"
    and get :: "nat \<Rightarrow> 'q \<Rightarrow> 'a list \<times> 'q"
    and cap :: nat
  assumes bounded: "ok q \<Longrightarrow> length (items q) \<le> cap"
    and full_iff: "ok q \<Longrightarrow> full q \<longleftrightarrow> length (items q) = cap"
    and put_ok: "ok q \<Longrightarrow> \<not> full q \<Longrightarrow> ok (put x q)"
    and put_items: "ok q \<Longrightarrow> \<not> full q \<Longrightarrow> items (put x q) = items q @ [x]"
    and get_ok: "ok q \<Longrightarrow> ok (snd (get n q))"
    and get_fst: "ok q \<Longrightarrow> fst (get n q) = take n (items q)"
    and get_items: "ok q \<Longrightarrow> items (snd (get n q)) = drop n (items q)"
begin

lemma full_take: "ok q \<Longrightarrow> full q \<Longrightarrow> take cap (items q @ xs) = items q"
  by (simp add: full_iff)

lemma put_take: "ok q \<Longrightarrow> \<not> full q \<Longrightarrow> take cap (items (put x q) @ xs) = take cap (items q @ x # xs)"
  by (simp add: put_items)

lemma put_room: "ok q \<Longrightarrow> \<not> full q \<Longrightarrow>
    length (items (put x q)) + length xs \<le> cap \<longleftrightarrow> length (items q) + length (x # xs) \<le> cap"
  by (simp add: put_items)

lemma take_id: "length (items q) + length xs \<le> cap \<Longrightarrow> take cap (items q @ xs) = items q @ xs"
  by simp

lemma full_room: "ok q \<Longrightarrow> full q \<Longrightarrow> xs \<noteq> [] \<Longrightarrow> \<not> length (items q) + length xs \<le> cap"
  by (simp add: full_iff)

lemma put_all:
  "ok q \<Longrightarrow> length (items q) + length xs \<le> cap \<Longrightarrow> ok (fold put xs q) \<and> items (fold put xs q) = items q @ xs"
proof (induction xs arbitrary: q)
  case (Cons x xs)
  have nf: "\<not> full q" using Cons.prems by (simp add: full_iff)
  then show ?case
    using Cons.IH [of "put x q"] Cons.prems by (simp add: put_ok put_items)
qed simp

lemma put_all_get:
  "ok q \<Longrightarrow> items q = [] \<Longrightarrow> length xs \<le> cap \<Longrightarrow> fst (get (length xs) (fold put xs q)) = xs"
  using put_all [of q xs] by (simp add: get_fst)

end

section \<open>The ring buffer keeps the contract\<close>

definition ring512 :: "uchar list \<Rightarrow> nat \<Rightarrow> nat \<Rightarrow> uchar list" where
  "ring512 d r n = map (\<lambda>k. d ! ((r + k) mod 512)) [0..<n]"

definition pipe_items :: "pipe \<Rightarrow> uchar list" where
  "pipe_items q = ring512 (pdata q) (unat (nread q)) (unat (nwrite q - nread q))"

definition pipe_full :: "pipe \<Rightarrow> bool" where
  "pipe_full q \<longleftrightarrow> nwrite q = nread q + PIPESIZE"

lemma pipe_index: "unat ((r + of_nat k) mod PIPESIZE) = (unat r + k) mod 512"
proof -
  have "unat (r + of_nat k) = (unat r + k) mod 2 ^ 32"
    by (simp add: unat_word_ariths unat_of_nat mod_add_right_eq)
  moreover have "(unat r + k) mod 2 ^ 32 mod 512 = (unat r + k) mod 512"
    by (rule mod_mod_cancel) (simp add: dvd_def exI [of _ "8388608 :: nat"])
  ultimately show ?thesis by (simp add: unat_mod)
qed

lemma pipe_index_write: "unat (w mod PIPESIZE) = (unat r + unat (w - r)) mod 512"
  using pipe_index [of r "unat (w - r)"] by simp

lemma ring512_length [simp]: "length (ring512 d r n) = n"
  by (simp add: ring512_def)

lemma ring512_snoc:
  assumes "length d = 512" and "n < 512"
  shows "ring512 (d[(r + n) mod 512 := x]) r (Suc n) = ring512 d r n @ [x]"
proof -
  have "(r + k) mod 512 \<noteq> (r + n) mod 512" if "k < n" for k
  proof
    assume "(r + k) mod 512 = (r + n) mod 512"
    then have "(r + n) mod 512 = (r + k) mod 512" by simp
    then have "512 dvd (r + n) - (r + k)" using that by (simp add: mod_eq_dvd_iff_nat)
    then show False using that assms(2) by (simp add: nat_dvd_not_less)
  qed
  then have "ring512 (d[(r + n) mod 512 := x]) r n = ring512 d r n"
    unfolding ring512_def by (intro map_cong) (auto simp: nth_list_update_neq [OF not_sym])
  then show ?thesis using assms(1) by (simp add: ring512_def)
qed

lemma ring512_Cons: "ring512 d r (Suc n) = d ! (r mod 512) # ring512 d (Suc r) n"
  by (simp add: ring512_def upt_conv_Cons map_Suc_upt [symmetric] del: upt_Suc)

lemma ring512_mod: "ring512 d (r mod 2 ^ 32) n = ring512 d r n"
proof -
  have "(r mod 2 ^ 32 + k) mod 512 = (r + k) mod 512" for k
  proof -
    have "r mod 2 ^ 32 mod 512 = r mod 512"
      by (rule mod_mod_cancel) (simp add: dvd_def exI [of _ "8388608 :: nat"])
    then show ?thesis by (metis mod_add_left_eq)
  qed
  then show ?thesis by (simp add: ring512_def)
qed

lemma pipe_room:
  assumes "pipe_ok q"
  shows "unat (nwrite q - nread q) \<le> 512" "pipe_full q \<longleftrightarrow> unat (nwrite q - nread q) = 512"
proof -
  show "unat (nwrite q - nread q) \<le> 512" using assms by (simp add: pipe_ok_def word_le_nat_alt)
  have "pipe_full q \<longleftrightarrow> nwrite q - nread q = 512"
    unfolding pipe_full_def by (metis add.commute add_diff_cancel_right' diff_add_cancel)
  then show "pipe_full q \<longleftrightarrow> unat (nwrite q - nread q) = 512" by (simp add: word_unat_eq_iff)
qed

lemma pipe_items_put:
  assumes "pipe_ok q" and "\<not> pipe_full q"
  shows "pipe_items (pipe_put x q) = pipe_items q @ [x]"
proof -
  have lt: "unat (nwrite q - nread q) < 512" using pipe_room [OF assms(1)] assms(2) by simp
  have "unat (nwrite q + 1 - nread q) = Suc (unat (nwrite q - nread q))"
  proof -
    have e: "nwrite q + 1 - nread q = (nwrite q - nread q) + 1" by simp
    show ?thesis unfolding e using lt by (subst unat_add_lem [THEN iffD1]) simp_all
  qed
  then show ?thesis using assms(1) ring512_snoc [OF _ lt, of "pdata q" "unat (nread q)" x]
    by (simp add: pipe_items_def pipe_put_def pipe_ok_def pipe_index_write [of "nwrite q" "nread q"])
qed

lemma pipe_items_step:
  assumes "nread q \<noteq> nwrite q"
  shows "pipe_items q = pdata q ! unat (nread q mod PIPESIZE) # pipe_items (q\<lparr>nread := nread q + 1\<rparr>)"
proof -
  have "nwrite q - nread q \<noteq> 0" using assms by auto
  then have "unat (nwrite q - nread q) = Suc (unat (nwrite q - (nread q + 1)))"
    by (metis Suc_pred' diff_diff_eq unat_gt_0 unat_minus_one)
  moreover have "ring512 d (unat (nread q + 1)) n = ring512 d (Suc (unat (nread q))) n" for d n
    using ring512_mod [of d "Suc (unat (nread q))" n] by (simp add: unat_word_ariths)
  ultimately show ?thesis
    using pipe_index [of "nread q" 0] by (simp add: pipe_items_def ring512_Cons)
qed

lemma pipe_items_Nil: "pipe_items q = [] \<longleftrightarrow> nread q = nwrite q"
  by (auto simp: pipe_items_def ring512_def unat_eq_0)

lemma pipe_take_items:
  "fst (pipe_take n q) = take n (pipe_items q) \<and> pipe_items (snd (pipe_take n q)) = drop n (pipe_items q)"
proof (induction n arbitrary: q)
  case (Suc n)
  show ?case
  proof (cases "nread q = nwrite q")
    case True
    then show ?thesis using pipe_items_Nil [of q] by simp
  next
    case False
    then show ?thesis using Suc.IH [of "q\<lparr>nread := nread q + 1\<rparr>"] pipe_items_step [OF False]
      by (simp add: Let_def split_def)
  qed
qed simp

interpretation pq: bounded_fifo pipe_ok pipe_items pipe_full pipe_put pipe_take 512
proof unfold_locales
  fix q x n
  assume q: "pipe_ok q"
  show "length (pipe_items q) \<le> 512" "pipe_full q \<longleftrightarrow> length (pipe_items q) = 512"
    using pipe_room [OF q] by (simp_all add: pipe_items_def)
  show "\<not> pipe_full q \<Longrightarrow> pipe_ok (pipe_put x q)" by (rule pipe_ok_put [OF q]) (simp add: pipe_full_def)
  show "\<not> pipe_full q \<Longrightarrow> pipe_items (pipe_put x q) = pipe_items q @ [x]" by (rule pipe_items_put [OF q])
  show "pipe_ok (snd (pipe_take n q))" by (rule pipe_ok_take [OF q])
  show "fst (pipe_take n q) = take n (pipe_items q)" "pipe_items (snd (pipe_take n q)) = drop n (pipe_items q)"
    using pipe_take_items by blast+
qed

section \<open>Writing and reading\<close>

lemma pipes_of_upper: "pmachine.more t = pmachine.more s \<Longrightarrow> pipes t = pipes (s :: 'z fmachine_scheme)"
  by (cases s; cases t) simp

lemma within_upd_pipe:
  assumes "within c i q L (s :: 'z fmachine_scheme)"
  shows "within c i q L (upd_pipe p f s)"
  using assms by (intro within_cong [OF assms]) (simp_all add: within_def upd_pipe_def same_cpuI)

lemma pipes_upd [simp]:
  "pipes (upd_pipe p f s) = (pipes s)(p := f (pipes s p))" "procs (upd_pipe p f s) = procs s"
  by (simp_all add: upd_pipe_def)

text \<open>Sleeping inside a critical section gives the lock up and leaves the upper state alone.\<close>

lemma within_sleep:
  assumes "within c i q L (s :: 'z pmachine_scheme)" and "L \<noteq> PtableLock"
  shows "\<exists>t. sleep ch (Some L) s = Block t \<and> lock_free L t \<and> pmachine.more t = pmachine.more s \<and>
    (\<exists>b. procs t = (procs s)[i := asleep ch b (procs s ! i)])"
proof -
  note w = within_release [OF assms(1)]
  have i: "i < length (procs s)" using assms(1) by (simp add: within_def)
  obtain t where t: "sleep ch (Some L) s = Block t" "lock_free L t"
    "machine.more t = machine.more (s\<lparr>procs := (procs s)[i := asleep ch (intena (cpus s ! c)) (procs s ! i)]\<rparr>)"
    using sleep_eq [OF w(4,5) w(7) assms(2) w(6) i] assms(2) by blast
  note m = pm_of_machine [OF t(3)]
  have "pmachine.more t = pmachine.more s" using m by simp
  moreover have "procs t = (procs s)[i := asleep ch (intena (cpus s ! c)) (procs s ! i)]" using m by simp
  ultimately show ?thesis using t by blast
qed

text \<open>
  \<open>others_woken ch i s t\<close>: every process other than \<open>i\<close> is in \<open>t\<close> as \<^verbatim>\<open>wakeup(ch)\<close> leaves it.
\<close>

definition others_woken :: "chan \<Rightarrow> nat \<Rightarrow> 'z pmachine_scheme \<Rightarrow> 'z pmachine_scheme \<Rightarrow> bool" where
  "others_woken ch i s t \<longleftrightarrow> length (procs t) = length (procs s) \<and>
     (\<forall>j < length (procs s). j \<noteq> i \<longrightarrow> procs t ! j = woken (Some ch) (procs s ! j))"

definition giving_up :: "uint32 \<Rightarrow> nat \<Rightarrow> 'z fmachine_scheme \<Rightarrow> bool" where
  "giving_up p i s \<longleftrightarrow> readopen (pipes s p) = 0 \<or> killed (procs s ! i) \<noteq> 0"

lemma pipewrite_full_ok:
  assumes "within c i q (PipeLock p) s"
  shows "\<exists>t. pipewrite_full p s = (if giving_up p i s then Ret (- 1) t else Block t) \<and>
    pipes t = pipes s \<and> lock_free (PipeLock p) t \<and> (giving_up p i s \<longrightarrow> calm c i q t) \<and>
    (\<not> giving_up p i s \<longrightarrow> others_woken (ChanPipeRead p) i s t)"
proof (cases "giving_up p i s")
  case True
  note w = within_release [OF assms]
  have "pipewrite_full p s = Ret (- 1) (dropped c (PipeLock p) s)"
    using True w(1,3) by (auto simp: pipewrite_full_def giving_up_def Let_def bindK_def thenK_def retK_def getsK_def derefK_def)
  moreover have "lock_free (PipeLock p) (dropped c (PipeLock p) s)" using w(2) by (simp add: calm_def)
  moreover have "pipes (dropped c (PipeLock p) s) = pipes s" by (rule pipes_of_upper) simp
  ultimately show ?thesis using True w(2) by auto
next
  case False
  obtain u where u: "wakeup (ChanPipeRead p) s = Ret () u" "within c i q (PipeLock p) u"
    "pmachine.more u = pmachine.more s" "procs u = map (woken (Some (ChanPipeRead p))) (procs s)"
    using within_wakeup_procs [OF assms, of "ChanPipeRead p"] by auto
  obtain t b where t: "sleep (ChanPipeWrite p) (Some (PipeLock p)) u = Block t" "lock_free (PipeLock p) t"
    "pmachine.more t = pmachine.more u" "procs t = (procs u)[i := asleep (ChanPipeWrite p) b (procs u ! i)]"
    using within_sleep [OF u(2), of "ChanPipeWrite p"] by auto
  have "pipewrite_full p s = Block t"
    using False within_release(3) [OF assms] u(1) t(1)
    by (simp add: pipewrite_full_def giving_up_def Let_def bindK_def thenK_def retK_def getsK_def derefK_def)
  moreover have "pipes t = pipes s" by (rule pipes_of_upper) (simp add: t(3) u(3))
  moreover have "others_woken (ChanPipeRead p) i s t" by (simp add: others_woken_def t(4) u(4))
  ultimately show ?thesis using False t(2) by auto
qed

text \<open>
  \<open>written p xs s t\<close>: the queue of pipe \<open>p\<close> has taken as many of \<open>xs\<close> as it had room for; the other
  pipes and the ends of this one are unchanged.
\<close>

definition written :: "uint32 \<Rightarrow> uchar list \<Rightarrow> 'z fmachine_scheme \<Rightarrow> 'z fmachine_scheme \<Rightarrow> bool" where
  "written p xs s t \<longleftrightarrow> pipe_ok (pipes t p) \<and> pipe_items (pipes t p) = take 512 (pipe_items (pipes s p) @ xs) \<and>
     readopen (pipes t p) = readopen (pipes s p) \<and> writeopen (pipes t p) = writeopen (pipes s p) \<and>
     (\<forall>p'. p' \<noteq> p \<longrightarrow> pipes t p' = pipes s p')"

definition pipe_fits :: "uint32 \<Rightarrow> uchar list \<Rightarrow> 'z fmachine_scheme \<Rightarrow> bool" where
  "pipe_fits p xs s \<longleftrightarrow> length (pipe_items (pipes s p)) + length xs \<le> 512"

lemma pipewrite_loop_ok:
  assumes "within c i q (PipeLock p) s" and "pipe_ok (pipes s p)"
  shows "\<exists>t. pipewrite_loop p xs n s =
      (if pipe_fits p xs s then Ret n t else if giving_up p i s then Ret (- 1) t else Block t) \<and>
    written p xs s t \<and> lock_free (PipeLock p) t \<and> (pipe_fits p xs s \<or> giving_up p i s \<longrightarrow> calm c i q t) \<and>
    (pipe_fits p xs s \<or> \<not> giving_up p i s \<longrightarrow> others_woken (ChanPipeRead p) i s t)"
  using assms
proof (induction xs arbitrary: s)
  case Nil
  obtain u where u: "wakeup (ChanPipeRead p) s = Ret () u" "within c i q (PipeLock p) u"
    "pmachine.more u = pmachine.more s" "procs u = map (woken (Some (ChanPipeRead p))) (procs s)"
    using within_wakeup_procs [OF Nil.prems(1), of "ChanPipeRead p"] by auto
  note r = within_release [OF u(2)]
  have "pipewrite_loop p [] n s = Ret n (dropped c (PipeLock p) u)" using u(1) r(1) by (simp add: thenK_Ret retK_def)
  moreover have "pipe_fits p [] s" using pq.bounded [OF Nil.prems(2)] by (simp add: pipe_fits_def)
  moreover have "pipes (dropped c (PipeLock p) u) = pipes s" by (rule pipes_of_upper) (simp add: u(3))
  moreover have "lock_free (PipeLock p) (dropped c (PipeLock p) u)" using r(2) by (simp add: calm_def)
  ultimately show ?case
    using r(2) Nil.prems(2) pq.bounded [OF Nil.prems(2)] u(4) by (simp add: written_def others_woken_def)
next
  case (Cons x xs)
  show ?case
  proof (cases "pipe_full (pipes s p)")
    case True
    have "\<not> pipe_fits p (x # xs) s" using pq.full_room [OF Cons.prems(2) True, of "x # xs"] by (simp add: pipe_fits_def)
    moreover have "pipewrite_loop p (x # xs) n s = pipewrite_full p s"
      using True by (simp add: bindK_def getsK_def pipe_full_def)
    ultimately show ?thesis using pipewrite_full_ok [OF Cons.prems(1)] Cons.prems(2) pq.full_take [OF Cons.prems(2) True, of "x # xs"]
      by (auto simp: written_def)
  next
    case False
    let ?u = "upd_pipe p (pipe_put x) s"
    have e: "pipewrite_loop p (x # xs) n s = pipewrite_loop p xs n ?u"
      using False by (simp add: bindK_def getsK_def thenK_def modifyK_def pipe_full_def)
    have "giving_up p i ?u = giving_up p i s" by (simp add: giving_up_def pipe_put_def)
    moreover have "pipe_fits p xs ?u = pipe_fits p (x # xs) s"
      using pq.put_room [OF Cons.prems(2) False, of x xs] by (simp add: pipe_fits_def)
    moreover have "written p xs ?u t \<Longrightarrow> written p (x # xs) s t" for t
      using pq.put_take [OF Cons.prems(2) False, of x xs] by (simp add: written_def pipe_put_def)
    moreover have "others_woken (ChanPipeRead p) i ?u t = others_woken (ChanPipeRead p) i s t" for t
      by (simp add: others_woken_def)
    moreover have "pipe_ok (pipes ?u p)" using pq.put_ok [OF Cons.prems(2) False] by simp
    ultimately show ?thesis using Cons.IH [OF within_upd_pipe [OF Cons.prems(1)], of p "pipe_put x"] unfolding e by auto
  qed
qed

definition pipe_taken :: "uint32 \<Rightarrow> nat \<Rightarrow> 'z fmachine_scheme \<Rightarrow> 'z fmachine_scheme \<Rightarrow> bool" where
  "pipe_taken p n s t \<longleftrightarrow> pipe_ok (pipes t p) \<and> pipe_items (pipes t p) = drop n (pipe_items (pipes s p)) \<and>
     (\<forall>p'. p' \<noteq> p \<longrightarrow> pipes t p' = pipes s p')"

definition starved :: "uint32 \<Rightarrow> 'z fmachine_scheme \<Rightarrow> bool" where
  "starved p s \<longleftrightarrow> pipe_items (pipes s p) = [] \<and> writeopen (pipes s p) \<noteq> 0"

lemma piperead_data:
  assumes "within c i q (PipeLock p) s" and "pipe_ok (pipes s p)" and "\<not> starved p s"
  shows "\<exists>t. piperead_loop p n s =
      Ret (int (min (nat n) (length (pipe_items (pipes s p)))), take (nat n) (pipe_items (pipes s p))) t \<and>
    pipe_taken p (nat n) s t \<and> calm c i q t \<and> others_woken (ChanPipeWrite p) i s t"
proof -
  let ?v = "upd_pipe p (\<lambda>q. snd (pipe_take (nat n) q)) s"
  obtain u where u: "wakeup (ChanPipeWrite p) ?v = Ret () u" "within c i q (PipeLock p) u"
    "pmachine.more u = pmachine.more ?v" "procs u = map (woken (Some (ChanPipeWrite p))) (procs s)"
    using within_wakeup_procs [OF within_upd_pipe [OF assms(1)], of "ChanPipeWrite p"] by auto
  note r = within_release [OF u(2)]
  have "\<not> (nread (pipes s p) = nwrite (pipes s p) \<and> writeopen (pipes s p) \<noteq> 0)"
    using assms(3) pipe_items_Nil by (auto simp: starved_def)
  then have "piperead_loop p n s = Ret (int (min (nat n) (length (pipe_items (pipes s p)))),
      take (nat n) (pipe_items (pipes s p))) (dropped c (PipeLock p) u)"
    using u(1) r(1) by (auto simp: piperead_loop_def bindK_def getsK_def thenK_def modifyK_def retK_def
        pq.get_fst [OF assms(2)] min.commute)
  moreover have "pipes (dropped c (PipeLock p) u) = pipes ?v" by (rule pipes_of_upper) (simp add: u(3))
  ultimately show ?thesis
    using r(2) u(4) pq.get_ok [OF assms(2)] pq.get_items [OF assms(2)]
    by (simp add: pipe_taken_def others_woken_def)
qed

lemma piperead_empty:
  assumes "within c i q (PipeLock p) s" and "starved p s"
  shows "\<exists>t. piperead_loop p n s = (if killed (procs s ! i) \<noteq> 0 then Ret (- 1, []) t else Block t) \<and>
    pipes t = pipes s \<and> lock_free (PipeLock p) t \<and> (killed (procs s ! i) \<noteq> 0 \<longrightarrow> calm c i q t)"
proof (cases "killed (procs s ! i) = 0")
  case True
  obtain t where t: "sleep (ChanPipeRead p) (Some (PipeLock p)) s = Block t" "lock_free (PipeLock p) t"
    "pmachine.more t = pmachine.more s"
    using within_sleep [OF assms(1), of "ChanPipeRead p"] by auto
  have "piperead_loop p n s = Block t"
    using True assms(2) pipe_items_Nil within_release(3) [OF assms(1)] t(1)
    by (simp add: piperead_loop_def starved_def bindK_def getsK_def derefK_def thenK_def)
  then show ?thesis using True t(2) pipes_of_upper [OF t(3)] by auto
next
  case False
  note w = within_release [OF assms(1)]
  have "piperead_loop p n s = Ret (- 1, []) (dropped c (PipeLock p) s)"
    using False assms(2) pipe_items_Nil w(1,3)
    by (simp add: piperead_loop_def starved_def bindK_def getsK_def derefK_def thenK_def retK_def)
  moreover have "pipes (dropped c (PipeLock p) s) = pipes s" by (rule pipes_of_upper) simp
  moreover have "lock_free (PipeLock p) (dropped c (PipeLock p) s)" using w(2) by (simp add: calm_def)
  ultimately show ?thesis using False w(2) by auto
qed

section \<open>Properties\<close>

lemma calm_took:
  "pipes (took c L s) = pipes (s :: 'z fmachine_scheme)"
  by (rule pipes_of_upper) simp

text \<open>
  C7. A pipe is a first-in first-out queue of at most 512 bytes. \<^verbatim>\<open>pipewrite\<close> appends as many of its bytes
  as there is room for, in order; it returns their number when all of them fit, goes to sleep
  with the lock free when they do not, and returns -1 when in addition the reading end is closed or
  the process is killed. \<^verbatim>\<open>piperead\<close> of \<open>n\<close> bytes removes the first \<open>n\<close> bytes of the queue, or all of
  them, and returns them with their number; on an empty pipe it returns 0 when the writing end is
  closed, and otherwise sleeps or, in a killed process, returns -1. Other pipes are untouched.
\<close>

theorem pipe_fifo:
  assumes "calm c i q s" and "pipe_ok (pipes s p)"
  shows "(\<exists>t. pipewrite p xs (int (length xs)) s =
        (if pipe_fits p xs s then Ret (int (length xs)) t else if giving_up p i s then Ret (- 1) t else Block t) \<and>
      written p xs s t \<and> lock_free (PipeLock p) t) \<and>
    (\<exists>t. piperead p n s =
        (if \<not> starved p s then Ret (int (min (nat n) (length (pipe_items (pipes s p)))), take (nat n) (pipe_items (pipes s p))) t
         else if killed (procs s ! i) \<noteq> 0 then Ret (- 1, []) t else Block t) \<and>
      pipe_taken p (nat n) s t \<and> lock_free (PipeLock p) t)"
proof (rule conjI)
  note a = calm_acquire [OF assms(1), of "PipeLock p"]
  let ?s = "took c (PipeLock p) s"
  have ok: "pipe_ok (pipes ?s p)" using assms(2) by (simp add: calm_took)
  have e: "pipe_fits p xs ?s = pipe_fits p xs s" "giving_up p i ?s = giving_up p i s" "starved p ?s = starved p s"
    "written p xs ?s = written p xs s" "pipe_taken p (nat n) ?s = pipe_taken p (nat n) s"
    by (simp_all add: fun_eq_iff pipe_fits_def giving_up_def starved_def written_def pipe_taken_def calm_took)
  show "\<exists>t. pipewrite p xs (int (length xs)) s =
        (if pipe_fits p xs s then Ret (int (length xs)) t else if giving_up p i s then Ret (- 1) t else Block t) \<and>
      written p xs s t \<and> lock_free (PipeLock p) t"
    using pipewrite_loop_ok [OF a(2) ok, of xs "int (length xs)"] a(1) by (auto simp: e pipewrite_def thenK_Ret)
  show "\<exists>t. piperead p n s =
        (if \<not> starved p s then Ret (int (min (nat n) (length (pipe_items (pipes s p)))), take (nat n) (pipe_items (pipes s p))) t
         else if killed (procs s ! i) \<noteq> 0 then Ret (- 1, []) t else Block t) \<and>
      pipe_taken p (nat n) s t \<and> lock_free (PipeLock p) t"
  proof (cases "starved p s")
    case True
    then show ?thesis using piperead_empty [OF a(2), of n] a(1) assms(2)
      by (auto simp: e piperead_def thenK_Ret calm_took pipe_taken_def starved_def)
  next
    case False
    then obtain t where "piperead_loop p n ?s =
        Ret (int (min (nat n) (length (pipe_items (pipes s p)))), take (nat n) (pipe_items (pipes s p))) t"
      "pipe_taken p (nat n) s t" "calm c i q t"
      using piperead_data [OF a(2) ok, of n] by (auto simp: e calm_took)
    then show ?thesis using False a(1) by (auto simp: piperead_def thenK_Ret calm_def)
  qed
qed

lemma booted_pipe:
  "nread (pipes booted p) = 0" "nwrite (pipes booted p) = 0" "writeopen (pipes booted p) = 1" "killed (procs booted ! 0) = 0"
  by (simp_all add: pm_demo_sel blank_proc_def)

lemma booted_pipe_ok: "pipe_ok (pipes booted p)"
  using kernel_ok_booted by (simp add: kernel_ok_def data_ok_def)

theorem pipe_fifo_witness:
  "(\<exists>t. pipewrite 0x80300000 [1, 2, 3] 3 booted = Ret 3 t \<and> pipe_items (pipes t 0x80300000) = [1, 2, 3]) \<and>
   (\<exists>t. piperead 0x80300000 7 booted = Block t)"
proof -
  have e: "pipe_items (pipes booted 0x80300000) = []" by (simp add: pipe_items_def ring512_def booted_pipe)
  show ?thesis
    using pipe_fifo [OF booted_calm booted_pipe_ok, where p = "0x80300000" and xs = "[1, 2, 3]" and n = 7] e
    by (auto simp: pipe_fits_def written_def starved_def booted_pipe booted_pipe(4) [simplified])
qed

text \<open>
  C23. No process is left asleep on a pipe that has become ready. A \<^verbatim>\<open>pipewrite\<close> that returns its count, or
  that fills the pipe and sleeps, has made every other process asleep on the reading channel
  runnable; a \<^verbatim>\<open>piperead\<close> that returns bytes has done so for the writing channel.
\<close>

theorem pipe_wakes:
  assumes "calm c i q s" and "pipe_ok (pipes s p)"
  shows "(pipe_fits p xs s \<or> \<not> giving_up p i s \<longrightarrow>
      (\<exists>t. (pipewrite p xs (int (length xs)) s = Ret (int (length xs)) t \<or> pipewrite p xs (int (length xs)) s = Block t) \<and>
        others_woken (ChanPipeRead p) i s t)) \<and>
    (\<not> starved p s \<longrightarrow> (\<exists>r t. piperead p n s = Ret r t \<and> others_woken (ChanPipeWrite p) i s t))"
proof -
  note a = calm_acquire [OF assms(1), of "PipeLock p"]
  let ?s = "took c (PipeLock p) s"
  have ok: "pipe_ok (pipes ?s p)" using assms(2) by (simp add: calm_took)
  have e: "pipe_fits p xs ?s = pipe_fits p xs s" "giving_up p i ?s = giving_up p i s" "starved p ?s = starved p s"
    "others_woken ch i ?s = others_woken ch i s" for ch
    by (simp_all add: fun_eq_iff pipe_fits_def giving_up_def starved_def others_woken_def calm_took)
  show ?thesis
    using pipewrite_loop_ok [OF a(2) ok, of xs "int (length xs)"] piperead_data [OF a(2) ok, of n] a(1)
    by (auto simp: e pipewrite_def piperead_def thenK_Ret split: if_splits)
qed

theorem pipe_wakes_witness:
  "\<exists>t. (pipewrite 0x80300000 [1, 2, 3] 3 booted = Ret 3 t \<or> pipewrite 0x80300000 [1, 2, 3] 3 booted = Block t) \<and>
     others_woken (ChanPipeRead 0x80300000) 0 booted t"
proof -
  have e: "pipe_items (pipes booted 0x80300000) = []" by (simp add: pipe_items_def ring512_def booted_pipe)
  show ?thesis
    using pipe_wakes [OF booted_calm booted_pipe_ok, where p = "0x80300000" and xs = "[1, 2, 3]"] e by (simp add: pipe_fits_def)
qed

end
