(* ===== verification/User_Lock.thy ===== *)
theory User_Lock
  imports Exclusion
begin

text \<open>
  The locks that threads of one process share in user memory (\<^verbatim>\<open>ulib.c\<close>, with the atomic instructions
  of \<^verbatim>\<open>x86.h\<close>): the test-and-set lock and the ticket lock on a \<^verbatim>\<open>struct lock\<close> of \<^verbatim>\<open>user.h\<close>. Threads are
  numbers; a step is one access of one thread to the lock, in any interleaving.
\<close>

section \<open>The lock and the instructions\<close>

record user_lock =
  ulocked :: uint32
  next_ticket :: uint32
  now_serving :: uint32

text \<open>The value the instruction returns, and the value the word holds afterwards.\<close>

definition test_and_set :: "uint32 \<Rightarrow> uint32 \<times> uint32" where
  "test_and_set w = (w, 1)"

definition read_and_increment :: "uint32 \<Rightarrow> uint32 \<times> uint32" where
  "read_and_increment w = (w, w + 1)"

section \<open>The test-and-set lock\<close>

datatype tas_pc = TasOut | TasWait | TasIn

record tas_sys =
  tas_lock :: user_lock
  tas_at :: "nat \<Rightarrow> tas_pc"

text \<open>One round of the loop of \<^verbatim>\<open>lock_acquire\<close>; the store of \<^verbatim>\<open>lock_release\<close>.\<close>

definition lock_acquire_try :: "nat \<Rightarrow> tas_sys \<Rightarrow> tas_sys" where
  "lock_acquire_try i s =
     (let (old, new) = test_and_set (ulocked (tas_lock s))
      in s\<lparr>tas_lock := (tas_lock s)\<lparr>ulocked := new\<rparr>, tas_at := (tas_at s)(i := if old = 1 then TasWait else TasIn)\<rparr>)"

definition lock_release :: "nat \<Rightarrow> tas_sys \<Rightarrow> tas_sys" where
  "lock_release i s = s\<lparr>tas_lock := (tas_lock s)\<lparr>ulocked := 0\<rparr>, tas_at := (tas_at s)(i := TasOut)\<rparr>"

inductive tas_step :: "tas_sys \<Rightarrow> tas_sys \<Rightarrow> bool" where
  tas_call: "tas_at s i = TasOut \<Longrightarrow> tas_step s (s\<lparr>tas_at := (tas_at s)(i := TasWait)\<rparr>)"
| tas_try: "tas_at s i = TasWait \<Longrightarrow> tas_step s (lock_acquire_try i s)"
| tas_leave: "tas_at s i = TasIn \<Longrightarrow> tas_step s (lock_release i s)"

definition tas_start :: "tas_sys \<Rightarrow> bool" where
  "tas_start s \<longleftrightarrow> ulocked (tas_lock s) = 0 \<and> (\<forall>i. tas_at s i = TasOut)"

definition tas_inside :: "tas_sys \<Rightarrow> nat \<Rightarrow> bool" where
  "tas_inside s i \<longleftrightarrow> tas_at s i = TasIn"

definition tas_inv :: "tas_sys \<Rightarrow> bool" where
  "tas_inv s \<longleftrightarrow> ulocked (tas_lock s) = 0 \<and> (\<forall>i. tas_at s i \<noteq> TasIn) \<or>
     ulocked (tas_lock s) = 1 \<and> (\<exists>i. \<forall>j. tas_at s j = TasIn \<longleftrightarrow> j = i)"

lemma tas_inv_step: "tas_step s t \<Longrightarrow> tas_inv s \<Longrightarrow> tas_inv t"
proof (induction rule: tas_step.induct)
  case (tas_call s i)
  then have "(tas_at (s\<lparr>tas_at := (tas_at s)(i := TasWait)\<rparr>) j = TasIn) = (tas_at s j = TasIn)" for j by simp
  then show ?case using tas_call.prems by (simp add: tas_inv_def)
next
  case (tas_try s i)
  show ?case
  proof (cases "ulocked (tas_lock s) = 1")
    case True
    then have "(tas_at (lock_acquire_try i s) j = TasIn) = (tas_at s j = TasIn)" for j
      using tas_try.hyps by (simp add: lock_acquire_try_def test_and_set_def)
    then show ?thesis using True tas_try.prems by (simp add: tas_inv_def lock_acquire_try_def test_and_set_def)
  next
    case False
    then show ?thesis using tas_try.prems by (auto simp: tas_inv_def lock_acquire_try_def test_and_set_def)
  qed
next
  case (tas_leave s i)
  then show ?case by (auto simp: tas_inv_def lock_release_def)
qed

interpretation tas: exclusion tas_start tas_step tas_inv tas_inside
proof unfold_locales
  show "tas_start s \<Longrightarrow> tas_inv s" for s by (simp add: tas_start_def tas_inv_def)
  show "tas_inv s \<Longrightarrow> tas_step s t \<Longrightarrow> tas_inv t" for s t by (rule tas_inv_step)
  show "tas_inv s \<Longrightarrow> tas_inside s i \<Longrightarrow> tas_inside s j \<Longrightarrow> i = j" for s i j
    by (auto simp: tas_inv_def tas_inside_def)
qed

section \<open>The ticket lock\<close>

text \<open>
  A waiting thread holds its ticket; \<^verbatim>\<open>ticket_release\<close> loads \<^verbatim>\<open>now_serving\<close> and stores it back incremented, in two
  steps. Both counters wrap around.
\<close>

datatype ticket_pc = TkOut | TkWait uint32 | TkIn | TkLeave uint32

record ticket_sys =
  tk_lock :: user_lock
  tk_at :: "nat \<Rightarrow> ticket_pc"

definition ticket_take :: "nat \<Rightarrow> ticket_sys \<Rightarrow> ticket_sys" where
  "ticket_take i s =
     (let (me, new) = read_and_increment (next_ticket (tk_lock s))
      in s\<lparr>tk_lock := (tk_lock s)\<lparr>next_ticket := new\<rparr>, tk_at := (tk_at s)(i := TkWait me)\<rparr>)"

definition ticket_test :: "nat \<Rightarrow> uint32 \<Rightarrow> ticket_sys \<Rightarrow> ticket_sys" where
  "ticket_test i me s = (if now_serving (tk_lock s) \<noteq> me then s else s\<lparr>tk_at := (tk_at s)(i := TkIn)\<rparr>)"

definition ticket_release_load :: "nat \<Rightarrow> ticket_sys \<Rightarrow> ticket_sys" where
  "ticket_release_load i s = s\<lparr>tk_at := (tk_at s)(i := TkLeave (now_serving (tk_lock s)))\<rparr>"

definition ticket_release_store :: "nat \<Rightarrow> uint32 \<Rightarrow> ticket_sys \<Rightarrow> ticket_sys" where
  "ticket_release_store i v s = s\<lparr>tk_lock := (tk_lock s)\<lparr>now_serving := v + 1\<rparr>, tk_at := (tk_at s)(i := TkOut)\<rparr>"

inductive ticket_step :: "nat \<Rightarrow> ticket_sys \<Rightarrow> ticket_sys \<Rightarrow> bool" for n where
  tk_take: "i < n \<Longrightarrow> tk_at s i = TkOut \<Longrightarrow> ticket_step n s (ticket_take i s)"
| tk_test: "tk_at s i = TkWait me \<Longrightarrow> ticket_step n s (ticket_test i me s)"
| tk_load: "tk_at s i = TkIn \<Longrightarrow> ticket_step n s (ticket_release_load i s)"
| tk_store: "tk_at s i = TkLeave v \<Longrightarrow> ticket_step n s (ticket_release_store i v s)"

definition ticket_start :: "ticket_sys \<Rightarrow> bool" where
  "ticket_start s \<longleftrightarrow> next_ticket (tk_lock s) = now_serving (tk_lock s) \<and> (\<forall>i. tk_at s i = TkOut)"

definition tk_inside :: "ticket_sys \<Rightarrow> nat \<Rightarrow> bool" where
  "tk_inside s i \<longleftrightarrow> tk_at s i = TkIn \<or> (\<exists>v. tk_at s i = TkLeave v)"

text \<open>
  \<open>ticket_queue ts s\<close>: the threads that have taken a ticket and not given it back are \<open>ts\<close>, in the
  order of their tickets; the first of them is being served.
\<close>

definition ticket_queue :: "nat list \<Rightarrow> ticket_sys \<Rightarrow> bool" where
  "ticket_queue ts s \<longleftrightarrow> distinct ts \<and>
     next_ticket (tk_lock s) = now_serving (tk_lock s) + of_nat (length ts) \<and>
     (\<forall>i. tk_at s i = TkOut \<longleftrightarrow> i \<notin> set ts) \<and>
     (\<forall>k < length ts. tk_at s (ts ! k) = TkWait (now_serving (tk_lock s) + of_nat k) \<or>
        k = 0 \<and> tk_at s (ts ! k) \<in> {TkIn, TkLeave (now_serving (tk_lock s))})"

definition ticket_inv :: "nat \<Rightarrow> ticket_sys \<Rightarrow> bool" where
  "ticket_inv n s \<longleftrightarrow> (\<exists>ts. ticket_queue ts s \<and> set ts \<subseteq> {..<n})"

lemma ticket_queue_take:
  assumes "ticket_queue ts s" and "tk_at s i = TkOut"
  shows "ticket_queue (ts @ [i]) (ticket_take i s)"
proof -
  have i: "i \<notin> set ts" using assms by (simp add: ticket_queue_def)
  then have ne: "ts ! k \<noteq> i" if "k < length ts" for k using that by (metis nth_mem)
  show ?thesis using assms i ne
    by (auto simp: ticket_queue_def ticket_take_def read_and_increment_def nth_append less_Suc_eq)
qed

text \<open>
  Only the thread at the head of the queue sees its ticket being served, since there are not more
  threads than tickets; only the head is inside.
\<close>

lemma ticket_queue_index:
  assumes "ticket_queue ts s" and "tk_at s i \<noteq> TkOut"
  obtains k where "k < length ts" "ts ! k = i"
proof -
  have "i \<in> set ts" using assms unfolding ticket_queue_def by metis
  then show ?thesis using that by (auto simp: in_set_conv_nth)
qed

lemma ticket_queue_inside:
  assumes "ticket_queue ts s" and "tk_inside s i"
  shows "ts \<noteq> [] \<and> i = ts ! 0 \<and> tk_at s i \<in> {TkIn, TkLeave (now_serving (tk_lock s))}"
proof -
  have "tk_at s i \<noteq> TkOut" using assms(2) by (auto simp: tk_inside_def)
  then obtain k where k: "k < length ts" "ts ! k = i" by (rule ticket_queue_index [OF assms(1)])
  have "tk_at s i \<noteq> TkWait v" for v using assms(2) by (auto simp: tk_inside_def)
  then have "k = 0 \<and> tk_at s i \<in> {TkIn, TkLeave (now_serving (tk_lock s))}"
    using assms(1) k unfolding ticket_queue_def by blast
  then show ?thesis using k by auto
qed

lemma ticket_queue_served:
  assumes "ticket_queue ts s" and "length ts \<le> 2 ^ 32" and "tk_at s i = TkWait (now_serving (tk_lock s))"
  shows "ts \<noteq> [] \<and> i = ts ! 0"
proof -
  have "tk_at s i \<noteq> TkOut" using assms(3) by simp
  then obtain k where k: "k < length ts" "ts ! k = i" by (rule ticket_queue_index [OF assms(1)])
  have "tk_at s i = TkWait (now_serving (tk_lock s) + of_nat k)"
    using assms(1,3) k unfolding ticket_queue_def by force
  then have "(of_nat k :: uint32) = 0" using assms(3) by simp
  moreover have "k < 2 ^ 32" using k(1) assms(2) by simp
  ultimately have "k = 0" by (auto simp: word_of_nat_eq_0_iff dest: dvd_imp_le)
  then show ?thesis using k by auto
qed

text \<open>What each step does to the queue.\<close>

lemma ticket_queue_test:
  assumes "ticket_queue ts s" and "length ts \<le> 2 ^ 32" and "tk_at s i = TkWait me"
  shows "ticket_queue ts (ticket_test i me s)"
proof (cases "now_serving (tk_lock s) = me")
  case True
  have h: "ts \<noteq> []" "i = ts ! 0" using ticket_queue_served [OF assms(1,2), of i] assms(3) True by simp_all
  have "ts ! k = i \<longleftrightarrow> k = 0" if "k < length ts" for k
    using that h assms(1) nth_eq_iff_index_eq [of ts k 0] by (auto simp: ticket_queue_def)
  then show ?thesis using assms(1) h True by (auto simp: ticket_queue_def ticket_test_def)
qed (use assms(1) in \<open>simp add: ticket_test_def\<close>)

lemma ticket_queue_load:
  assumes "ticket_queue ts s" and "tk_at s i = TkIn"
  shows "ticket_queue ts (ticket_release_load i s)"
proof -
  have h: "ts \<noteq> []" "i = ts ! 0" using ticket_queue_inside [OF assms(1), of i] assms(2) by (simp_all add: tk_inside_def)
  have "ts ! k = i \<longleftrightarrow> k = 0" if "k < length ts" for k
    using that h assms(1) nth_eq_iff_index_eq [of ts k 0] by (auto simp: ticket_queue_def)
  then show ?thesis using assms(1) h by (auto simp: ticket_queue_def ticket_release_load_def)
qed

lemma ticket_queue_store:
  assumes "ticket_queue ts s" and "tk_at s i = TkLeave v"
  shows "ts \<noteq> [] \<and> i = ts ! 0 \<and> ticket_queue (tl ts) (ticket_release_store i v s)"
proof -
  have h: "ts \<noteq> []" "i = ts ! 0" "v = now_serving (tk_lock s)"
    using ticket_queue_inside [OF assms(1), of i] assms(2) by (auto simp: tk_inside_def)
  then obtain us where us: "ts = i # us" by (cases ts) auto
  have d: "i \<notin> set us" "distinct us" using assms(1) us by (simp_all add: ticket_queue_def)
  have w: "tk_at s (us ! k) = TkWait (v + 1 + of_nat k)" if "k < length us" for k
  proof -
    have "tk_at s (us ! k) = TkWait (v + of_nat (Suc k))"
      using assms(1) that h(3) unfolding ticket_queue_def us by (metis Suc_less_eq length_Cons nat.distinct(1) nth_Cons_Suc)
    then show ?thesis by (simp add: add.assoc)
  qed
  have o: "tk_at s j = TkOut \<longleftrightarrow> j \<notin> set ts" for j using assms(1) unfolding ticket_queue_def by blast
  have nx: "next_ticket (tk_lock s) = v + of_nat (length ts)" using assms(1) h(3) unfolding ticket_queue_def by blast
  have "ticket_queue us (ticket_release_store i v s)"
    unfolding ticket_queue_def
  proof (intro conjI allI impI)
    fix j k
    show "next_ticket (tk_lock (ticket_release_store i v s)) = now_serving (tk_lock (ticket_release_store i v s)) + of_nat (length us)"
      using nx us by (simp add: ticket_release_store_def)
    show "tk_at (ticket_release_store i v s) j = TkOut \<longleftrightarrow> j \<notin> set us"
      using o [of j] us d(1) by (cases "j = i") (simp_all add: ticket_release_store_def)
    assume k: "k < length us"
    then have "us ! k \<noteq> i" using d(1) by (metis nth_mem)
    then show "tk_at (ticket_release_store i v s) (us ! k) = TkWait (now_serving (tk_lock (ticket_release_store i v s)) + of_nat k) \<or>
        k = 0 \<and> tk_at (ticket_release_store i v s) (us ! k) \<in> {TkIn, TkLeave (now_serving (tk_lock (ticket_release_store i v s)))}"
      using w [OF k] by (simp add: ticket_release_store_def)
  qed (rule d(2))
  then show ?thesis using us by simp
qed

lemma ticket_queue_step:
  assumes "ticket_step n s t" and "ticket_queue ts s" and "length ts \<le> 2 ^ 32"
  shows "(\<exists>i < n. ticket_queue (ts @ [i]) t) \<or> ticket_queue ts t \<or> ts \<noteq> [] \<and> ticket_queue (tl ts) t"
  using assms
  by (cases rule: ticket_step.cases)
    (auto dest: ticket_queue_take ticket_queue_test ticket_queue_load ticket_queue_store)

lemma ticket_inv_step:
  assumes "n \<le> 2 ^ 32" and "ticket_inv n s" and "ticket_step n s t"
  shows "ticket_inv n t"
proof -
  obtain ts where ts: "ticket_queue ts s" "set ts \<subseteq> {..<n}" using assms(2) by (auto simp: ticket_inv_def)
  have "card (set ts) \<le> n" using card_mono [OF _ ts(2)] by simp
  then have "length ts \<le> 2 ^ 32" using ts(1) assms(1) by (simp add: ticket_queue_def distinct_card)
  then show ?thesis using ticket_queue_step [OF assms(3) ts(1)] ts(2)
    by (cases ts) (fastforce simp: ticket_inv_def)+
qed

interpretation tk: exclusion ticket_start "ticket_step NPROC" "ticket_inv NPROC" tk_inside
proof unfold_locales
  show "ticket_start s \<Longrightarrow> ticket_inv NPROC s" for s
    by (auto simp: ticket_start_def ticket_inv_def ticket_queue_def intro: exI [of _ "[]"])
  show "ticket_inv NPROC s \<Longrightarrow> ticket_step NPROC s t \<Longrightarrow> ticket_inv NPROC t" for s t
    by (rule ticket_inv_step) simp_all
  show "ticket_inv NPROC s \<Longrightarrow> tk_inside s i \<Longrightarrow> tk_inside s j \<Longrightarrow> i = j" for s i j
    by (auto simp: ticket_inv_def dest: ticket_queue_inside)
qed

section \<open>Properties\<close>

text \<open>
  C24. The test-and-set lock excludes: in every interleaving of \<^verbatim>\<open>lock_acquire\<close> and \<^verbatim>\<open>lock_release\<close> at most one
  thread is past the loop and has not released, and the lock word is 0 exactly when no thread is.
\<close>

theorem user_lock_exclusion:
  assumes "reach tas_start tas_step s"
  shows "(\<exists>\<^sub>\<le>\<^sub>1 i. tas_at s i = TasIn) \<and> (ulocked (tas_lock s) = 0 \<longleftrightarrow> (\<forall>i. tas_at s i \<noteq> TasIn))"
  using tas.at_most_one [OF assms] tas.reach_inv [OF assms] by (auto simp: tas_inside_def tas_inv_def)

theorem user_lock_exclusion_witness:
  "\<exists>s. reach tas_start tas_step s \<and> tas_at s 5 = TasIn \<and> (\<exists>\<^sub>\<le>\<^sub>1 i. tas_at s i = TasIn)"
proof -
  define s0 where "s0 = \<lparr>tas_lock = \<lparr>ulocked = 0, next_ticket = 0, now_serving = 0\<rparr>, tas_at = (\<lambda>i. TasOut)\<rparr>"
  define s1 where "s1 = s0\<lparr>tas_at := (tas_at s0)(5 := TasWait)\<rparr>"
  have "reach tas_start tas_step s0" by (rule reach_init) (simp add: s0_def tas_start_def)
  moreover have "tas_step s0 s1" unfolding s1_def by (rule tas_call) (simp add: s0_def)
  moreover have "tas_step s1 (lock_acquire_try 5 s1)" by (rule tas_try) (simp add: s1_def)
  ultimately have r: "reach tas_start tas_step (lock_acquire_try 5 s1)" by (blast intro: reach_step)
  have "tas_at (lock_acquire_try 5 s1) 5 = TasIn" by (simp add: lock_acquire_try_def test_and_set_def s1_def s0_def)
  then show ?thesis using r user_lock_exclusion [OF r] by blast
qed

text \<open>
  C8. The ticket lock is a first-in first-out queue of threads, for the at most \<open>NPROC\<close> threads the kernel can
  hold and in every interleaving, also when the 32-bit counters wrap around: the threads that took a
  ticket stand in a queue, only its head is between \<^verbatim>\<open>ticket_acquire\<close> and \<^verbatim>\<open>ticket_release\<close>, a waiting head
  finds its ticket being served, and each step lets a thread join at the end, leaves the queue as it is,
  or removes the head.
\<close>

theorem ticket_lock_fifo:
  assumes "reach ticket_start (ticket_step NPROC) s"
  shows "\<exists>ts. ticket_queue ts s \<and> (\<forall>i. tk_inside s i \<longrightarrow> ts \<noteq> [] \<and> i = hd ts) \<and>
    (\<forall>me. ts \<noteq> [] \<longrightarrow> tk_at s (hd ts) = TkWait me \<longrightarrow> tk_at (ticket_test (hd ts) me s) (hd ts) = TkIn) \<and>
    (\<forall>t. ticket_step NPROC s t \<longrightarrow>
      (\<exists>i < NPROC. ticket_queue (ts @ [i]) t) \<or> ticket_queue ts t \<or> ts \<noteq> [] \<and> ticket_queue (tl ts) t)"
proof -
  obtain ts where ts: "ticket_queue ts s" "set ts \<subseteq> {..<NPROC}"
    using tk.reach_inv [OF assms] by (auto simp: ticket_inv_def)
  have "card (set ts) \<le> NPROC" using card_mono [OF _ ts(2)] by simp
  then have len: "length ts \<le> 2 ^ 32" using ts(1) by (simp add: ticket_queue_def distinct_card)
  have "tk_at (ticket_test (hd ts) me s) (hd ts) = TkIn" if "ts \<noteq> []" "tk_at s (hd ts) = TkWait me" for me
    using that ts(1) by (auto simp: ticket_queue_def ticket_test_def hd_conv_nth)
  then show ?thesis
    using ts(1) ticket_queue_inside [OF ts(1)] ticket_queue_step [OF _ ts(1) len]
    by (intro exI [of _ ts]) (auto simp: hd_conv_nth)
qed

theorem ticket_lock_fifo_witness:
  "\<exists>s ts. reach ticket_start (ticket_step NPROC) s \<and> next_ticket (tk_lock s) = 0 \<and>
     tk_at s 7 = TkWait 0xFFFFFFFF \<and> ticket_queue ts s \<and> (\<forall>i. tk_inside s i \<longrightarrow> ts \<noteq> [] \<and> i = hd ts)"
proof -
  define s0 where "s0 = \<lparr>tk_lock = \<lparr>ulocked = 0, next_ticket = 0xFFFFFFFF, now_serving = 0xFFFFFFFF\<rparr>, tk_at = (\<lambda>i. TkOut)\<rparr>"
  have "reach ticket_start (ticket_step NPROC) s0" by (rule reach_init) (simp add: s0_def ticket_start_def)
  moreover have "ticket_step NPROC s0 (ticket_take 7 s0)" by (rule tk_take) (simp_all add: s0_def)
  ultimately have r: "reach ticket_start (ticket_step NPROC) (ticket_take 7 s0)" by (rule reach_step)
  show ?thesis
    using r ticket_lock_fifo [OF r]
    by (intro exI [of _ "ticket_take 7 s0"]) (auto simp: ticket_take_def read_and_increment_def s0_def)
qed

end
