(* ===== verification/Grep.thy ===== *)
theory Grep
  imports Prelude "HOL-Library.Sublist"
begin

text \<open>
  The program \<^verbatim>\<open>grep\<close> (\<^verbatim>\<open>grep.c\<close>): the pattern matcher, with a declarative meaning of patterns that it is
  compared with, and the loop that splits the input into lines. A NUL-terminated string is the list of
  its bytes; pointing at the NUL is the empty list.
\<close>

section \<open>The matcher\<close>

abbreviation (input) CARET :: uchar where "CARET \<equiv> 94"
abbreviation (input) DOLLAR :: uchar where "DOLLAR \<equiv> 36"
abbreviation (input) DOT :: uchar where "DOT \<equiv> 46"
abbreviation (input) STAR :: uchar where "STAR \<equiv> 42"
abbreviation (input) NEWLINE :: uchar where "NEWLINE \<equiv> 10"

function (sequential) matchhere :: "uchar list \<Rightarrow> uchar list \<Rightarrow> bool"
  and matchstar :: "uchar \<Rightarrow> uchar list \<Rightarrow> uchar list \<Rightarrow> bool" where
  "matchhere [] tx = True"
| "matchhere (c # re) tx =
     (if re \<noteq> [] \<and> hd re = STAR then matchstar c (tl re) tx
      else if c = DOLLAR \<and> re = [] then tx = []
      else if tx \<noteq> [] \<and> (c = DOT \<or> c = hd tx) then matchhere re (tl tx)
      else False)"
| "matchstar c re tx =
     (if matchhere re tx then True
      else if tx \<noteq> [] \<and> (hd tx = c \<or> c = DOT) then matchstar c re (tl tx)
      else False)"
  by pat_completeness auto
termination
  by (relation "measures [\<lambda>x. case x of Inl (re, tx) \<Rightarrow> length re | Inr (c, re, tx) \<Rightarrow> length re,
      \<lambda>x. case x of Inl (re, tx) \<Rightarrow> length tx | Inr (c, re, tx) \<Rightarrow> length tx,
      \<lambda>x. case x of Inl _ \<Rightarrow> 0 | Inr _ \<Rightarrow> 1]") (auto simp: neq_Nil_conv)

text \<open>The loop of \<^verbatim>\<open>match\<close>, which looks at the empty string too.\<close>

fun match_from :: "uchar list \<Rightarrow> uchar list \<Rightarrow> bool" where
  "match_from re [] = matchhere re []"
| "match_from re (x # tx) = (matchhere re (x # tx) \<or> match_from re tx)"

definition match :: "uchar list \<Rightarrow> uchar list \<Rightarrow> bool" where
  "match re tx = (if re \<noteq> [] \<and> hd re = CARET then matchhere (tl re) tx else match_from re tx)"

section \<open>The meaning of patterns\<close>

text \<open>
  A pattern is a sequence of items: a repeated character, a \<^verbatim>\<open>$\<close> at the very end, or one character.
  \<open>lang re\<close> are the strings that the items describe, \<open>anchored re\<close> tells whether the pattern ends in \<^verbatim>\<open>$\<close>.
\<close>

datatype item = Star uchar | One uchar | End

fun items :: "uchar list \<Rightarrow> item list" where
  "items [] = []"
| "items [c] = [if c = DOLLAR then End else One c]"
| "items (c # d # re) = (if d = STAR then Star c # items re else One c # items (d # re))"

definition fits_char :: "uchar \<Rightarrow> uchar \<Rightarrow> bool" where
  "fits_char c x \<longleftrightarrow> c = DOT \<or> c = x"

fun lang :: "item list \<Rightarrow> uchar list set" where
  "lang [] = {[]}"
| "lang (Star c # is) = {u @ v |u v. (\<forall>x\<in>set u. fits_char c x) \<and> v \<in> lang is}"
| "lang (One c # is) = {x # v |x v. fits_char c x \<and> v \<in> lang is}"
| "lang (End # is) = lang is"

definition anchored :: "item list \<Rightarrow> bool" where
  "anchored is \<longleftrightarrow> End \<in> set is"

text \<open>\<open>found is tx\<close>: some prefix of the text is described, all of the text when the pattern is anchored.\<close>

definition found :: "item list \<Rightarrow> uchar list \<Rightarrow> bool" where
  "found is tx \<longleftrightarrow> (\<exists>u v. tx = u @ v \<and> u \<in> lang is \<and> (anchored is \<longrightarrow> v = []))"

definition matches :: "uchar list \<Rightarrow> uchar list \<Rightarrow> bool" where
  "matches re tx \<longleftrightarrow>
     (if re \<noteq> [] \<and> hd re = CARET then found (items (tl re)) tx
      else \<exists>w rest. tx = w @ rest \<and> found (items re) rest)"

lemma anchored_simps [simp]:
  "anchored [] = False" "anchored (End # is) = True" "anchored (One c # is) = anchored is"
  "anchored (Star c # is) = anchored is"
  by (auto simp: anchored_def)

lemma found_Nil: "found [] tx"
  by (auto simp: found_def)

lemma found_End: "found [End] tx \<longleftrightarrow> tx = []"
  by (auto simp: found_def)

lemma found_One: "found (One c # is) tx \<longleftrightarrow> tx \<noteq> [] \<and> fits_char c (hd tx) \<and> found is (tl tx)"
  by (cases tx) (auto simp: found_def Cons_eq_append_conv)

lemma found_Star_iff:
  "found (Star c # is) tx \<longleftrightarrow> (\<exists>u rest. tx = u @ rest \<and> (\<forall>x\<in>set u. fits_char c x) \<and> found is rest)"
proof
  assume "found (Star c # is) tx"
  then obtain u v w where t: "tx = (u @ v) @ w" "\<forall>x\<in>set u. fits_char c x" "v \<in> lang is" "anchored is \<longrightarrow> w = []"
    unfolding found_def lang.simps anchored_simps by blast
  then have "found is (v @ w)" unfolding found_def by blast
  then show "\<exists>u rest. tx = u @ rest \<and> (\<forall>x\<in>set u. fits_char c x) \<and> found is rest" using t by auto
next
  assume "\<exists>u rest. tx = u @ rest \<and> (\<forall>x\<in>set u. fits_char c x) \<and> found is rest"
  then obtain u v w where t: "tx = u @ v @ w" "\<forall>x\<in>set u. fits_char c x" "v \<in> lang is" "anchored is \<longrightarrow> w = []"
    unfolding found_def by blast
  then have "u @ v \<in> lang (Star c # is)" by auto
  then show "found (Star c # is) tx" using t unfolding found_def anchored_simps by (metis append.assoc)
qed

lemma found_Star:
  "found (Star c # is) tx \<longleftrightarrow> found is tx \<or> tx \<noteq> [] \<and> fits_char c (hd tx) \<and> found (Star c # is) (tl tx)"
  (is "?L = ?R")
proof
  assume ?L
  then obtain u rest where t: "tx = u @ rest" "\<forall>x\<in>set u. fits_char c x" "found is rest"
    by (auto simp: found_Star_iff)
  then show ?R by (cases u) (auto simp: found_Star_iff)
next
  assume ?R
  then show ?L
  proof
    assume "found is tx"
    then show ?L unfolding found_Star_iff by (intro exI [of _ "[]"] exI [of _ tx]) simp
  next
    assume a: "tx \<noteq> [] \<and> fits_char c (hd tx) \<and> found (Star c # is) (tl tx)"
    then obtain u rest where t: "tl tx = u @ rest" "\<forall>x\<in>set u. fits_char c x" "found is rest"
      by (auto simp: found_Star_iff)
    have "tx = (hd tx # u) @ rest" using a t(1) by (cases tx) simp_all
    moreover have "\<forall>x\<in>set (hd tx # u). fits_char c x" using a t(2) by simp
    ultimately show ?L using t(3) unfolding found_Star_iff by blast
  qed
qed

lemma match_items:
  "matchhere re tx \<longleftrightarrow> found (items re) tx"
  "matchstar c re tx \<longleftrightarrow> found (Star c # items re) tx"
proof (induction re tx and c re tx rule: matchhere_matchstar.induct)
  case (1 tx)
  then show ?case by (simp add: found_Nil)
next
  case (2 c re tx)
  show ?case
  proof (cases re)
    case Nil
    then show ?thesis using 2 by (auto simp: found_End found_One found_Nil fits_char_def)
  next
    case (Cons d re')
    then show ?thesis using 2 by (auto simp: found_One fits_char_def)
  qed
next
  case (3 c re tx)
  show ?case using 3 by (subst found_Star) (auto simp: fits_char_def)
qed

lemma match_from_found: "match_from re tx \<longleftrightarrow> (\<exists>w rest. tx = w @ rest \<and> found (items re) rest)"
proof (induction tx)
  case Nil
  then show ?case by (simp add: match_items)
next
  case (Cons x tx)
  have "(\<exists>w rest. x # tx = w @ rest \<and> found (items re) rest) \<longleftrightarrow>
      found (items re) (x # tx) \<or> (\<exists>w rest. tx = w @ rest \<and> found (items re) rest)"
    by (metis Cons_eq_append_conv append_Cons append_Nil)
  then show ?case using Cons by (simp add: match_items)
qed

section \<open>Lines\<close>

text \<open>
  The loop of \<^verbatim>\<open>grep\<close>. \<open>buf\<close> are the \<^verbatim>\<open>m\<close> bytes of the buffer that are in use; each element of the input is what
  one \<^verbatim>\<open>read\<close> returns, cut to the room in the buffer. \<open>grep_lines\<close> is the loop over the complete lines: the output
  and the bytes from \<^verbatim>\<open>p\<close> on, where \<^verbatim>\<open>strchr\<close> sees the bytes up to the first NUL only.
\<close>

lemma takeWhile_rest: "x \<in> set (takeWhile P p) \<Longrightarrow> length p - Suc k < length p"
  by (cases p) auto

function grep_lines :: "uchar list \<Rightarrow> uchar list \<Rightarrow> uchar list \<times> uchar list" where
  "grep_lines pattern p =
     (let str = takeWhile (\<lambda>x. x \<noteq> 0) p; line = takeWhile (\<lambda>x. x \<noteq> NEWLINE) str
      in if NEWLINE \<in> set str
         then (let (out, p') = grep_lines pattern (drop (length line + 1) p)
               in ((if match pattern line then line @ [NEWLINE] else []) @ out, p'))
         else ([], p))"
  by pat_completeness auto
termination
  by (relation "measure (\<lambda>(pattern, p). length p)") (auto dest: takeWhile_rest)

declare grep_lines.simps [simp del]

text \<open>When no line was complete (\<^verbatim>\<open>p == buf\<close>) the buffer is emptied.\<close>

fun grep :: "uchar list \<Rightarrow> uchar list \<Rightarrow> uchar list list \<Rightarrow> uchar list" where
  "grep pattern buf [] = []"
| "grep pattern buf (r # reads) =
     (let n = take (1024 - length buf - 1) r in
      if n = [] then []
      else let (out, p) = grep_lines pattern (buf @ n)
           in out @ grep pattern (if length p = length (buf @ n) then [] else p) reads)"

text \<open>What the program should print: the lines of the input that match.\<close>

definition matching_lines :: "uchar list \<Rightarrow> uchar list list \<Rightarrow> uchar list" where
  "matching_lines pattern ls = concat (map (\<lambda>l. l @ [NEWLINE]) (filter (matches pattern) ls))"

definition unlines :: "uchar list list \<Rightarrow> uchar list" where
  "unlines ls = concat (map (\<lambda>l. l @ [NEWLINE]) ls)"

definition plain :: "uchar list \<Rightarrow> bool" where
  "plain l \<longleftrightarrow> 0 \<notin> set l \<and> NEWLINE \<notin> set l"

lemma match_matches: "match re tx = matches re tx"
  by (simp add: match_def matches_def match_items match_from_found)

lemma takeWhile_all: "(\<forall>x\<in>set xs. P x) \<Longrightarrow> takeWhile P (xs @ ys) = xs @ takeWhile P ys"
  by (induction xs) auto

lemma grep_lines_plain:
  assumes "plain l"
  shows "grep_lines pattern (l @ NEWLINE # p) =
    (let (out, p') = grep_lines pattern p in ((if matches pattern l then l @ [NEWLINE] else []) @ out, p'))"
proof -
  have "takeWhile (\<lambda>x. x \<noteq> 0) (l @ NEWLINE # p) = l @ NEWLINE # takeWhile (\<lambda>x. x \<noteq> 0) p"
    using assms by (subst takeWhile_all) (auto simp: plain_def)
  moreover have "takeWhile (\<lambda>x. x \<noteq> NEWLINE) (l @ NEWLINE # q) = l" for q
    using assms by (subst takeWhile_all) (auto simp: plain_def)
  ultimately show ?thesis
    by (subst grep_lines.simps) (simp add: Let_def match_matches split_def)
qed

lemma grep_lines_rest: "NEWLINE \<notin> set p \<Longrightarrow> grep_lines pattern p = ([], p)"
  by (subst grep_lines.simps) (auto simp: Let_def dest: set_takeWhileD)

lemma grep_lines_unlines:
  assumes "\<forall>l\<in>set ls. plain l" and "NEWLINE \<notin> set p"
  shows "grep_lines pattern (unlines ls @ p) = (matching_lines pattern ls, p)"
  using assms
proof (induction ls)
  case Nil
  then show ?case using grep_lines_rest by (simp add: unlines_def matching_lines_def)
next
  case (Cons l ls)
  then show ?case using grep_lines_plain [of l pattern "unlines ls @ p"] by (simp add: unlines_def matching_lines_def)
qed

lemma unlines_simps [simp]: "unlines [] = []" "unlines (l # ls) = l @ NEWLINE # unlines ls"
  by (simp_all add: unlines_def)

lemma matching_append: "matching_lines pattern (ls @ ms) = matching_lines pattern ls @ matching_lines pattern ms"
  by (simp add: matching_lines_def)

text \<open>Every byte string is a sequence of lines and a rest without a newline, in only one way.\<close>

lemma split_lines: "\<exists>ls p. xs = unlines ls @ p \<and> (\<forall>l\<in>set ls. NEWLINE \<notin> set l) \<and> NEWLINE \<notin> set p"
proof (induction xs)
  case Nil
  show ?case by (intro exI [of _ "[]"]) simp
next
  case (Cons x xs)
  then obtain ls p where s: "xs = unlines ls @ p" "\<forall>l\<in>set ls. NEWLINE \<notin> set l" "NEWLINE \<notin> set p" by blast
  show ?case
  proof (cases "x = NEWLINE")
    case True
    then show ?thesis using s by (intro exI [of _ "[] # ls"] exI [of _ p]) simp
  next
    case False
    show ?thesis
    proof (cases ls)
      case Nil
      then show ?thesis using s False by (intro exI [of _ "[]"] exI [of _ "x # p"]) simp
    next
      case (Cons l ls')
      then show ?thesis using s False by (intro exI [of _ "(x # l) # ls'"] exI [of _ p]) simp
    qed
  qed
qed

lemma newline_cancel:
  "NEWLINE \<notin> set l \<Longrightarrow> NEWLINE \<notin> set k \<Longrightarrow> l @ NEWLINE # a = k @ NEWLINE # b \<Longrightarrow> l = k \<and> a = b"
proof (induction l arbitrary: k)
  case Nil
  then show ?case by (cases k) auto
next
  case (Cons x l)
  then show ?case by (cases k) auto
qed

lemma unlines_prefix:
  assumes "unlines ls @ a = unlines ks @ rest" and "\<forall>l\<in>set ls. NEWLINE \<notin> set l" and "\<forall>k\<in>set ks. NEWLINE \<notin> set k"
    and "NEWLINE \<notin> set rest"
  shows "\<exists>ms. ks = ls @ ms \<and> a = unlines ms @ rest"
  using assms
proof (induction ls arbitrary: ks)
  case (Cons l ls)
  show ?case
  proof (cases ks)
    case Nil
    then have "NEWLINE \<in> set rest" using Cons.prems(1) by (metis unlines_simps append_Cons append_Nil in_set_conv_decomp append.assoc)
    then show ?thesis using Cons.prems(4) by simp
  next
    case (Cons k ks')
    then have e: "l @ NEWLINE # (unlines ls @ a) = k @ NEWLINE # (unlines ks' @ rest)" using Cons.prems(1) by simp
    have "l = k \<and> unlines ls @ a = unlines ks' @ rest"
      using newline_cancel [OF _ _ e] Cons.prems(2,3) Cons by simp
    then show ?thesis using Cons.IH [of ks'] Cons.prems(2-4) Cons by auto
  qed
qed simp

lemma unlines_newline: "NEWLINE \<in> set r \<Longrightarrow> NEWLINE \<notin> set p \<Longrightarrow> b @ r = unlines ls @ p \<Longrightarrow> length p < length r"
proof (rule ccontr)
  assume r: "NEWLINE \<in> set r" "NEWLINE \<notin> set p" "b @ r = unlines ls @ p" and "\<not> length p < length r"
  then have "suffix r p" by (metis suffixI suffix_length_suffix not_less)
  then show False using r by (auto dest: set_mono_suffix)
qed

text \<open>\<open>read_ok r\<close>: a read of at most half of the buffer that brings the end of a line.\<close>

definition read_ok :: "uchar list \<Rightarrow> bool" where
  "read_ok r \<longleftrightarrow> NEWLINE \<in> set r \<and> length r \<le> 512"

lemma grep_reads:
  assumes "\<forall>r\<in>set reads. read_ok r" and "NEWLINE \<notin> set buf" and "length buf < 512"
    and "buf @ concat reads = unlines ls @ rest" and "\<forall>l\<in>set ls. plain l" and "NEWLINE \<notin> set rest"
  shows "grep pattern buf reads = matching_lines pattern ls"
  using assms
proof (induction reads arbitrary: buf ls)
  case Nil
  have "ls = []" using Nil.prems(2,4) by (cases ls) auto
  then show ?case by (simp add: matching_lines_def)
next
  case (Cons r reads)
  have r: "NEWLINE \<in> set r" "length r \<le> 512" using Cons.prems(1) by (simp_all add: read_ok_def)
  obtain ks p where k: "buf @ r = unlines ks @ p" "\<forall>k\<in>set ks. NEWLINE \<notin> set k" "NEWLINE \<notin> set p"
    using split_lines [of "buf @ r"] by blast
  have e: "unlines ks @ (p @ concat reads) = unlines ls @ rest" using Cons.prems(4) k(1) by (metis append.assoc concat.simps(2))
  have "\<forall>l\<in>set ls. NEWLINE \<notin> set l" using Cons.prems(5) by (simp add: plain_def)
  then obtain ms where ms: "ls = ks @ ms" "p @ concat reads = unlines ms @ rest"
    using unlines_prefix [OF e k(2) _ Cons.prems(6)] by blast
  have gl: "grep_lines pattern (buf @ r) = (matching_lines pattern ks, p)"
    unfolding k(1) using Cons.prems(5) ms(1) k(3) by (intro grep_lines_unlines) simp_all
  have lp: "length p < length r" by (rule unlines_newline [OF r(1) k(3,1)])
  have "grep pattern p reads = matching_lines pattern ms"
    using lp r(2) Cons.prems(1,5,6) ms by (intro Cons.IH) (simp_all add: k(3))
  moreover have "take (1024 - length buf - 1) r = r" using r(2) Cons.prems(3) by simp
  moreover have "r \<noteq> []" using r(1) by auto
  ultimately show ?case using gl lp ms(1) by (simp add: matching_append)
qed

section \<open>Properties\<close>



text \<open>
  A read that brings no newline to an empty buffer is thrown away: of the line \<^verbatim>\<open>abc\<close> that arrives in two
  pieces the program tests only the second piece, and the line is not printed.
\<close>

lemma grep_loses_piece:
  "grep [97] [] [[97, 98], [99, 10]] = [] \<and> matching_lines [97] [[97, 98, 99]] = [97, 98, 99, 10]"
proof -
  have "match_from [97] [97, 98, 99]" by simp
  then have "matches [97] [97, 98, 99]" using match_matches [of "[97]" "[97, 98, 99]"] by (simp add: match_def)
  moreover have "grep_lines [97] [97, 98] = ([], [97, 98])" by (rule grep_lines_rest) simp
  moreover have "grep_lines [97] [99, 10] = ([], [])"
    using grep_lines_plain [of "[99]" "[97]" "[]"] match_matches [of "[97]" "[99]"] grep_lines_rest [of "[]" "[97]"]
    by (simp add: plain_def match_def)
  ultimately show ?thesis by (simp add: matching_lines_def)
qed

end
