(* ===== verification/Spec2Isabelle.thy ===== *)
theory Spec2Isabelle
  imports CString Mmu Spinlock Kalloc Page_Table Proc_Sync Trap Kernel_Safety Log_Inv Pipe_Inv User_Lock Grep
begin

text \<open>
  A verification library for xv6 with threads (\<^verbatim>\<open>src/xv6-public\<close>): a small Unix kernel in C,
  extended with \<^verbatim>\<open>clone\<close>/\<^verbatim>\<open>join\<close> threads, a ticket scheduler, kernel mutexes, a barrier and
  user-level locks.
\<close>

end
